theory Spec2Isabelle
  imports Complex_Main "HOL-Library.Sublist"
begin

section \<open>Shared vocabulary\<close>

text \<open>
  The extension is event driven and single threaded.  Each handler is modelled as a
  function from the state it reads to the state it leaves behind, together with the list
  of update requests it hands to the external note store (\<open>updateNote(url, id, fields)\<close>).
  Pixel geometry is in whole CSS pixels.
\<close>

text \<open>The partial field sets the handlers pass to \<open>updateNote\<close>.\<close>

datatype note_update =
    AnchorFields "string option" "string option" int int
  | OffsetFields int int
  | AbsoluteFields int int
  | ContentField string

type_synonym update_request = "string \<times> note_update"

text \<open>JavaScript truthiness of a value that is \<open>null\<close> or a string.\<close>

fun truthy :: "string option \<Rightarrow> bool" where
  "truthy None = False"
| "truthy (Some s) = (s \<noteq> [])"

record client_rect =
  r_left :: int
  r_top :: int
  r_width :: int
  r_height :: int

definition r_right :: "client_rect \<Rightarrow> int" where
  "r_right r = r_left r + r_width r"

definition r_bottom :: "client_rect \<Rightarrow> int" where
  "r_bottom r = r_top r + r_height r"

record viewport_window =
  innerWidth :: int
  innerHeight :: int
  pageXOffset :: int
  pageYOffset :: int

section \<open>note-positioning.js: ensureNoteVisibility\<close>

text \<open>
  A note element is absolutely positioned against the document origin
  (\<open>positionNoteAtCoords\<close> sets \<open>position: absolute\<close>), so \<open>offsetLeft\<close>/\<open>offsetTop\<close> are
  its \<open>style.left\<close>/\<open>style.top\<close>, and its client rectangle is that position shifted by the
  scroll offsets.
\<close>

record note_element =
  in_document :: bool
  style_left :: int
  style_top :: int
  el_width :: int
  el_height :: int

record note_data =
  note_id :: string
  cssSelector :: "string option"
  xpath :: "string option"

definition getBoundingClientRect :: "viewport_window \<Rightarrow> note_element \<Rightarrow> client_rect" where
  "getBoundingClientRect win n =
     \<lparr> r_left = style_left n - pageXOffset win,
       r_top = style_top n - pageYOffset win,
       r_width = el_width n,
       r_height = el_height n \<rparr>"

definition MIN_VIEWPORT_MARGIN :: int where
  "MIN_VIEWPORT_MARGIN = 20"

text \<open>
  \<open>resolve\<close> stands for \<open>DOMSelectors.findElementBySelector\<close> followed by
  \<open>getBoundingClientRect\<close> of the element found.  The result is the element as the
  handler leaves it and the offset updates it requests.
\<close>

definition ensureNoteVisibility ::
  "viewport_window \<Rightarrow> (string option \<Rightarrow> string option \<Rightarrow> client_rect option) \<Rightarrow>
   note_element option \<Rightarrow> note_data \<Rightarrow> note_element option \<times> update_request list" where
  "ensureNoteVisibility win resolve noteElement noteData =
     (case noteElement of
        None \<Rightarrow> (None, [])
      | Some n \<Rightarrow>
          if \<not> in_document n then (Some n, [])
          else
            let rect = getBoundingClientRect win n;
                overRight = r_right rect > innerWidth win - MIN_VIEWPORT_MARGIN;
                overLeft = r_left rect < MIN_VIEWPORT_MARGIN;
                newLeft =
                  (if overRight
                   then innerWidth win - r_width rect - MIN_VIEWPORT_MARGIN + pageXOffset win
                   else if overLeft then MIN_VIEWPORT_MARGIN + pageXOffset win
                   else style_left n);
                overBottom = r_bottom rect > innerHeight win - MIN_VIEWPORT_MARGIN;
                overTop = r_top rect < MIN_VIEWPORT_MARGIN;
                newTop =
                  (if overBottom
                   then innerHeight win - r_height rect - MIN_VIEWPORT_MARGIN + pageYOffset win
                   else if overTop then MIN_VIEWPORT_MARGIN + pageYOffset win
                   else style_top n);
                adjusted = (overRight \<or> overLeft \<or> overBottom \<or> overTop)
            in if adjusted
               then (Some (n\<lparr>style_left := newLeft, style_top := newTop\<rparr>),
                     (if truthy (cssSelector noteData) \<or> truthy (xpath noteData)
                      then (case resolve (cssSelector noteData) (xpath noteData) of
                              None \<Rightarrow> []
                            | Some targetRect \<Rightarrow>
                                [(note_id noteData,
                                  OffsetFields
                                    (newLeft - (r_left targetRect + pageXOffset win))
                                    (newTop - (r_top targetRect + pageYOffset win)))])
                      else []))
               else (Some n, []))"

text \<open>All four edges of a rectangle lie in the band \<open>[margin, viewportDim - margin]\<close>.\<close>

definition in_band :: "viewport_window \<Rightarrow> client_rect \<Rightarrow> bool" where
  "in_band win r \<longleftrightarrow>
     MIN_VIEWPORT_MARGIN \<le> r_left r \<and> r_right r \<le> innerWidth win - MIN_VIEWPORT_MARGIN \<and>
     MIN_VIEWPORT_MARGIN \<le> r_top r \<and> r_bottom r \<le> innerHeight win - MIN_VIEWPORT_MARGIN"

definition band_win :: viewport_window where
  "band_win = \<lparr> innerWidth = 100, innerHeight = 100, pageXOffset = 0, pageYOffset = 0 \<rparr>"

definition wide_note :: note_element where
  "wide_note = \<lparr> in_document = True, style_left = 30, style_top = 30,
                 el_width = 80, el_height = 10 \<rparr>"

definition small_note :: note_element where
  "small_note = \<lparr> in_document = True, style_left = 95, style_top = 5,
                  el_width = 30, el_height = 10 \<rparr>"

definition free_note_data :: note_data where
  "free_note_data = \<lparr> note_id = ''n1'', cssSelector = None, xpath = None \<rparr>"

section \<open>Regular expressions\<close>

text \<open>
  The patterns of the source are written as values of \<open>regex\<close> and run by a
  backtracking matcher: \<open>rx r s\<close> lists, in the priority order of JavaScript (greedy
  quantifiers, left alternative first), every way \<open>r\<close> matches a prefix of \<open>s\<close>, each
  with its captures (in the order of the opening parentheses) and the rest of the input.
  An iteration of \<open>*\<close> that consumes nothing is not repeated.
\<close>

datatype regex =
    Class "char \<Rightarrow> bool"
  | Lit string
  | Seq regex regex
  | Alt regex regex
  | Opt regex
  | Star regex
  | Group regex

function (sequential) rx :: "regex \<Rightarrow> string \<Rightarrow> (string list \<times> string) list" where
  "rx (Class p) s = (case s of [] \<Rightarrow> [] | c # t \<Rightarrow> if p c then [([], t)] else [])"
| "rx (Lit l) s = (if prefix l s then [([], drop (length l) s)] else [])"
| "rx (Seq a b) s =
     concat (map (\<lambda>(c1, r1). map (\<lambda>(c2, r2). (c1 @ c2, r2)) (rx b r1)) (rx a s))"
| "rx (Alt a b) s = rx a s @ rx b s"
| "rx (Opt a) s = rx a s @ [([], s)]"
| "rx (Star a) s =
     concat (map (\<lambda>(c1, r1). if length r1 < length s then rx (Star a) r1 else []) (rx a s))
     @ [([], s)]"
| "rx (Group a) s = map (\<lambda>(c, r). (take (length s - length r) s # c, r)) (rx a s)"
  by pat_completeness auto
termination
  by (relation "measures [\<lambda>(r, s). size r, \<lambda>(r, s). length s]") auto

declare rx.simps [simp del]

section \<open>selection-manager.js: sanitizeColor\<close>

text \<open>Strings are sequences of code units below 256 (Latin-1).\<close>

definition is_digit :: "char \<Rightarrow> bool" where
  "is_digit c \<longleftrightarrow> 48 \<le> (of_char c :: nat) \<and> (of_char c :: nat) \<le> 57"

definition is_upper :: "char \<Rightarrow> bool" where
  "is_upper c \<longleftrightarrow> 65 \<le> (of_char c :: nat) \<and> (of_char c :: nat) \<le> 90"

definition is_lower :: "char \<Rightarrow> bool" where
  "is_lower c \<longleftrightarrow> 97 \<le> (of_char c :: nat) \<and> (of_char c :: nat) \<le> 122"

definition is_hex_digit :: "char \<Rightarrow> bool" where
  "is_hex_digit c \<longleftrightarrow> is_digit c \<or> (65 \<le> (of_char c :: nat) \<and> (of_char c :: nat) \<le> 70)
       \<or> (97 \<le> (of_char c :: nat) \<and> (of_char c :: nat) \<le> 102)"

text \<open>\<open>\s\<close>: tab, line feed, vertical tab, form feed, carriage return, space, no-break space.\<close>

definition is_space :: "char \<Rightarrow> bool" where
  "is_space c \<longleftrightarrow> (of_char c :: nat) \<in> {9, 10, 11, 12, 13, 32, 160}"

text \<open>\<open>\w\<close>.\<close>

definition is_word :: "char \<Rightarrow> bool" where
  "is_word c \<longleftrightarrow> is_digit c \<or> is_upper c \<or> is_lower c \<or> c = CHR ''_''"

text \<open>\<open>r{n}\<close> and \<open>r{1,3}\<close> (greedy).\<close>

fun times :: "nat \<Rightarrow> regex \<Rightarrow> regex" where
  "times 0 r = Lit []"
| "times (Suc 0) r = r"
| "times (Suc n) r = Seq r (times n r)"

definition rep_1_3 :: "regex \<Rightarrow> regex" where
  "rep_1_3 r = Seq r (Opt (Seq r (Opt r)))"

text \<open>
  \<open>pattern.test(s)\<close> and \<open>s.match(pattern)\<close> for a pattern of the form \<open>/^r$/\<close> without
  flags: the first alternative, in the priority order of the backtracking matcher, that
  consumes the whole string; \<open>match\<close> gives its captures.
\<close>

definition match_anchored :: "regex \<Rightarrow> string \<Rightarrow> string list option" where
  "match_anchored r s = map_option fst (find (\<lambda>(c, rest). rest = []) (rx r s))"

definition test_anchored :: "regex \<Rightarrow> string \<Rightarrow> bool" where
  "test_anchored r s \<longleftrightarrow> match_anchored r s \<noteq> None"

definition hexPattern :: regex where
  "hexPattern = Seq (Lit ''#'') (Group (Alt (times 3 (Class is_hex_digit)) (times 6 (Class is_hex_digit))))"

definition ws :: regex where
  "ws = Star (Class is_space)"

definition num3 :: regex where
  "num3 = Group (rep_1_3 (Class is_digit))"

text \<open>\<open>\s*(\d{1,3})\s*\<close> followed by \<open>k\<close>.\<close>

definition num_field :: "regex \<Rightarrow> regex" where
  "num_field k = Seq ws (Seq num3 (Seq ws k))"

definition rgbPattern :: regex where
  "rgbPattern =
     Seq (Lit ''rgb('') (num_field (Seq (Lit '','') (num_field (Seq (Lit '','')
       (num_field (Lit '')''))))))"

definition alphaPattern :: regex where
  "alphaPattern =
     Group (Seq (Opt (Class (\<lambda>c. c = CHR ''0'' \<or> c = CHR ''1'')))
             (Seq (Opt (Lit ''.'')) (Star (Class is_digit))))"

definition rgbaPattern :: regex where
  "rgbaPattern =
     Seq (Lit ''rgba('') (num_field (Seq (Lit '','') (num_field (Seq (Lit '','')
       (num_field (Seq (Lit '','') (Seq ws (Seq alphaPattern (Seq ws (Lit '')''))))))))))"

definition digit_val :: "char \<Rightarrow> nat" where
  "digit_val c = of_char c - 48"

definition decimal :: "string \<Rightarrow> nat" where
  "decimal ds = foldl (\<lambda>n c. 10 * n + digit_val c) 0 ds"

text \<open>
  \<open>parseInt\<close> on a string that starts with a digit or is empty: the value of the longest
  prefix of decimal digits, and \<open>NaN\<close> (here \<open>None\<close>) when there is none.
\<close>

definition parseInt :: "string \<Rightarrow> nat option" where
  "parseInt s = (let ds = takeWhile is_digit s in if ds = [] then None else Some (decimal ds))"

text \<open>
  \<open>parseFloat\<close> on a string of digits and dots: the mathematical value of the longest
  prefix that is a decimal literal (\<open>digits\<close>, \<open>digits.digits\<close>, \<open>digits.\<close> or
  \<open>.digits\<close>), \<open>None\<close> for \<open>NaN\<close>.
\<close>

definition parseFloat :: "string \<Rightarrow> rat option" where
  "parseFloat s =
     (let ip = takeWhile is_digit s;
          rest = dropWhile is_digit s;
          fp = (case rest of c # t \<Rightarrow> if c = CHR ''.'' then takeWhile is_digit t else [] | [] \<Rightarrow> [])
      in if ip = [] \<and> fp = [] then None
         else Some (of_nat (decimal ip) + of_nat (decimal fp) / 10 ^ length fp))"

text \<open>
  \<open>x <= 1\<close> for the Number nearest to the mathematical value \<open>v\<close>: rounding to nearest
  (ties to even) is monotone, 1 is a Number and the next Number above it is
  \<open>1 + 2\<^sup>-\<^sup>5\<^sup>2\<close>, so every value up to the midpoint \<open>1 + 2\<^sup>-\<^sup>5\<^sup>3\<close> rounds to at most 1.
  A comparison with \<open>NaN\<close> is false.
\<close>

definition number_le_1 :: "rat option \<Rightarrow> bool" where
  "number_le_1 v = (case v of None \<Rightarrow> False | Some x \<Rightarrow> x \<le> 1 + 1 / 2 ^ 53)"

definition int_le_255 :: "nat option \<Rightarrow> bool" where
  "int_le_255 v = (case v of None \<Rightarrow> False | Some n \<Rightarrow> n \<le> 255)"

text \<open>\<open>String.prototype.toLowerCase\<close> on code units below 256.\<close>

definition lower_char :: "char \<Rightarrow> char" where
  "lower_char c =
     (let n = (of_char c :: nat)
      in if (65 \<le> n \<and> n \<le> 90) \<or> (192 \<le> n \<and> n \<le> 222 \<and> n \<noteq> 215)
         then char_of (n + 32) else c)"

definition toLowerCase :: "string \<Rightarrow> string" where
  "toLowerCase s = map lower_char s"

definition namedColors :: "string list" where
  "namedColors =
     [''transparent'', ''white'', ''black'', ''red'', ''green'', ''blue'', ''yellow'', ''orange'',
      ''purple'', ''pink'', ''gray'', ''grey'', ''brown'', ''cyan'', ''magenta'', ''lime'']"

definition DEFAULT_COLOR :: string where
  "DEFAULT_COLOR = ''#fff3cd''"

datatype js_value = JSUndefined | JSNull | JSBoolean bool | JSNumber int | JSString string | JSObject

datatype js_error = TypeError

text \<open>\<open>!v\<close>.\<close>

fun js_not :: "js_value \<Rightarrow> bool" where
  "js_not JSUndefined = True"
| "js_not JSNull = True"
| "js_not (JSBoolean b) = (\<not> b)"
| "js_not (JSNumber n) = (n = 0)"
| "js_not (JSString s) = (s = [])"
| "js_not JSObject = False"

fun typeof_is_string :: "js_value \<Rightarrow> bool" where
  "typeof_is_string (JSString s) = True"
| "typeof_is_string _ = False"

text \<open>
  The string methods the sanitizer calls on \<open>color\<close>: on a value that is not a string the
  property lookup does not give a function and the call throws.
\<close>

fun js_match :: "js_value \<Rightarrow> regex \<Rightarrow> js_error + string list option" where
  "js_match (JSString s) r = Inr (match_anchored r s)"
| "js_match _ r = Inl TypeError"

fun js_toLowerCase :: "js_value \<Rightarrow> js_error + string" where
  "js_toLowerCase (JSString s) = Inr (toLowerCase s)"
| "js_toLowerCase _ = Inl TypeError"

text \<open>\<open>pattern.test(v)\<close> first converts \<open>v\<close> to a string; only strings reach it here.\<close>

fun js_test :: "regex \<Rightarrow> js_value \<Rightarrow> js_error + bool" where
  "js_test r (JSString s) = Inr (test_anchored r s)"
| "js_test r _ = Inl TypeError"

definition rgb_in_range :: "string list \<Rightarrow> bool" where
  "rgb_in_range m =
     (case m of
        [r, g, b] \<Rightarrow> int_le_255 (parseInt r) \<and> int_le_255 (parseInt g) \<and> int_le_255 (parseInt b)
      | _ \<Rightarrow> False)"

definition rgba_in_range :: "string list \<Rightarrow> bool" where
  "rgba_in_range m =
     (case m of
        [r, g, b, a] \<Rightarrow> int_le_255 (parseInt r) \<and> int_le_255 (parseInt g) \<and>
                       int_le_255 (parseInt b) \<and> number_le_1 (parseFloat a)
      | _ \<Rightarrow> False)"

definition sanitizeColor :: "js_value \<Rightarrow> js_error + string" where
  "sanitizeColor color =
     (if js_not color \<or> \<not> typeof_is_string color then Inr DEFAULT_COLOR
      else
        case js_test hexPattern color of
          Inl e \<Rightarrow> Inl e
        | Inr True \<Rightarrow> (case color of JSString s \<Rightarrow> Inr s | _ \<Rightarrow> Inl TypeError)
        | Inr False \<Rightarrow>
           (case js_match color rgbPattern of
              Inl e \<Rightarrow> Inl e
            | Inr rgbMatch \<Rightarrow>
               if (case rgbMatch of None \<Rightarrow> False | Some m \<Rightarrow> rgb_in_range m)
               then (case color of JSString s \<Rightarrow> Inr s | _ \<Rightarrow> Inl TypeError)
               else
                 (case js_match color rgbaPattern of
                    Inl e \<Rightarrow> Inl e
                  | Inr rgbaMatch \<Rightarrow>
                     if (case rgbaMatch of None \<Rightarrow> False | Some m \<Rightarrow> rgba_in_range m)
                     then (case color of JSString s \<Rightarrow> Inr s | _ \<Rightarrow> Inl TypeError)
                     else
                       (case js_toLowerCase color of
                          Inl e \<Rightarrow> Inl e
                        | Inr l \<Rightarrow> if l \<in> set namedColors then Inr l else Inr DEFAULT_COLOR))))"

definition sanitize_twice :: "js_value \<Rightarrow> js_error + string" where
  "sanitize_twice c =
     (case sanitizeColor c of Inl e \<Rightarrow> Inl e | Inr out \<Rightarrow> sanitizeColor (JSString out))"

subsection \<open>The allow list as the specification words it\<close>

definition blank :: "string \<Rightarrow> bool" where
  "blank w \<longleftrightarrow> list_all is_space w"

definition digits_1_3 :: "string \<Rightarrow> bool" where
  "digits_1_3 d \<longleftrightarrow> d \<noteq> [] \<and> length d \<le> 3 \<and> list_all is_digit d"

definition is_hex_color :: "string \<Rightarrow> bool" where
  "is_hex_color s \<longleftrightarrow>
     (case s of [] \<Rightarrow> False
      | c # ds \<Rightarrow> c = CHR ''#'' \<and> (length ds = 3 \<or> length ds = 6) \<and> list_all is_hex_digit ds)"

definition rgb_shape :: "string \<Rightarrow> string \<Rightarrow> string \<Rightarrow> string \<Rightarrow> bool" where
  "rgb_shape s r g b \<longleftrightarrow>
     (\<exists>w1 w2 w3 w4 w5 w6.
        s = ''rgb('' @ w1 @ r @ w2 @ '','' @ w3 @ g @ w4 @ '','' @ w5 @ b @ w6 @ '')'' \<and>
        blank w1 \<and> blank w2 \<and> blank w3 \<and> blank w4 \<and> blank w5 \<and> blank w6 \<and>
        digits_1_3 r \<and> digits_1_3 g \<and> digits_1_3 b)"

definition is_rgb_value :: "string \<Rightarrow> bool" where
  "is_rgb_value s \<longleftrightarrow>
     (\<exists>r g b. rgb_shape s r g b \<and> decimal r \<le> 255 \<and> decimal g \<le> 255 \<and> decimal b \<le> 255)"

definition alpha_token :: "string \<Rightarrow> bool" where
  "alpha_token a \<longleftrightarrow>
     (\<exists>p q ds. a = p @ q @ ds \<and> (p = [] \<or> p = ''0'' \<or> p = ''1'') \<and> (q = [] \<or> q = ''.'') \<and>
        list_all is_digit ds)"

definition rgba_shape :: "string \<Rightarrow> string \<Rightarrow> string \<Rightarrow> string \<Rightarrow> string \<Rightarrow> bool" where
  "rgba_shape s r g b a \<longleftrightarrow>
     (\<exists>w1 w2 w3 w4 w5 w6 w7 w8.
        s = ''rgba('' @ w1 @ r @ w2 @ '','' @ w3 @ g @ w4 @ '','' @ w5 @ b @ w6 @ '','' @
              w7 @ a @ w8 @ '')'' \<and>
        blank w1 \<and> blank w2 \<and> blank w3 \<and> blank w4 \<and> blank w5 \<and> blank w6 \<and> blank w7 \<and> blank w8 \<and>
        digits_1_3 r \<and> digits_1_3 g \<and> digits_1_3 b \<and> alpha_token a)"

definition is_rgba_value :: "string \<Rightarrow> bool" where
  "is_rgba_value s \<longleftrightarrow>
     (\<exists>r g b a. rgba_shape s r g b a \<and> decimal r \<le> 255 \<and> decimal g \<le> 255 \<and> decimal b \<le> 255 \<and>
        number_le_1 (parseFloat a))"

definition no_space :: "string \<Rightarrow> string" where
  "no_space s = filter (\<lambda>c. \<not> is_space c) s"

text \<open>
  The allow list in the words of the specification: a hex colour, an \<open>rgb()\<close> or
  \<open>rgba()\<close> value in range, or a named colour in lower case; the default otherwise.
\<close>

definition sanitize_spec :: "js_value \<Rightarrow> string" where
  "sanitize_spec v =
     (case v of
        JSString s \<Rightarrow>
          if is_hex_color s \<or> is_rgb_value s \<or> is_rgba_value s then s
          else if toLowerCase s \<in> set namedColors then toLowerCase s
          else DEFAULT_COLOR
      | _ \<Rightarrow> DEFAULT_COLOR)"

section \<open>The note editor (unnamed module): edit sessions and auto-save\<close>

text \<open>A JavaScript \<open>Map\<close>: insertion order matters, \<open>set\<close> on a present key keeps its place.\<close>

definition map_get :: "('k \<times> 'v) list \<Rightarrow> 'k \<Rightarrow> 'v option" where
  "map_get m k = map_of m k"

definition map_has :: "('k \<times> 'v) list \<Rightarrow> 'k \<Rightarrow> bool" where
  "map_has m k \<longleftrightarrow> k \<in> fst ` set m"

definition map_set :: "('k \<times> 'v) list \<Rightarrow> 'k \<Rightarrow> 'v \<Rightarrow> ('k \<times> 'v) list" where
  "map_set m k v =
     (if map_has m k then map (\<lambda>(k', v'). if k' = k then (k', v) else (k', v')) m
      else m @ [(k, v)])"

definition map_delete :: "('k \<times> 'v) list \<Rightarrow> 'k \<Rightarrow> ('k \<times> 'v) list" where
  "map_delete m k = filter (\<lambda>(k', v'). k' \<noteq> k) m"



text \<open>
  \<open>EditingState\<close> (without the double-click bookkeeping) and the timers the browser holds
  for the page: each pending auto-save timer carries the note id and the content it will
  save.  Timer ids are positive.
\<close>

record EditingState =
  currentlyEditingNote :: "nat option"
  autosaveTimeouts :: "(string \<times> nat) list"

record edit_world =
  estate :: EditingState
  pending_timers :: "(nat \<times> string \<times> string) list"
  next_timer_id :: nat

definition setTimeout :: "edit_world \<Rightarrow> string \<times> string \<Rightarrow> edit_world \<times> nat" where
  "setTimeout w job =
     (let tid = next_timer_id w
      in (w\<lparr>pending_timers := pending_timers w @ [(tid, job)], next_timer_id := Suc tid\<rparr>, tid))"

definition clearTimeout :: "edit_world \<Rightarrow> nat \<Rightarrow> edit_world" where
  "clearTimeout w tid = w\<lparr>pending_timers := filter (\<lambda>(t, job). t \<noteq> tid) (pending_timers w)\<rparr>"

text \<open>
  \<open>autoSaveNote\<close>: cancel the pending timer of the note, if any, and schedule a new one
  for \<open>AUTOSAVE_DELAY\<close> milliseconds later.
\<close>

definition autoSaveNote :: "edit_world \<Rightarrow> string \<Rightarrow> string \<Rightarrow> edit_world" where
  "autoSaveNote w noteId content =
     (let w1 = (case map_get (autosaveTimeouts (estate w)) noteId of
                  None \<Rightarrow> w
                | Some existingTimeout \<Rightarrow>
                    if existingTimeout \<noteq> 0 then clearTimeout w existingTimeout else w);
          (w2, timeoutId) = setTimeout w1 (noteId, content)
      in w2\<lparr>estate := (estate w2)\<lparr>autosaveTimeouts :=
               map_set (autosaveTimeouts (estate w2)) noteId timeoutId\<rparr>\<rparr>)"

text \<open>
  The timer callback: request the save of the content the timer was scheduled with and
  drop the note's entry from \<open>autosaveTimeouts\<close>.
\<close>

definition fire_timer :: "edit_world \<Rightarrow> nat \<Rightarrow> edit_world \<times> update_request list" where
  "fire_timer w tid =
     (case map_of (pending_timers w) tid of
        None \<Rightarrow> (w, [])
      | Some (noteId, content) \<Rightarrow>
          ((clearTimeout w tid)\<lparr>estate := (estate w)\<lparr>autosaveTimeouts :=
               map_delete (autosaveTimeouts (estate w)) noteId\<rparr>\<rparr>,
           [(noteId, ContentField content)]))"






text \<open>
  \<open>autoSaveNote\<close> clears the timer registered for a note before it schedules the next
  one, and the timer callback and the saving exit drop the entry together with the
  timer: a pending timer of a note is the one that \<open>autosaveTimeouts\<close> holds for it.
\<close>

definition timers_recorded :: "edit_world \<Rightarrow> string \<Rightarrow> bool" where
  "timers_recorded w noteId \<longleftrightarrow>
     list_all (\<lambda>(t, n, c). n = noteId \<longrightarrow> map_get (autosaveTimeouts (estate w)) noteId = Some t)
       (pending_timers w)"

section \<open>The document tree\<close>

text \<open>
  A node is a text node or an element.  An element carries an identity (the object
  reference of the source), its tag as a lower-case local name (\<open>tagName.toLowerCase()\<close>;
  two HTML elements have equal \<open>tagName\<close> exactly when these are equal), its \<open>id\<close> and
  \<open>class\<close> attributes, and its child nodes.
\<close>

datatype dom_node =
    TextNode string
  | ElementNode nat string string string "dom_node list"

text \<open>
  The text nodes below a node in document order: what a \<open>TreeWalker\<close> with
  \<open>NodeFilter.SHOW_TEXT\<close> yields.
\<close>

fun text_nodes :: "dom_node \<Rightarrow> string list" where
  "text_nodes (TextNode s) = [s]"
| "text_nodes (ElementNode n tg i c children) = concat (map text_nodes children)"

definition textContent :: "dom_node \<Rightarrow> string" where
  "textContent n = concat (text_nodes n)"

section \<open>selection-manager.js: the text-span locator\<close>

text \<open>\<open>hay.indexOf(needle)\<close>, with \<open>None\<close> for \<open>-1\<close>, and \<open>hay.includes(needle)\<close>.\<close>

fun indexOf :: "string \<Rightarrow> string \<Rightarrow> nat option" where
  "indexOf [] needle = (if needle = [] then Some 0 else None)"
| "indexOf (c # hay) needle =
     (if prefix needle (c # hay) then Some 0 else map_option Suc (indexOf hay needle))"

definition str_includes :: "string \<Rightarrow> string \<Rightarrow> bool" where
  "str_includes hay needle \<longleftrightarrow> indexOf hay needle \<noteq> None"

text \<open>
  The loop of \<open>findTextInElement\<close> over the text nodes that are left, \<open>i\<close> being the
  position of the current node in traversal order.  The result names the node by that
  position.
\<close>

fun findText_loop :: "string list \<Rightarrow> nat \<Rightarrow> string \<Rightarrow> string \<Rightarrow> string \<Rightarrow> (nat \<times> nat) option" where
  "findText_loop [] i text contextBefore contextAfter = None"
| "findText_loop (nodeText # rest) i text contextBefore contextAfter =
     (let fullContext = contextBefore @ text @ contextAfter
      in if str_includes nodeText fullContext
         then Some (i, the (indexOf nodeText fullContext) + length contextBefore)
         else if str_includes nodeText text
         then Some (i, the (indexOf nodeText text))
         else findText_loop rest (Suc i) text contextBefore contextAfter)"

definition findTextInElement :: "dom_node \<Rightarrow> string \<Rightarrow> string \<Rightarrow> string \<Rightarrow> (nat \<times> nat) option" where
  "findTextInElement element text contextBefore contextAfter =
     findText_loop (text_nodes element) 0 text contextBefore contextAfter"

text \<open>A paragraph whose first text node repeats the selected word without its context.\<close>

definition repeated_para :: dom_node where
  "repeated_para =
     ElementNode 1 ''p'' [] []
       [TextNode ''hello'', ElementNode 2 ''b'' [] [] [TextNode ''say hello today'']]"

definition plain_para :: dom_node where
  "plain_para = ElementNode 1 ''p'' [] [] [TextNode ''we say hello today, hello'']"

section \<open>dom-selectors.js: documents, selectors and the element cache\<close>

subsection \<open>Elements and their ancestors\<close>

fun node_id :: "dom_node \<Rightarrow> nat option" where
  "node_id (TextNode s) = None"
| "node_id (ElementNode n tg i c children) = Some n"

fun tag_of :: "dom_node \<Rightarrow> string" where
  "tag_of (TextNode s) = []"
| "tag_of (ElementNode n tg i c children) = tg"

fun id_of :: "dom_node \<Rightarrow> string" where
  "id_of (TextNode s) = []"
| "id_of (ElementNode n tg i c children) = i"

fun className_of :: "dom_node \<Rightarrow> string" where
  "className_of (TextNode s) = []"
| "className_of (ElementNode n tg i c children) = c"

fun childNodes :: "dom_node \<Rightarrow> dom_node list" where
  "childNodes (TextNode s) = []"
| "childNodes (ElementNode n tg i c children) = children"

fun is_element :: "dom_node \<Rightarrow> bool" where
  "is_element (TextNode s) = False"
| "is_element (ElementNode n tg i c children) = True"

text \<open>\<open>parent.children\<close>: the child elements.\<close>

definition children_of :: "dom_node \<Rightarrow> dom_node list" where
  "children_of p = filter is_element (childNodes p)"

text \<open>
  An element of a document is given together with its ancestors: the list starts with
  the element and goes up through \<open>parentElement\<close> to the root.  \<open>element_chains doc\<close> lists
  every element of the document this way, in document order; \<open>doc\<close> is
  \<open>document.documentElement\<close>.
\<close>

fun chains_from :: "dom_node list \<Rightarrow> dom_node \<Rightarrow> dom_node list list" where
  "chains_from up (TextNode s) = []"
| "chains_from up (ElementNode n tg i c children) =
     (ElementNode n tg i c children # up)
       # concat (map (chains_from (ElementNode n tg i c children # up)) children)"

definition element_chains :: "dom_node \<Rightarrow> dom_node list list" where
  "element_chains doc = chains_from [] doc"

text \<open>\<open>document.contains(element)\<close> for an element reference.\<close>

fun chain_id :: "dom_node list \<Rightarrow> nat option" where
  "chain_id [] = None"
| "chain_id (e # up) = node_id e"

definition document_contains :: "dom_node \<Rightarrow> nat \<Rightarrow> bool" where
  "document_contains doc n \<longleftrightarrow> Some n \<in> set (map chain_id (element_chains doc))"

text \<open>The parent of the first element of a chain, if it has one.\<close>

fun parent_in :: "dom_node list \<Rightarrow> dom_node option" where
  "parent_in (e # p # up) = Some p"
| "parent_in _ = None"

subsection \<open>Selectors\<close>

text \<open>
  A CSS selector of the kind the module generates is a chain of compound selectors
  joined by the child combinator; a compound selector has a tag, at most one id, class
  names and at most one \<open>:nth-child\<close> index.  An XPath of the kind it generates is \<open>//\<close>
  followed by steps \<open>tag[index]\<close>.  A stored selector can also be a string that the
  browser rejects: \<open>querySelector\<close> and \<open>evaluate\<close> throw on it.
\<close>

record compound =
  c_tag :: string
  c_id :: "string option"
  c_classes :: "string list"
  c_nth :: "nat option"

datatype css_selector = CssSelector "compound list" | CssInvalid string

datatype xpath_expr = XPathSteps "(string \<times> nat) list" | XPathInvalid string

text \<open>Decimal notation of a number, as in a template literal.\<close>

function show_nat :: "nat \<Rightarrow> string" where
  "show_nat n =
     (if n < 10 then [char_of (48 + n)]
      else show_nat (n div 10) @ [char_of (48 + n mod 10)])"
  by pat_completeness auto
termination
  by (relation "measure id") auto

declare show_nat.simps [simp del]

fun join :: "string \<Rightarrow> string list \<Rightarrow> string" where
  "join sep [] = []"
| "join sep [x] = x"
| "join sep (x # y # ys) = x @ sep @ join sep (y # ys)"

definition hex_digit_char :: "nat \<Rightarrow> char" where
  "hex_digit_char d = (if d < 10 then char_of (48 + d) else char_of (87 + d))"

definition show_hex :: "nat \<Rightarrow> string" where
  "show_hex n = (if n < 16 then [hex_digit_char n] else [hex_digit_char (n div 16), hex_digit_char (n mod 16)])"

text \<open>
  \<open>CSS.escape\<close> on code units below 256.  The browser writes U+FFFD for a NUL; here it is
  written as the CSS escape of that character (a backslash and \<open>fffd\<close>).
\<close>

fun css_escape_from :: "nat \<Rightarrow> char \<Rightarrow> string \<Rightarrow> string" where
  "css_escape_from i first [] = []"
| "css_escape_from i first (c # cs) =
     (let n = (of_char c :: nat);
          out =
            (if n = 0 then CHR 0x5C # ''fffd ''
             else if (1 \<le> n \<and> n \<le> 31) \<or> n = 127 then CHR 0x5C # show_hex n @ '' ''
             else if i = 0 \<and> is_digit c then CHR 0x5C # show_hex n @ '' ''
             else if i = 1 \<and> is_digit c \<and> first = CHR ''-'' then CHR 0x5C # show_hex n @ '' ''
             else if i = 0 \<and> c = CHR ''-'' \<and> cs = [] then [CHR 0x5C, c]
             else if n \<ge> 128 \<or> c = CHR ''-'' \<or> c = CHR ''_'' \<or> is_digit c \<or> is_upper c \<or> is_lower c
             then [c]
             else [CHR 0x5C, c])
      in out @ css_escape_from (Suc i) first cs)"

definition css_escape :: "string \<Rightarrow> string" where
  "css_escape s = (case s of [] \<Rightarrow> [] | c # cs \<Rightarrow> css_escape_from 0 c s)"

definition compound_text :: "compound \<Rightarrow> string" where
  "compound_text c =
     c_tag c
     @ (case c_id c of None \<Rightarrow> [] | Some i \<Rightarrow> ''#'' @ css_escape i)
     @ (if c_classes c = [] then [] else ''.'' @ join ''.'' (map css_escape (c_classes c)))
     @ (case c_nth c of None \<Rightarrow> [] | Some k \<Rightarrow> '':nth-child('' @ show_nat k @ '')'')"

fun css_text :: "css_selector \<Rightarrow> string" where
  "css_text (CssSelector path) = join '' > '' (map compound_text path)"
| "css_text (CssInvalid s) = s"

fun xpath_text :: "xpath_expr \<Rightarrow> string" where
  "xpath_text (XPathSteps path) =
     ''//'' @ join ''/'' (map (\<lambda>(tg, k). tg @ ''['' @ show_nat k @ '']'') path)"
| "xpath_text (XPathInvalid s) = s"

text \<open>Truthiness of a selector field, and \<open>field || ''\<close>.\<close>

definition css_truthy :: "css_selector option \<Rightarrow> bool" where
  "css_truthy c \<longleftrightarrow> (case c of None \<Rightarrow> False | Some s \<Rightarrow> css_text s \<noteq> [])"

definition xpath_truthy :: "xpath_expr option \<Rightarrow> bool" where
  "xpath_truthy x \<longleftrightarrow> (case x of None \<Rightarrow> False | Some s \<Rightarrow> xpath_text s \<noteq> [])"

subsection \<open>What the browser answers\<close>

text \<open>
  The class names of an element: its \<open>class\<close> attribute split at ASCII whitespace.
\<close>

definition html_space :: "char \<Rightarrow> bool" where
  "html_space c \<longleftrightarrow> (of_char c :: nat) \<in> {9, 10, 12, 13, 32}"

fun split_on :: "(char \<Rightarrow> bool) \<Rightarrow> string \<Rightarrow> string \<Rightarrow> string list" where
  "split_on sp cur [] = (if cur = [] then [] else [cur])"
| "split_on sp cur (c # cs) =
     (if sp c then (if cur = [] then split_on sp [] cs else cur # split_on sp [] cs)
      else split_on sp (cur @ [c]) cs)"

definition classList :: "dom_node \<Rightarrow> string list" where
  "classList e = split_on html_space [] (className_of e)"

text \<open>
  The position of an element among the child elements of its parent, counted from 1;
  the root element is the only child element of the document.
\<close>

definition same_node :: "dom_node \<Rightarrow> dom_node \<Rightarrow> bool" where
  "same_node a b \<longleftrightarrow> node_id a \<noteq> None \<and> node_id a = node_id b"

definition position_in :: "dom_node list \<Rightarrow> dom_node \<Rightarrow> nat" where
  "position_in siblings e = Suc (length (takeWhile (\<lambda>x. \<not> same_node x e) siblings))"

definition nth_child_index :: "dom_node list \<Rightarrow> nat" where
  "nth_child_index chain =
     (case chain of
        e # p # up \<Rightarrow> position_in (children_of p) e
      | _ \<Rightarrow> 1)"

definition nth_of_tag_index :: "dom_node list \<Rightarrow> nat" where
  "nth_of_tag_index chain =
     (case chain of
        e # p # up \<Rightarrow> position_in (filter (\<lambda>x. tag_of x = tag_of e) (children_of p)) e
      | _ \<Rightarrow> 1)"

definition compound_matches :: "compound \<Rightarrow> dom_node list \<Rightarrow> bool" where
  "compound_matches c chain \<longleftrightarrow>
     (case chain of
        [] \<Rightarrow> False
      | e # up \<Rightarrow>
          tag_of e = c_tag c \<and>
          (case c_id c of None \<Rightarrow> True | Some i \<Rightarrow> id_of e = i) \<and>
          list_all (\<lambda>k. k \<in> set (classList e)) (c_classes c) \<and>
          (case c_nth c of None \<Rightarrow> True | Some k \<Rightarrow> nth_child_index chain = k))"

text \<open>
  A chain of compound selectors, innermost first, against an element and its ancestors:
  the child combinator steps to the parent.
\<close>

fun css_matches_up :: "compound list \<Rightarrow> dom_node list \<Rightarrow> bool" where
  "css_matches_up [] chain = True"
| "css_matches_up (c # cs) [] = False"
| "css_matches_up (c # cs) (e # up) \<longleftrightarrow>
     compound_matches c (e # up) \<and> (cs = [] \<or> css_matches_up cs up)"

datatype dom_exception = SyntaxError

text \<open>
  The module hands a selector to the browser as a text, with the tag names written into
  it as they are (\<open>tagName.toLowerCase()\<close>, not escaped).  When every tag name in the
  text is a plain name (a lower-case letter followed by lower-case letters, digits, \<open>-\<close>
  and \<open>_\<close>) the browser reads the text as the chain it was built from.  Another tag name
  changes what the text says: \<open>x:y\<close> is read as a tag with a pseudo-class, \<open>a.b\<close> as a tag
  with a class, \<open>a.1\<close> is no selector at all.  What the browser answers to such a text
  (an element, none, or an exception) is its own business and is taken as given: its
  CSS and XPath engines are functions of the text and the document, and whatever they
  find is an element of the document.
\<close>

record browser =
  css_engine :: "string \<Rightarrow> dom_node \<Rightarrow> dom_exception + nat option"
  xpath_engine :: "string \<Rightarrow> dom_node \<Rightarrow> dom_exception + nat option"

definition plain_name :: "string \<Rightarrow> bool" where
  "plain_name tg \<longleftrightarrow>
     (case tg of
        [] \<Rightarrow> False
      | c # cs \<Rightarrow>
          is_lower c \<and>
          list_all (\<lambda>d. is_lower d \<or> is_digit d \<or> d = CHR ''-'' \<or> d = CHR ''_'') cs)"

definition attached_result ::
  "dom_node \<Rightarrow> dom_exception + nat option \<Rightarrow> dom_exception + nat option" where
  "attached_result doc answer =
     (case answer of
        Inl ex \<Rightarrow> Inl ex
      | Inr None \<Rightarrow> Inr None
      | Inr (Some n) \<Rightarrow> if document_contains doc n then Inr (Some n) else Inr None)"

text \<open>\<open>document.querySelector\<close>: the first element in document order that matches.\<close>

definition querySelector ::
  "browser \<Rightarrow> dom_node \<Rightarrow> css_selector \<Rightarrow> dom_exception + nat option" where
  "querySelector b doc sel =
     (case sel of
        CssInvalid s \<Rightarrow> Inl SyntaxError
      | CssSelector path \<Rightarrow>
          if path = [] then Inl SyntaxError
          else if list_all (\<lambda>c. plain_name (c_tag c)) path
          then Inr (case find (css_matches_up (rev path)) (element_chains doc) of
                      None \<Rightarrow> None
                    | Some chain \<Rightarrow> chain_id chain)
          else attached_result doc (css_engine b (css_text sel) doc))"

fun xpath_matches_up :: "(string \<times> nat) list \<Rightarrow> dom_node list \<Rightarrow> bool" where
  "xpath_matches_up [] chain = True"
| "xpath_matches_up (st # sts) [] = False"
| "xpath_matches_up (st # sts) (e # up) \<longleftrightarrow>
     tag_of e = fst st \<and> nth_of_tag_index (e # up) = snd st \<and>
     (sts = [] \<or> xpath_matches_up sts up)"

text \<open>
  \<open>document.evaluate(xpath, document, null, FIRST_ORDERED_NODE_TYPE, null).singleNodeValue\<close>
  for \<open>//step/.../step\<close>.
\<close>

definition xpath_evaluate ::
  "browser \<Rightarrow> dom_node \<Rightarrow> xpath_expr \<Rightarrow> dom_exception + nat option" where
  "xpath_evaluate b doc x =
     (case x of
        XPathInvalid s \<Rightarrow> Inl SyntaxError
      | XPathSteps path \<Rightarrow>
          if path = [] then Inl SyntaxError
          else if list_all (\<lambda>st. plain_name (fst st)) path
          then Inr (case find (xpath_matches_up (rev path)) (element_chains doc) of
                      None \<Rightarrow> None
                    | Some chain \<Rightarrow> chain_id chain)
          else attached_result doc (xpath_engine b (xpath_text x) doc))"

subsection \<open>validateXPath (selection-manager.js) and isValidCSSClass\<close>

text \<open>
  \<open>pattern.test(s)\<close> for a pattern without anchors: a match may start at any position.
\<close>

definition test_search :: "regex \<Rightarrow> string \<Rightarrow> bool" where
  "test_search r s \<longleftrightarrow> list_ex (\<lambda>i. rx r (drop i s) \<noteq> []) [0..<Suc (length s)]"

text \<open>
  A literal under the \<open>i\<close> flag: ASCII letters match in either case (a code unit from 128
  on is never folded onto an ASCII letter).
\<close>

definition ascii_fold :: "char \<Rightarrow> char" where
  "ascii_fold c = (if is_upper c then char_of ((of_char c :: nat) + 32) else c)"

fun lit_ci :: "string \<Rightarrow> regex" where
  "lit_ci [] = Lit []"
| "lit_ci [x] = Class (\<lambda>c. ascii_fold c = ascii_fold x)"
| "lit_ci (x # xs) = Seq (Class (\<lambda>c. ascii_fold c = ascii_fold x)) (lit_ci xs)"

definition safe_xpath_char :: "char \<Rightarrow> bool" where
  "safe_xpath_char c \<longleftrightarrow>
     is_word c \<or> is_space c \<or> is_digit c \<or>
     c \<in> set [CHR ''['', CHR '']'', CHR ''@'', CHR ''='', CHR 0x27, CHR 0x22,
               CHR ''-'', CHR ''_'', CHR ''.'', CHR ''/'', CHR ''('', CHR '')'']"

definition safeXPathPattern :: regex where
  "safeXPathPattern =
     Seq (Lit ''/'') (Seq (Opt (Lit ''/'')) (Seq (Opt (Lit ''*'')) (Star (Class safe_xpath_char))))"

definition dangerousPatterns :: "regex list" where
  "dangerousPatterns =
     [Seq (Lit ''document'') (Seq ws (Lit ''('')),
      Seq (Lit ''eval'') (Seq ws (Lit ''('')),
      Seq (Lit ''script'') (Seq ws (Lit ''('')),
      lit_ci ''javascript:'',
      lit_ci ''data:'',
      lit_ci ''<script'',
      Seq (lit_ci ''on'') (Seq (Class is_word) (Seq (Star (Class is_word)) (Seq ws (Lit ''=''))))]"

definition validateXPath :: "xpath_expr option \<Rightarrow> bool" where
  "validateXPath x \<longleftrightarrow>
     (if \<not> xpath_truthy x then False
      else let s = xpath_text (the x)
           in if \<not> test_anchored safeXPathPattern s then False
              else \<not> list_ex (\<lambda>pattern. test_search pattern s) dangerousPatterns)"

definition validClassPattern :: regex where
  "validClassPattern =
     Seq (Class (\<lambda>c. is_upper c \<or> is_lower c))
         (Star (Class (\<lambda>c. is_upper c \<or> is_lower c \<or> is_digit c \<or> c = CHR ''_'' \<or> c = CHR ''-'')))"

definition isValidCSSClass :: "string \<Rightarrow> bool" where
  "isValidCSSClass className \<longleftrightarrow>
     (if className = [] then False
      else test_anchored validClassPattern className \<and> length className \<le> 50)"

subsection \<open>Selector generation\<close>

text \<open>\<open>document.querySelectorAll('#' + CSS.escape(id)).length === 1\<close>.\<close>

definition isIdUnique :: "dom_node \<Rightarrow> string \<Rightarrow> bool" where
  "isIdUnique doc i \<longleftrightarrow>
     (if i = [] then False
      else length (filter (\<lambda>ch. case ch of [] \<Rightarrow> False | e # up \<Rightarrow> id_of e = i)
                     (element_chains doc)) = 1)"

text \<open>
  \<open>className.trim().split(/\s+/)\<close>, the valid names among them, escaped, at most three.
\<close>

definition selector_classes :: "dom_node \<Rightarrow> string list" where
  "selector_classes e = take 3 (filter isValidCSSClass (split_on is_space [] (className_of e)))"

text \<open>
  The loop of \<open>generateCSSSelector\<close>, from \<open>current\<close> upwards; \<open>path.unshift\<close> puts the
  segment of an ancestor in front.  The index written after \<open>:nth-child\<close> is the position
  among the siblings of the same tag.
\<close>

fun css_path :: "dom_node \<Rightarrow> dom_node list \<Rightarrow> compound list" where
  "css_path doc [] = []"
| "css_path doc (current # up) =
     (if same_node current doc then []
      else if id_of current \<noteq> [] \<and> isIdUnique doc (id_of current)
      then [\<lparr> c_tag = tag_of current, c_id = Some (id_of current), c_classes = [], c_nth = None \<rparr>]
      else
        css_path doc up @
        [\<lparr> c_tag = tag_of current, c_id = None,
           c_classes = selector_classes current,
           c_nth =
             (case up of
                [] \<Rightarrow> None
              | parent # _ \<Rightarrow>
                  let siblings = filter (\<lambda>el. tag_of el = tag_of current) (children_of parent)
                  in if length siblings > 1 then Some (position_in siblings current) else None) \<rparr>])"

definition generateCSSSelector :: "dom_node \<Rightarrow> dom_node list option \<Rightarrow> css_selector option" where
  "generateCSSSelector doc element =
     (case element of
        None \<Rightarrow> None
      | Some chain \<Rightarrow>
          (case chain of
             [] \<Rightarrow> None
           | e # up \<Rightarrow>
               if same_node e doc then None
               else let path = css_path doc chain
                    in if path = [] then None else Some (CssSelector path)))"

fun robust_path :: "dom_node \<Rightarrow> dom_node list \<Rightarrow> compound list" where
  "robust_path doc [] = []"
| "robust_path doc (current # up) =
     (if same_node current doc then []
      else
        robust_path doc up @
        [\<lparr> c_tag = tag_of current, c_id = None, c_classes = [],
           c_nth = (case up of
                      [] \<Rightarrow> None
                    | parent # _ \<Rightarrow> Some (position_in (children_of parent) current)) \<rparr>])"

definition generateRobustCSSSelector :: "dom_node \<Rightarrow> dom_node list option \<Rightarrow> css_selector option" where
  "generateRobustCSSSelector doc element =
     (case element of
        None \<Rightarrow> None
      | Some chain \<Rightarrow>
          let path = robust_path doc chain
          in if path = [] then None else Some (CssSelector path))"

text \<open>
  The loop of \<open>generateXPath\<close>: the index counts the preceding siblings that are elements
  of the same tag.
\<close>

fun xpath_path :: "dom_node \<Rightarrow> dom_node list \<Rightarrow> (string \<times> nat) list" where
  "xpath_path doc [] = []"
| "xpath_path doc (current # up) =
     (if same_node current doc then []
      else
        xpath_path doc up @
        [(tag_of current,
          (case up of
             [] \<Rightarrow> 1
           | parent # _ \<Rightarrow>
               Suc (length (filter (\<lambda>sib. is_element sib \<and> tag_of sib = tag_of current)
                              (takeWhile (\<lambda>x. \<not> same_node x current) (childNodes parent))))))])"

definition generateXPath :: "dom_node \<Rightarrow> dom_node list option \<Rightarrow> xpath_expr option" where
  "generateXPath doc element =
     (case element of
        None \<Rightarrow> None
      | Some chain \<Rightarrow>
          let path = xpath_path doc chain
          in if path = [] then None else Some (XPathSteps path))"

record selector_pair =
  sel_css :: "css_selector option"
  sel_xpath :: "xpath_expr option"

text \<open>
  The identity checks of \<open>generateOptimalSelector\<close>: the query gives an element and it
  is the given one.
\<close>

definition css_finds ::
  "browser \<Rightarrow> dom_node \<Rightarrow> css_selector option \<Rightarrow> dom_node list \<Rightarrow> bool" where
  "css_finds b doc css chain \<longleftrightarrow>
     css_truthy css \<and>
     (case querySelector b doc (the css) of
        Inl ex \<Rightarrow> False
      | Inr found \<Rightarrow> found \<noteq> None \<and> found = chain_id chain)"

definition xpath_finds ::
  "browser \<Rightarrow> dom_node \<Rightarrow> xpath_expr option \<Rightarrow> dom_node list \<Rightarrow> bool" where
  "xpath_finds b doc x chain \<longleftrightarrow>
     xpath_truthy x \<and> validateXPath x \<and>
     (case xpath_evaluate b doc (the x) of
        Inl ex \<Rightarrow> False
      | Inr found \<Rightarrow> found \<noteq> None \<and> found = chain_id chain)"

text \<open>A query in the outer \<open>try\<close> block: when it throws, the \<open>catch\<close> returns the null pair.\<close>

definition css_throws :: "browser \<Rightarrow> dom_node \<Rightarrow> css_selector option \<Rightarrow> bool" where
  "css_throws b doc css \<longleftrightarrow>
     css_truthy css \<and>
     (case querySelector b doc (the css) of Inl ex \<Rightarrow> True | Inr found \<Rightarrow> False)"

definition generateOptimalSelector ::
  "browser \<Rightarrow> dom_node \<Rightarrow> dom_node list option \<Rightarrow> selector_pair" where
  "generateOptimalSelector b doc element =
     (case element of
        None \<Rightarrow> \<lparr> sel_css = None, sel_xpath = None \<rparr>
      | Some chain \<Rightarrow>
          let css = generateCSSSelector doc element;
              xpath = generateXPath doc element
          in if css_throws b doc css then \<lparr> sel_css = None, sel_xpath = None \<rparr>
             else if css_finds b doc css chain then \<lparr> sel_css = css, sel_xpath = xpath \<rparr>
             else if xpath_finds b doc xpath chain then \<lparr> sel_css = None, sel_xpath = xpath \<rparr>
             else
               let robustCSS = generateRobustCSSSelector doc element
               in if css_throws b doc robustCSS then \<lparr> sel_css = None, sel_xpath = None \<rparr>
                  else if css_finds b doc robustCSS chain
                  then \<lparr> sel_css = robustCSS, sel_xpath = xpath \<rparr>
                  else \<lparr> sel_css = css, sel_xpath = xpath \<rparr>)"

subsection \<open>The element cache and the resolver\<close>

definition CACHE_SIZE_LIMIT :: nat where
  "CACHE_SIZE_LIMIT = 500"

definition cacheElement :: "(string \<times> nat) list \<Rightarrow> string \<Rightarrow> nat \<Rightarrow> (string \<times> nat) list" where
  "cacheElement elementCache key element =
     (let cache1 =
            (if length elementCache \<ge> CACHE_SIZE_LIMIT
             then foldl map_delete elementCache (take 125 (map fst elementCache))
             else elementCache)
      in map_set cache1 key element)"

definition cache_key :: "selector_pair \<Rightarrow> string" where
  "cache_key selector =
     (if css_truthy (sel_css selector) then css_text (the (sel_css selector)) else [])
     @ ''_'' @
     (if xpath_truthy (sel_xpath selector) then xpath_text (the (sel_xpath selector)) else [])"

text \<open>\<open>findElementBySelector\<close>: the element found, if any, and the cache it leaves.\<close>

definition findElementBySelector ::
  "browser \<Rightarrow> dom_node \<Rightarrow> (string \<times> nat) list \<Rightarrow> selector_pair option \<Rightarrow>
   nat option \<times> (string \<times> nat) list" where
  "findElementBySelector b doc elementCache selector =
     (case selector of
        None \<Rightarrow> (None, elementCache)
      | Some sel \<Rightarrow>
          let cacheKey = cache_key sel;
              cached = map_get elementCache cacheKey
          in if (case cached of None \<Rightarrow> False | Some el \<Rightarrow> document_contains doc el)
             then (cached, elementCache)
             else
               let cache1 = (if map_has elementCache cacheKey
                             then map_delete elementCache cacheKey else elementCache);
                   byCss = (if css_truthy (sel_css sel)
                            then (case querySelector b doc (the (sel_css sel)) of
                                    Inl ex \<Rightarrow> None | Inr found \<Rightarrow> found)
                            else None)
               in case byCss of
                    Some element \<Rightarrow> (Some element, cacheElement cache1 cacheKey element)
                  | None \<Rightarrow>
                      let byXPath = (if xpath_truthy (sel_xpath sel) \<and> validateXPath (sel_xpath sel)
                                     then (case xpath_evaluate b doc (the (sel_xpath sel)) of
                                             Inl ex \<Rightarrow> None | Inr found \<Rightarrow> found)
                                     else None)
                      in case byXPath of
                           Some element \<Rightarrow> (Some element, cacheElement cache1 cacheKey element)
                         | None \<Rightarrow> (None, cache1))"

text \<open>
  A browser as far as the examples go: of the texts with other than plain tag names it
  is asked about \<open>x:y\<close> only, and these it rejects (a CSS selector has no pseudo-class
  \<open>:y\<close>).
\<close>

definition strict_browser :: browser where
  "strict_browser =
     \<lparr> css_engine = (\<lambda>text doc. Inl SyntaxError),
       xpath_engine = (\<lambda>text doc. Inl SyntaxError) \<rparr>"

text \<open>
  A page into which another extension has put a \<open>div\<close> beside \<open>body\<close>:
  \<open>html > [head, body > [h1, p, div > [p]], div > [p]]\<close>.
\<close>

definition inner_p :: dom_node where
  "inner_p = ElementNode 7 ''p'' [] [] [TextNode ''first'']"

definition inner_div :: dom_node where
  "inner_div = ElementNode 6 ''div'' [] [] [inner_p]"

definition page_body :: dom_node where
  "page_body =
     ElementNode 3 ''body'' [] []
       [ElementNode 4 ''h1'' [] [] [TextNode ''title''], ElementNode 5 ''p'' [] [] [], inner_div]"

definition outer_p :: dom_node where
  "outer_p = ElementNode 9 ''p'' [] [] [TextNode ''second'']"

definition outer_div :: dom_node where
  "outer_div = ElementNode 8 ''div'' [] [] [outer_p]"

definition page :: dom_node where
  "page = ElementNode 1 ''html'' [] [] [ElementNode 2 ''head'' [] [] [], page_body, outer_div]"

definition outer_p_chain :: "dom_node list" where
  "outer_p_chain = [outer_p, outer_div, page]"

definition inner_p_chain :: "dom_node list" where
  "inner_p_chain = [inner_p, inner_div, page_body, page]"

definition outer_p_selector :: selector_pair where
  "outer_p_selector =
     \<lparr> sel_css = Some (CssSelector
         [\<lparr> c_tag = ''div'', c_id = None, c_classes = [], c_nth = None \<rparr>,
          \<lparr> c_tag = ''p'', c_id = None, c_classes = [], c_nth = None \<rparr>]),
       sel_xpath = Some (XPathSteps [(''div'', 1), (''p'', 1)]) \<rparr>"

definition inner_p_selector :: selector_pair where
  "inner_p_selector =
     \<lparr> sel_css = Some (CssSelector
         [\<lparr> c_tag = ''body'', c_id = None, c_classes = [], c_nth = None \<rparr>,
          \<lparr> c_tag = ''div'', c_id = None, c_classes = [], c_nth = None \<rparr>,
          \<lparr> c_tag = ''p'', c_id = None, c_classes = [], c_nth = None \<rparr>]),
       sel_xpath = Some (XPathSteps [(''body'', 1), (''div'', 1), (''p'', 1)]) \<rparr>"

text \<open>The same page after the inner \<open>div\<close> has been removed.\<close>

definition page_after_removal :: dom_node where
  "page_after_removal =
     ElementNode 1 ''html'' [] []
       [ElementNode 2 ''head'' [] [] [],
        ElementNode 3 ''body'' [] []
          [ElementNode 4 ''h1'' [] [] [TextNode ''title''], ElementNode 5 ''p'' [] [] []],
        outer_div]"

text \<open>A page with a paragraph inside an element with the tag \<open>x:y\<close>.\<close>

definition prefixed_p :: dom_node where
  "prefixed_p = ElementNode 5 ''p'' [] [] [TextNode ''text'']"

definition prefixed_el :: dom_node where
  "prefixed_el = ElementNode 4 ''x:y'' [] [] [prefixed_p]"

definition prefixed_body :: dom_node where
  "prefixed_body = ElementNode 3 ''body'' [] [] [prefixed_el]"

definition prefixed_page :: dom_node where
  "prefixed_page = ElementNode 1 ''html'' [] [] [ElementNode 2 ''head'' [] [] [], prefixed_body]"

definition prefixed_p_chain :: "dom_node list" where
  "prefixed_p_chain = [prefixed_p, prefixed_el, prefixed_body, prefixed_page]"

definition stale_cache :: "(string \<times> nat) list" where
  "stale_cache = [(''div > p_//div[1]/p[1]'', 7)]"

definition crossed_cache :: "(string \<times> nat) list" where
  "crossed_cache = [(''body > div > p_//body[1]/div[1]/p[1]'', 9)]"

section \<open>note-dragging.js: the drag controller\<close>

text \<open>
  Page elements as the drag controller sees them: an identity, the tag name, whether the
  element is a note or lies inside one (\<open>classList.contains('web-notes-note') ||
  closest('.web-notes-note')\<close>), the same for highlights, and the client rectangle.
\<close>

record page_element =
  pe_id :: nat
  pe_tagName :: string
  pe_in_note :: bool
  pe_in_highlight :: bool
  pe_rect :: client_rect

text \<open>
  The browser services the controller calls: hit testing (with the dragged note hidden, as
  \<open>getElementUnderCursor\<close> arranges; it gives elements of the document), scrolling, the
  selector engines that \<open>generateOptimalSelector\<close> queries, and the answer of the external
  store to \<open>updateNote\<close>.
\<close>

record drag_platform =
  elementFromPoint :: "int \<Rightarrow> int \<Rightarrow> page_element option"
  elementsFromPoint :: "real \<Rightarrow> real \<Rightarrow> page_element list"
  scrollBy :: "viewport_window \<Rightarrow> int \<Rightarrow> int \<Rightarrow> viewport_window"
  page_browser :: browser
  storeAccepts :: "update_request \<Rightarrow> bool"

record mouse_event =
  clientX :: int
  clientY :: int

record DraggingState =
  isDragging :: bool
  draggedNote :: "note_element option"
  draggedNoteData :: "note_data option"
  targetElement :: "page_element option"
  initialMousePos :: "int \<times> int"
  initialNotePos :: "int \<times> int"
  dragOffsetX :: int
  dragOffsetY :: int

text \<open>
  What the handlers touch besides \<open>DraggingState\<close>: the window (scroll offsets), the
  global mouse listeners, the dragging styles on the note, the element marked as drop
  target and the document, in which that element carries the class \<open>note-drop-target\<close>,
  the \<open>data-css-selector\<close>/\<open>data-xpath\<close> attributes of the note and the pending
  visibility check.
\<close>

record drag_world =
  dstate :: DraggingState
  dwin :: viewport_window
  listening :: bool
  drag_effects :: bool
  dropTarget :: "nat option"
  page_document :: dom_node
  dataset_anchor :: "(string \<times> string) option"
  visibility_check_pending :: bool

text \<open>
  \<open>classList.remove(token)\<close> and \<open>classList.add(token)\<close>: the class attribute becomes the
  tokens, each once and in their order, joined by single spaces.
\<close>

definition ordered_set :: "string list \<Rightarrow> string list" where
  "ordered_set ts = foldl (\<lambda>acc t. if t \<in> set acc then acc else acc @ [t]) [] ts"

definition classList_remove :: "string \<Rightarrow> string \<Rightarrow> string" where
  "classList_remove token className =
     join '' '' (filter (\<lambda>t. t \<noteq> token) (ordered_set (split_on html_space [] className)))"

definition classList_add :: "string \<Rightarrow> string \<Rightarrow> string" where
  "classList_add token className =
     (let ts = ordered_set (split_on html_space [] className)
      in join '' '' (if token \<in> set ts then ts else ts @ [token]))"

text \<open>
  \<open>document.querySelectorAll('.note-drop-target').forEach(el =>
  el.classList.remove('note-drop-target'))\<close>, and \<open>classList.add('note-drop-target')\<close>
  on one element.
\<close>

fun remove_drop_target_class :: "dom_node \<Rightarrow> dom_node" where
  "remove_drop_target_class (TextNode s) = TextNode s"
| "remove_drop_target_class (ElementNode n tg i c children) =
     ElementNode n tg i
       (if ''note-drop-target'' \<in> set (split_on html_space [] c)
        then classList_remove ''note-drop-target'' c else c)
       (map remove_drop_target_class children)"

fun add_drop_target_class :: "nat \<Rightarrow> dom_node \<Rightarrow> dom_node" where
  "add_drop_target_class t (TextNode s) = TextNode s"
| "add_drop_target_class t (ElementNode n tg i c children) =
     ElementNode n tg i (if n = t then classList_add ''note-drop-target'' c else c)
       (map (add_drop_target_class t) children)"

definition DRAG_THRESHOLD :: real where
  "DRAG_THRESHOLD = 5"

definition SCROLL_ZONE_SIZE :: int where
  "SCROLL_ZONE_SIZE = 50"

definition SCROLL_SPEED :: int where
  "SCROLL_SPEED = 5"

definition startDrag ::
  "drag_world \<Rightarrow> mouse_event \<Rightarrow> note_element \<Rightarrow> note_data \<Rightarrow> page_element option \<Rightarrow> drag_world" where
  "startDrag w event noteElement noteData target =
     (let noteRect = getBoundingClientRect (dwin w) noteElement
      in w\<lparr> dstate :=
               \<lparr> isDragging = False,
                 draggedNote = Some noteElement,
                 draggedNoteData = Some noteData,
                 targetElement = target,
                 initialMousePos = (clientX event, clientY event),
                 initialNotePos = (r_left noteRect + pageXOffset (dwin w),
                                   r_top noteRect + pageYOffset (dwin w)),
                 dragOffsetX = clientX event - r_left noteRect,
                 dragOffsetY = clientY event - r_top noteRect \<rparr>,
             listening := True \<rparr>)"

text \<open>\<open>Math.sqrt(deltaX * deltaX + deltaY * deltaY)\<close>.\<close>

definition pointer_distance :: "DraggingState \<Rightarrow> mouse_event \<Rightarrow> real" where
  "pointer_distance s event =
     (let deltaX = clientX event - fst (initialMousePos s);
          deltaY = clientY event - snd (initialMousePos s)
      in sqrt (real_of_int (deltaX * deltaX + deltaY * deltaY)))"

definition canAnchorToElement :: "page_element option \<Rightarrow> bool" where
  "canAnchorToElement element =
     (case element of
        None \<Rightarrow> False
      | Some e \<Rightarrow>
          if pe_in_note e \<or> pe_in_highlight e then False
          else if r_width (pe_rect e) < 10 \<or> r_height (pe_rect e) < 10 then False
          else pe_tagName e \<in> set [''P'', ''H1'', ''H2'', ''H3'', ''H4'', ''H5'', ''H6'',
                                    ''LI'', ''DIV'', ''SECTION'', ''ARTICLE''])"

definition handleAutoScroll :: "drag_platform \<Rightarrow> drag_world \<Rightarrow> mouse_event \<Rightarrow> drag_world" where
  "handleAutoScroll plat w event =
     (let scrollX = (if clientX event < SCROLL_ZONE_SIZE then - SCROLL_SPEED
                     else if clientX event > innerWidth (dwin w) - SCROLL_ZONE_SIZE then SCROLL_SPEED
                     else 0);
          scrollY = (if clientY event < SCROLL_ZONE_SIZE then - SCROLL_SPEED
                     else if clientY event > innerHeight (dwin w) - SCROLL_ZONE_SIZE then SCROLL_SPEED
                     else 0)
      in if scrollX \<noteq> 0 \<or> scrollY \<noteq> 0
         then (let w1 = w\<lparr>dwin := scrollBy plat (dwin w) scrollX scrollY\<rparr>
               in case draggedNote (dstate w1) of
                    None \<Rightarrow> w1
                  | Some n \<Rightarrow>
                      w1\<lparr>dstate := (dstate w1)\<lparr>draggedNote :=
                            Some (n\<lparr>style_left := style_left n + scrollX,
                                    style_top := style_top n + scrollY\<rparr>)\<rparr>\<rparr>)
         else w)"

definition updateDropTargetHighlight :: "drag_platform \<Rightarrow> drag_world \<Rightarrow> mouse_event \<Rightarrow> drag_world" where
  "updateDropTargetHighlight plat w event =
     (let cleared = remove_drop_target_class (page_document w);
          elementUnderCursor = elementFromPoint plat (clientX event) (clientY event)
      in case elementUnderCursor of
           Some e \<Rightarrow>
             if canAnchorToElement elementUnderCursor
             then w\<lparr>dropTarget := Some (pe_id e),
                    page_document := add_drop_target_class (pe_id e) cleared\<rparr>
             else w\<lparr>dropTarget := None, page_document := cleared\<rparr>
         | None \<Rightarrow> w\<lparr>dropTarget := None, page_document := cleared\<rparr>)"

definition handleMouseMove :: "drag_platform \<Rightarrow> drag_world \<Rightarrow> mouse_event \<Rightarrow> drag_world" where
  "handleMouseMove plat w event =
     (case draggedNote (dstate w) of
        None \<Rightarrow> w
      | Some n \<Rightarrow>
          let deltaX = clientX event - fst (initialMousePos (dstate w));
              deltaY = clientY event - snd (initialMousePos (dstate w))
          in if \<not> isDragging (dstate w) \<and> \<not> pointer_distance (dstate w) event > DRAG_THRESHOLD
             then w
             else
               let newX = fst (initialNotePos (dstate w)) + deltaX;
                   newY = snd (initialNotePos (dstate w)) + deltaY;
                   w1 = w\<lparr>dstate := (dstate w)\<lparr>isDragging := True,
                            draggedNote := Some (n\<lparr>style_left := newX, style_top := newY\<rparr>)\<rparr>,
                          drag_effects := True\<rparr>
               in updateDropTargetHighlight plat (handleAutoScroll plat w1 event) event)"












text \<open>
  Concrete data for the drag examples: a free-floating note, a paragraph of \<open>400 \<times> 60\<close>
  pixels that lies under every point, a browser that rejects \<open>x:y\<close>, and three pages in
  which that paragraph is node 5.
\<close>

definition floating_note :: note_element where
  "floating_note = \<lparr> in_document = True, style_left = 100, style_top = 100,
                     el_width = 200, el_height = 100 \<rparr>"

definition para_el :: page_element where
  "para_el = \<lparr> pe_id = 5, pe_tagName = ''P'', pe_in_note = False, pe_in_highlight = False,
                 pe_rect = \<lparr> r_left = 300, r_top = 300, r_width = 400, r_height = 60 \<rparr> \<rparr>"

definition down_at :: mouse_event where
  "down_at = \<lparr> clientX = 110, clientY = 110 \<rparr>"

definition move_3_4 :: mouse_event where
  "move_3_4 = \<lparr> clientX = 113, clientY = 114 \<rparr>"

definition move_far :: mouse_event where
  "move_far = \<lparr> clientX = 320, clientY = 330 \<rparr>"


definition page_platform :: drag_platform where
  "page_platform =
     \<lparr> elementFromPoint = (\<lambda>x y. Some para_el),
       elementsFromPoint = (\<lambda>x y. [para_el]),
       scrollBy = (\<lambda>win dx dy. win),
       page_browser = strict_browser,
       storeAccepts = (\<lambda>r. True) \<rparr>"

text \<open>The same, with a store that rejects every update.\<close>

definition failing_platform :: drag_platform where
  "failing_platform = page_platform\<lparr>storeAccepts := (\<lambda>r. False)\<rparr>"



text \<open>An idle controller on a page, and the drag of the note over the paragraph.\<close>

definition idle_on :: "dom_node \<Rightarrow> drag_world" where
  "idle_on doc =
     \<lparr> dstate = \<lparr> isDragging = False, draggedNote = None, draggedNoteData = None,
                  targetElement = None, initialMousePos = (0, 0), initialNotePos = (0, 0),
                  dragOffsetX = 0, dragOffsetY = 0 \<rparr>,
       dwin = \<lparr> innerWidth = 1000, innerHeight = 800, pageXOffset = 0, pageYOffset = 0 \<rparr>,
       listening = False, drag_effects = False, dropTarget = None, page_document = doc,
       dataset_anchor = None, visibility_check_pending = False \<rparr>"

definition idle_world :: drag_world where
  "idle_world = idle_on prefixed_page"

definition armed_world :: drag_world where
  "armed_world = startDrag idle_world down_at floating_note free_note_data None"



section \<open>selection-manager.js: text highlights\<close>

definition HIGHLIGHT_CLASS :: string where
  "HIGHLIGHT_CLASS = ''web-notes-highlight''"

definition MAX_HIGHLIGHTS :: nat where
  "MAX_HIGHLIGHTS = 1000"

text \<open>
  What \<open>createTextHighlight\<close> reads of a note: its id and, of its \<open>selectionData\<close>, the
  text, the two contexts and the target element.  An element is named by its identity;
  \<open>None\<close> stands for a missing field.
\<close>

record selection_data =
  sd_text :: string
  sd_contextBefore :: string
  sd_contextAfter :: string
  sd_targetElement :: "nat option"

record highlight_note =
  hn_id :: string
  hn_selectionData :: "selection_data option"

text \<open>The entries of \<open>noteHighlights\<close>: \<open>{ element, targetElement, originalText }\<close>.\<close>

record highlight_record =
  hl_element :: nat
  hl_targetElement :: nat
  hl_originalText :: string

text \<open>
  The state the highlight functions work on: the document, the map \<open>noteHighlights\<close>
  and the identity the next created element gets.  The inline style of a highlight span
  is not part of the tree.
\<close>

record highlight_world =
  hw_document :: dom_node
  noteHighlights :: "(string \<times> highlight_record) list"
  hw_next_id :: nat

text \<open>The elements below and including a node, in document order.\<close>

fun subtrees :: "dom_node \<Rightarrow> dom_node list" where
  "subtrees (TextNode s) = []"
| "subtrees (ElementNode n tg i c children) =
     ElementNode n tg i c children # concat (map subtrees children)"

definition subtree_of :: "nat \<Rightarrow> dom_node \<Rightarrow> dom_node option" where
  "subtree_of t doc = find (\<lambda>e. node_id e = Some t) (subtrees doc)"

text \<open>Apply a change to the element with a given identity.\<close>

fun update_element :: "nat \<Rightarrow> (dom_node \<Rightarrow> dom_node) \<Rightarrow> dom_node \<Rightarrow> dom_node" where
  "update_element t g (TextNode s) = TextNode s"
| "update_element t g (ElementNode n tg i c children) =
     (if n = t then g (ElementNode n tg i c children)
      else ElementNode n tg i c (map (update_element t g) children))"

text \<open>
  Replace the \<open>k\<close>-th text node (in document order) of a list of sibling nodes and their
  descendants by the nodes \<open>f\<close> makes of its text.
\<close>

fun splice_nodes :: "nat \<Rightarrow> (string \<Rightarrow> dom_node list) \<Rightarrow> dom_node list \<Rightarrow> dom_node list" where
  "splice_nodes k f [] = []"
| "splice_nodes k f (TextNode s # rest) =
     (if k = 0 then f s @ rest else TextNode s # splice_nodes (k - 1) f rest)"
| "splice_nodes k f (ElementNode n tg i c children # rest) =
     (let m = length (concat (map text_nodes children))
      in if k < m then ElementNode n tg i c (splice_nodes k f children) # rest
         else ElementNode n tg i c children # splice_nodes (k - m) f rest)"

fun splice_in :: "nat \<Rightarrow> (string \<Rightarrow> dom_node list) \<Rightarrow> dom_node \<Rightarrow> dom_node" where
  "splice_in k f (TextNode s) = TextNode s"
| "splice_in k f (ElementNode n tg i c children) = ElementNode n tg i c (splice_nodes k f children)"

text \<open>
  What \<open>range.extractContents()\<close>, \<open>range.insertNode(highlight)\<close> and
  \<open>highlight.appendChild(extractedContent)\<close> leave in place of a text node with data \<open>d\<close>
  when the range is \<open>[offset, offset + len)\<close> inside it: the text before, the span around
  the extracted text, and the text after (the split leaves a text node even when it is
  empty).
\<close>

definition highlight_fragment :: "nat \<Rightarrow> nat \<Rightarrow> nat \<Rightarrow> string \<Rightarrow> dom_node list" where
  "highlight_fragment highlight offset len d =
     [TextNode (take offset d),
      ElementNode highlight ''span'' [] HIGHLIGHT_CLASS [TextNode (take len (drop offset d))],
      TextNode (drop (offset + len) d)]"

text \<open>\<open>Node.normalize()\<close>: empty text nodes go, adjacent text nodes are merged.\<close>

fun merge_text :: "dom_node list \<Rightarrow> dom_node list" where
  "merge_text [] = []"
| "merge_text (TextNode a # rest) =
     (case merge_text rest of
        TextNode b # r \<Rightarrow> TextNode (a @ b) # r
      | r \<Rightarrow> if a = [] then r else TextNode a # r)"
| "merge_text (ElementNode n tg i c children # rest) =
     ElementNode n tg i c children # merge_text rest"

fun normalize :: "dom_node \<Rightarrow> dom_node" where
  "normalize (TextNode s) = TextNode s"
| "normalize (ElementNode n tg i c children) =
     ElementNode n tg i c (merge_text (map normalize children))"

text \<open>
  \<open>element.parentNode.replaceChild(textNode, element)\<close> followed by
  \<open>textNode.parentNode.normalize()\<close>, for the element with identity \<open>w\<close>.  An element that
  is not in the document is replaced in a tree of its own, which leaves the document as
  it is.
\<close>

fun unwrap :: "nat \<Rightarrow> dom_node \<Rightarrow> dom_node" where
  "unwrap w (TextNode s) = TextNode s"
| "unwrap w (ElementNode n tg i c children) =
     (if list_ex (\<lambda>ch. node_id ch = Some w) children
      then normalize (ElementNode n tg i c
             (map (\<lambda>ch. if node_id ch = Some w then TextNode (textContent ch) else ch) children))
      else ElementNode n tg i c (map (unwrap w) children))"

text \<open>
  \<open>removeTextHighlight(noteId)\<close>: \<open>false\<close> when nothing is recorded for the note;
  otherwise the recorded span, when it has a parent, is replaced by its text, the entry
  is deleted and the result is \<open>true\<close>.
\<close>

definition removeTextHighlight :: "highlight_world \<Rightarrow> string \<Rightarrow> bool \<times> highlight_world" where
  "removeTextHighlight w noteId =
     (case map_get (noteHighlights w) noteId of
        None \<Rightarrow> (False, w)
      | Some highlightData \<Rightarrow>
          (True, w\<lparr> hw_document := unwrap (hl_element highlightData) (hw_document w),
                    noteHighlights := map_delete (noteHighlights w) noteId \<rparr>))"

text \<open>
  \<open>cleanupHighlights()\<close>: with more than \<open>MAX_HIGHLIGHTS\<close> entries, the excess is removed
  from the front of the entries, in insertion order.
\<close>

definition cleanupHighlights :: "highlight_world \<Rightarrow> highlight_world" where
  "cleanupHighlights w =
     (if length (noteHighlights w) > MAX_HIGHLIGHTS
      then let excessCount = length (noteHighlights w) - MAX_HIGHLIGHTS
           in foldl (\<lambda>w' noteId. snd (removeTextHighlight w' noteId)) w
                (map fst (take excessCount (noteHighlights w)))
      else w)"

text \<open>\<open>findTextOffset\<close>, with \<open>None\<close> for \<open>-1\<close>.\<close>

definition findTextOffset :: "string \<Rightarrow> string \<Rightarrow> string \<Rightarrow> nat option" where
  "findTextOffset nodeText text contextBefore =
     (if contextBefore \<noteq> []
      then (case indexOf nodeText (contextBefore @ text) of
              Some contextIndex \<Rightarrow> Some (contextIndex + length contextBefore)
            | None \<Rightarrow> indexOf nodeText text)
      else indexOf nodeText text)"

text \<open>
  \<open>createHighlightSpan\<close> makes a span with the class \<open>HIGHLIGHT_CLASS\<close> and an inline
  style whose background is \<open>sanitizeColor(backgroundColor)\<close>.  The span is named by its
  identity; the result here is that colour.
\<close>

definition createHighlightSpan :: "js_value \<Rightarrow> js_error + string" where
  "createHighlightSpan backgroundColor = sanitizeColor backgroundColor"

text \<open>
  \<open>createTextHighlight(noteData, backgroundColor)\<close>.  The text node the locator returns
  is the \<open>k\<close>-th text node of the target element, so the branch for a missing one is
  never taken; the range lies inside that node, because the offset comes from
  \<open>indexOf\<close>.  An exception is caught and gives \<open>false\<close>.
\<close>

fun nth_option :: "'a list \<Rightarrow> nat \<Rightarrow> 'a option" where
  "nth_option [] k = None"
| "nth_option (x # xs) 0 = Some x"
| "nth_option (x # xs) (Suc k) = nth_option xs k"

definition createTextHighlight ::
  "highlight_world \<Rightarrow> highlight_note \<Rightarrow> js_value \<Rightarrow> bool \<times> highlight_world" where
  "createTextHighlight w noteData backgroundColor =
     (case hn_selectionData noteData of
        None \<Rightarrow> (False, w)
      | Some selectionData \<Rightarrow>
          if sd_text selectionData = [] then (False, w)
          else
            let w1 = snd (removeTextHighlight w (hn_id noteData))
            in case sd_targetElement selectionData of
                 None \<Rightarrow> (False, w1)
               | Some t \<Rightarrow>
                   (case subtree_of t (hw_document w1) of
                      None \<Rightarrow> (False, w1)
                    | Some target \<Rightarrow>
                        (case findTextInElement target (sd_text selectionData)
                                (sd_contextBefore selectionData) (sd_contextAfter selectionData) of
                           None \<Rightarrow> (False, w1)
                         | Some (k, position) \<Rightarrow>
                             let highlight = hw_next_id w1;
                                 w2 = w1\<lparr>hw_next_id := Suc highlight\<rparr>
                             in case createHighlightSpan
                                       (case backgroundColor of
                                          JSUndefined \<Rightarrow> JSString ''#fff3cd''
                                        | _ \<Rightarrow> backgroundColor) of
                                  Inl error \<Rightarrow> (False, w2)
                                | Inr style \<Rightarrow>
                                   (case nth_option (text_nodes target) k of
                                      None \<Rightarrow> (False, w2)
                                    | Some nodeText \<Rightarrow>
                                        (case findTextOffset nodeText (sd_text selectionData)
                                                (sd_contextBefore selectionData) of
                                           None \<Rightarrow> (False, w2)
                                         | Some textOffset \<Rightarrow>
                                             (True, cleanupHighlights
                                                (w2\<lparr> hw_document :=
                                                        update_element t
                                                          (splice_in k
                                                             (highlight_fragment highlight textOffset
                                                                (length (sd_text selectionData))))
                                                          (hw_document w2),
                                                      noteHighlights :=
                                                        map_set (noteHighlights w2) (hn_id noteData)
                                                          \<lparr> hl_element = highlight,
                                                            hl_targetElement = t,
                                                            hl_originalText =
                                                              sd_text selectionData \<rparr> \<rparr>)))))))"

text \<open>
  The identities of the elements of a tree and of its highlight spans, in document order,
  and the text content of every element.
\<close>

fun element_ids :: "dom_node \<Rightarrow> nat list" where
  "element_ids (TextNode s) = []"
| "element_ids (ElementNode n tg i c children) = n # concat (map element_ids children)"

fun highlight_spans :: "dom_node \<Rightarrow> nat list" where
  "highlight_spans (TextNode s) = []"
| "highlight_spans (ElementNode n tg i c children) =
     (if c = HIGHLIGHT_CLASS then [n] else []) @ concat (map highlight_spans children)"

fun element_texts :: "dom_node \<Rightarrow> (nat \<times> string) list" where
  "element_texts (TextNode s) = []"
| "element_texts (ElementNode n tg i c children) =
     (n, textContent (ElementNode n tg i c children)) # concat (map element_texts children)"

definition textContent_of :: "dom_node \<Rightarrow> nat \<Rightarrow> string option" where
  "textContent_of doc t = map_option textContent (subtree_of t doc)"

text \<open>
  Elements are told apart by their identity: the identities in the document are distinct,
  the next created element gets one that no element of the document has, and
  \<open>noteHighlights\<close>, a \<open>Map\<close>, has one entry for a key.
\<close>

definition well_formed :: "highlight_world \<Rightarrow> bool" where
  "well_formed w \<longleftrightarrow>
     distinct (element_ids (hw_document w)) \<and>
     (\<forall>n\<in>set (element_ids (hw_document w)). n < hw_next_id w) \<and>
     distinct (map fst (noteHighlights w))"

text \<open>
  The elements that \<open>noteHighlights\<close> records, the live highlights of a note (the
  highlight spans in the document that are recorded for it) and the highlight spans in
  the document that are recorded for no note.
\<close>

definition recorded_elements :: "highlight_world \<Rightarrow> nat list" where
  "recorded_elements w = map (\<lambda>entry. hl_element (snd entry)) (noteHighlights w)"

definition live_highlights :: "highlight_world \<Rightarrow> string \<Rightarrow> nat list" where
  "live_highlights w noteId =
     (case map_get (noteHighlights w) noteId of
        None \<Rightarrow> []
      | Some highlightData \<Rightarrow>
          filter (\<lambda>h. h = hl_element highlightData) (highlight_spans (hw_document w)))"

definition untracked_highlights :: "highlight_world \<Rightarrow> nat list" where
  "untracked_highlights w =
     filter (\<lambda>h. h \<notin> set (recorded_elements w)) (highlight_spans (hw_document w))"

text \<open>
  Every highlight span in the document is recorded, no element is recorded for two
  notes, the recorded elements were created before, and the document element is not
  itself a highlight span.
\<close>

definition highlights_tracked :: "highlight_world \<Rightarrow> bool" where
  "highlights_tracked w \<longleftrightarrow>
     untracked_highlights w = [] \<and>
     distinct (recorded_elements w) \<and>
     list_all (\<lambda>h. h < hw_next_id w) (recorded_elements w) \<and>
     className_of (hw_document w) \<noteq> HIGHLIGHT_CLASS"

text \<open>
  A normalized tree, as \<open>Node.normalize()\<close> leaves one: no element has an empty text
  node or two adjacent text nodes among its children.
\<close>

fun is_text :: "dom_node \<Rightarrow> bool" where
  "is_text (TextNode s) = True"
| "is_text (ElementNode n tg i c children) = False"

fun adjacent_text :: "dom_node list \<Rightarrow> bool" where
  "adjacent_text [] = False"
| "adjacent_text [x] = False"
| "adjacent_text (x # y # rest) = (is_text x \<and> is_text y \<or> adjacent_text (y # rest))"

fun normalized :: "dom_node \<Rightarrow> bool" where
  "normalized (TextNode s) = True"
| "normalized (ElementNode n tg i c children) =
     (TextNode [] \<notin> set children \<and> \<not> adjacent_text children \<and> list_all normalized children)"

text \<open>A sequence of calls of the two functions.\<close>

datatype highlight_call =
    CreateTextHighlight highlight_note js_value
  | RemoveTextHighlight string

fun apply_call :: "highlight_world \<Rightarrow> highlight_call \<Rightarrow> highlight_world" where
  "apply_call w (CreateTextHighlight noteData backgroundColor) =
     snd (createTextHighlight w noteData backgroundColor)"
| "apply_call w (RemoveTextHighlight noteId) = snd (removeTextHighlight w noteId)"

definition highlight_calls :: "highlight_world \<Rightarrow> highlight_call list \<Rightarrow> highlight_world" where
  "highlight_calls w cs = foldl apply_call w cs"

text \<open>The note a call is about.\<close>

fun call_note :: "highlight_call \<Rightarrow> string" where
  "call_note (CreateTextHighlight noteData backgroundColor) = hn_id noteData"
| "call_note (RemoveTextHighlight noteId) = noteId"

text \<open>End-to-end scenario 2 of the specification.\<close>

definition hello_page :: dom_node where
  "hello_page =
     ElementNode 1 ''html'' [] []
       [ElementNode 2 ''body'' [] []
          [ElementNode 3 ''p'' [] [] [TextNode ''say hello world today'']]]"

definition hello_world0 :: highlight_world where
  "hello_world0 = \<lparr> hw_document = hello_page, noteHighlights = [], hw_next_id = 4 \<rparr>"

definition hello_note :: highlight_note where
  "hello_note =
     \<lparr> hn_id = ''n1'',
       hn_selectionData = Some \<lparr> sd_text = ''hello world'', sd_contextBefore = ''say '',
                                 sd_contextAfter = '' today'', sd_targetElement = Some 3 \<rparr> \<rparr>"

text \<open>The state after the first highlight, and three calls in a row.\<close>

definition hello_world1 :: highlight_world where
  "hello_world1 =
     \<lparr> hw_document =
         ElementNode 1 ''html'' [] []
           [ElementNode 2 ''body'' [] []
              [ElementNode 3 ''p'' [] []
                 [TextNode ''say '',
                  ElementNode 4 ''span'' [] ''web-notes-highlight'' [TextNode ''hello world''],
                  TextNode '' today'']]],
       noteHighlights =
         [(''n1'', \<lparr> hl_element = 4, hl_targetElement = 3, hl_originalText = ''hello world'' \<rparr>)],
       hw_next_id = 5 \<rparr>"

definition hello_calls :: "highlight_call list" where
  "hello_calls =
     [CreateTextHighlight hello_note (JSString ''yellow''),
      CreateTextHighlight hello_note JSNull,
      RemoveTextHighlight ''n1'']"

text \<open>
  A page with many notes.  The highlights of 999 notes are tracked whose spans the page
  has dropped since; the oldest tracked highlight is a span around \<open>hello world\<close> that is
  in the document.  A new note is made on a selection inside that span, which is its
  target element.
\<close>

definition other_highlights :: "(string \<times> highlight_record) list" where
  "other_highlights =
     map (\<lambda>i. (replicate (Suc i) CHR ''x'',
               \<lparr> hl_element = 5 + i, hl_targetElement = 3, hl_originalText = ''y'' \<rparr>))
       [0..<999]"

definition crowded_page :: dom_node where
  "crowded_page =
     ElementNode 1 ''html'' [] []
       [ElementNode 2 ''body'' [] []
          [ElementNode 3 ''p'' [] []
             [ElementNode 4 ''span'' [] ''web-notes-highlight'' [TextNode ''hello world'']]]]"

definition cleared_page :: dom_node where
  "cleared_page =
     ElementNode 1 ''html'' [] []
       [ElementNode 2 ''body'' [] [] [ElementNode 3 ''p'' [] [] [TextNode ''hello world'']]]"

definition crowded_world :: highlight_world where
  "crowded_world =
     \<lparr> hw_document = crowded_page,
       noteHighlights =
         (''a'', \<lparr> hl_element = 4, hl_targetElement = 3, hl_originalText = ''hello world'' \<rparr>)
           # other_highlights,
       hw_next_id = 1004 \<rparr>"

definition inner_note :: highlight_note where
  "inner_note =
     \<lparr> hn_id = ''n1'',
       hn_selectionData = Some \<lparr> sd_text = ''hello'', sd_contextBefore = [],
                                 sd_contextAfter = '' world'', sd_targetElement = Some 4 \<rparr> \<rparr>"

definition crowded_world1 :: highlight_world where
  "crowded_world1 =
     \<lparr> hw_document = cleared_page,
       noteHighlights =
         other_highlights
           @ [(''n1'', \<lparr> hl_element = 1004, hl_targetElement = 4, hl_originalText = ''hello'' \<rparr>)],
       hw_next_id = 1005 \<rparr>"

definition crowded_world2 :: highlight_world where
  "crowded_world2 =
     \<lparr> hw_document = cleared_page, noteHighlights = other_highlights, hw_next_id = 1005 \<rparr>"

text \<open>A note on a text that its target element does not contain.\<close>

definition absent_note :: highlight_note where
  "absent_note =
     \<lparr> hn_id = ''n2'',
       hn_selectionData = Some \<lparr> sd_text = ''goodbye'', sd_contextBefore = [],
                                 sd_contextAfter = [], sd_targetElement = Some 3 \<rparr> \<rparr>"

section \<open>Theorems\<close>

subsection \<open>C7: visibility clamp\<close>

text \<open>
  C7, as stated, fails: a note wider than the band cannot be placed inside it.  In a
  viewport 100 pixels wide (band \<open>[20, 80]\<close>) a note 80 pixels wide at \<open>left = 30\<close>
  overflows on the right, is moved to \<open>left = 0\<close>, and its left edge is then outside the
  band.
\<close>

theorem C7_counterexample:
  "\<not> in_band band_win (getBoundingClientRect band_win wide_note) \<and>
   (case fst (ensureNoteVisibility band_win (\<lambda>c x. None) (Some wide_note) free_note_data) of
      Some n' \<Rightarrow> \<not> in_band band_win (getBoundingClientRect band_win n') \<and> style_left n' = 0
    | None \<Rightarrow> False)"
  by (simp add: ensureNoteVisibility_def getBoundingClientRect_def in_band_def band_win_def
      wide_note_def free_note_data_def r_right_def r_bottom_def MIN_VIEWPORT_MARGIN_def Let_def)

text \<open>
  C7 (amended): for a note element attached to the document whose width and height fit
  into the band (\<open>0 \<le> w \<le> viewportWidth - 2 * margin\<close>, likewise for the height),
  \<open>ensureNoteVisibility\<close> leaves all four edges of its rendered rectangle inside the band
  \<open>[margin, viewportDim - margin]\<close>; and a note element that is already fully inside the
  band is never moved (whatever its size) and no update is requested for it.
\<close>

theorem C7_ensureNoteVisibility_clamps:
  "(in_document n \<and> 0 \<le> el_width n \<and> 0 \<le> el_height n \<and>
    el_width n \<le> innerWidth win - 2 * MIN_VIEWPORT_MARGIN \<and>
    el_height n \<le> innerHeight win - 2 * MIN_VIEWPORT_MARGIN \<longrightarrow>
      (\<exists>n'. fst (ensureNoteVisibility win resolve (Some n) d) = Some n' \<and>
            in_band win (getBoundingClientRect win n') \<and>
            el_width n' = el_width n \<and> el_height n' = el_height n)) \<and>
   (in_band win (getBoundingClientRect win n) \<longrightarrow>
      ensureNoteVisibility win resolve (Some n) d = (Some n, []))"
  by (auto simp: ensureNoteVisibility_def getBoundingClientRect_def in_band_def
      r_right_def r_bottom_def MIN_VIEWPORT_MARGIN_def Let_def)

theorem C7_ensureNoteVisibility_clamps_witness:
  "in_document small_note \<and> 0 \<le> el_width small_note \<and> 0 \<le> el_height small_note \<and>
   el_width small_note \<le> innerWidth band_win - 2 * MIN_VIEWPORT_MARGIN \<and>
   el_height small_note \<le> innerHeight band_win - 2 * MIN_VIEWPORT_MARGIN \<and>
   \<not> in_band band_win (getBoundingClientRect band_win small_note) \<and>
   fst (ensureNoteVisibility band_win (\<lambda>c x. None) (Some small_note) free_note_data)
     = Some (small_note\<lparr>style_left := 50, style_top := 20\<rparr>) \<and>
   in_band band_win (getBoundingClientRect band_win (small_note\<lparr>style_left := 50, style_top := 20\<rparr>)) \<and>
   ensureNoteVisibility band_win (\<lambda>c x. None)
       (Some (small_note\<lparr>style_left := 50, style_top := 20\<rparr>)) free_note_data
     = (Some (small_note\<lparr>style_left := 50, style_top := 20\<rparr>), [])"
  using C7_ensureNoteVisibility_clamps
    [of small_note band_win "\<lambda>c x. None" free_note_data]
    C7_ensureNoteVisibility_clamps
    [of "small_note\<lparr>style_left := 50, style_top := 20\<rparr>" band_win "\<lambda>c x. None" free_note_data]
  by (simp add: ensureNoteVisibility_def getBoundingClientRect_def in_band_def band_win_def
      small_note_def free_note_data_def r_right_def r_bottom_def MIN_VIEWPORT_MARGIN_def Let_def)

subsection \<open>C3 and C4: the drag controller\<close>

lemma sqrt_25: "sqrt 25 = 5"
  by (rule real_sqrt_unique) simp_all

lemmas drag_defs = handleMouseMove_def startDrag_def pointer_distance_def
  armed_world_def idle_world_def idle_on_def down_at_def move_3_4_def move_far_def floating_note_def
  free_note_data_def getBoundingClientRect_def DRAG_THRESHOLD_def Let_def

lemma d34: "pointer_distance (dstate armed_world) move_3_4 = 5"
  by (simp add: drag_defs sqrt_25)

lemma dfar: "5 < pointer_distance (dstate armed_world) move_far"
  by (simp add: drag_defs real_less_rsqrt)

lemma armed_not_dragging: "\<not> isDragging (dstate armed_world)"
  by (simp add: armed_world_def startDrag_def Let_def)

text \<open>
  C3, as stated, fails at the boundary: \<open>handleMouseMove\<close> tests
  \<open>distance > DRAG_THRESHOLD\<close>.  After pointer-down at \<open>(110, 110)\<close> a move to
  \<open>(113, 114)\<close> has distance exactly 5, the threshold, and the controller neither enters
  Dragging nor changes anything else.
\<close>

theorem C3_counterexample:
  "pointer_distance (dstate armed_world) move_3_4 = DRAG_THRESHOLD \<and>
   \<not> isDragging (dstate (handleMouseMove failing_platform armed_world move_3_4)) \<and>
   handleMouseMove failing_platform armed_world move_3_4 = armed_world"
  using d34 armed_not_dragging
  by (simp add: handleMouseMove_def DRAG_THRESHOLD_def Let_def split: option.splits)

lemma handleMouseMove_below:
  "\<not> isDragging (dstate w) \<Longrightarrow> pointer_distance (dstate w) ev \<le> DRAG_THRESHOLD \<Longrightarrow>
   handleMouseMove plat w ev = w"
  by (simp add: handleMouseMove_def split: option.splits)

lemma foldl_below:
  "\<not> isDragging (dstate w) \<Longrightarrow> \<forall>ev\<in>set evs. pointer_distance (dstate w) ev \<le> DRAG_THRESHOLD \<Longrightarrow>
   foldl (handleMouseMove plat) w evs = w"
  by (induction evs) (simp_all add: handleMouseMove_below)

lemma isDragging_autoScroll: "isDragging (dstate (handleAutoScroll plat w ev)) = isDragging (dstate w)"
  by (simp add: handleAutoScroll_def Let_def split: option.splits)

lemma isDragging_dropTarget: "isDragging (dstate (updateDropTargetHighlight plat w ev)) = isDragging (dstate w)"
  by (simp add: updateDropTargetHighlight_def Let_def split: option.splits)

lemma handleMouseMove_beyond:
  "draggedNote (dstate w) = Some n \<Longrightarrow> pointer_distance (dstate w) ev > DRAG_THRESHOLD \<Longrightarrow>
   isDragging (dstate (handleMouseMove plat w ev))"
  by (simp add: handleMouseMove_def Let_def isDragging_autoScroll isDragging_dropTarget)

text \<open>
  C3 (amended): after pointer-down on a note, a sequence of pointer moves each of whose
  Euclidean distance from the initial pointer position is at most the drag threshold
  leaves the whole controller state as it was: it never enters Dragging and never changes
  the position of the note.  The first move whose distance is strictly greater than the
  threshold always enters Dragging.
\<close>

theorem C3_drag_threshold:
  assumes "w = startDrag w0 down note data target"
  shows "((\<forall>ev\<in>set evs. pointer_distance (dstate w) ev \<le> DRAG_THRESHOLD) \<longrightarrow>
            foldl (handleMouseMove plat) w evs = w) \<and>
         ((\<forall>ev\<in>set evs. pointer_distance (dstate w) ev \<le> DRAG_THRESHOLD) \<and>
           DRAG_THRESHOLD < pointer_distance (dstate w) ev' \<longrightarrow>
            isDragging (dstate (foldl (handleMouseMove plat) w (evs @ [ev']))))"
proof -
  have nd: "\<not> isDragging (dstate w)" and dn: "draggedNote (dstate w) = Some note"
    using assms by (simp_all add: startDrag_def Let_def)
  show ?thesis
    using foldl_below [OF nd] handleMouseMove_beyond [OF dn] by simp
qed

text \<open>The amended C3 at the moves \<open>(113, 114)\<close> and then \<open>(320, 330)\<close>.\<close>

theorem C3_drag_threshold_witness:
  "pointer_distance (dstate armed_world) move_3_4 \<le> DRAG_THRESHOLD \<and>
   foldl (handleMouseMove failing_platform) armed_world [move_3_4] = armed_world \<and>
   DRAG_THRESHOLD < pointer_distance (dstate armed_world) move_far \<and>
   isDragging (dstate (foldl (handleMouseMove failing_platform) armed_world [move_3_4, move_far]))"
proof -
  have a: "pointer_distance (dstate armed_world) move_3_4 \<le> DRAG_THRESHOLD"
    using d34 by (simp add: DRAG_THRESHOLD_def)
  have b: "DRAG_THRESHOLD < pointer_distance (dstate armed_world) move_far"
    using dfar by (simp add: DRAG_THRESHOLD_def)
  have w: "armed_world = startDrag idle_world down_at floating_note free_note_data None"
    by (simp add: armed_world_def)
  from C3_drag_threshold [OF w, of "[move_3_4]" failing_platform move_far] a b
  show ?thesis by auto
qed

















subsection \<open>Regular expressions: what a pattern matches\<close>

lemma rx_Star_unfold:
  "rx (Star a) s =
     concat (map (\<lambda>x. if length (snd x) < length s then rx (Star a) (snd x) else []) (rx a s))
     @ [([], s)]"
  by (subst rx.simps(6)) (simp add: case_prod_unfold)

lemma rx_suffix: "(c, r) \<in> set (rx re s) \<Longrightarrow> \<exists>w. s = w @ r"
proof (induction re s arbitrary: c r rule: rx.induct)
  case (1 p s)
  then show ?case by (auto simp: rx.simps(1) split: list.splits if_splits)
next
  case (2 l s)
  then show ?case by (auto simp: rx.simps(2) prefix_def split: if_splits)
next
  case (3 a b s)
  from "3.prems" obtain c1 r1 c2 where a: "(c1, r1) \<in> set (rx a s)" and b: "(c2, r) \<in> set (rx b r1)"
    by (auto simp: rx.simps(3))
  from "3.IH"(1) [OF a] obtain w1 where "s = w1 @ r1" by blast
  moreover from "3.IH"(2) [OF a refl b] obtain w2 where "r1 = w2 @ r" by blast
  ultimately show ?case by auto
next
  case (4 a b s)
  then show ?case by (auto simp: rx.simps(4))
next
  case (5 a s)
  then show ?case by (auto simp: rx.simps(5))
next
  case (6 a s)
  from "6.prems" consider (stop) "r = s" | (step) c1 r1 where "(c1, r1) \<in> set (rx a s)"
      "length r1 < length s" "(c, r) \<in> set (rx (Star a) r1)"
    unfolding rx_Star_unfold [of a s] by (auto split: if_splits)
  then show ?case
  proof cases
    case stop
    then show ?thesis by simp
  next
    case step
    from "6.IH"(1) [OF step(1)] obtain w1 where "s = w1 @ r1" by blast
    moreover from "6.IH"(2) [OF step(1) refl step(2) step(3)] obtain w2 where "r1 = w2 @ r" by blast
    ultimately show ?thesis by auto
  qed
next
  case (7 a s)
  then show ?case by (auto simp: rx.simps(7))
qed

lemma in_rx_Lit: "(c, r) \<in> set (rx (Lit l) s) \<longleftrightarrow> c = [] \<and> s = l @ r"
  by (auto simp: rx.simps(2) prefix_def)

lemma in_rx_Class: "(c, r) \<in> set (rx (Class p) s) \<longleftrightarrow> c = [] \<and> (\<exists>x. s = x # r \<and> p x)"
  by (auto simp: rx.simps(1) split: list.splits)

lemma set_rx_Seq:
  "set (rx (Seq a b) s) =
     (\<Union>x\<in>set (rx a s). (\<lambda>y. (fst x @ fst y, snd y)) ` set (rx b (snd x)))"
  by (simp add: rx.simps(3) case_prod_beta)

lemma in_rx_Seq:
  "(c, r) \<in> set (rx (Seq a b) s) \<longleftrightarrow>
     (\<exists>c1 r1 c2. (c1, r1) \<in> set (rx a s) \<and> (c2, r) \<in> set (rx b r1) \<and> c = c1 @ c2)"
  unfolding set_rx_Seq by force

lemma in_rx_Alt: "(c, r) \<in> set (rx (Alt a b) s) \<longleftrightarrow> (c, r) \<in> set (rx a s) \<or> (c, r) \<in> set (rx b s)"
  by (auto simp: rx.simps(4))

lemma in_rx_Opt: "(c, r) \<in> set (rx (Opt a) s) \<longleftrightarrow> (c, r) \<in> set (rx a s) \<or> (c = [] \<and> r = s)"
  by (auto simp: rx.simps(5))

lemma set_rx_Group:
  "set (rx (Group a) s) = (\<lambda>x. (take (length s - length (snd x)) s # fst x, snd x)) ` set (rx a s)"
  by (simp add: rx.simps(7) case_prod_beta)

lemma in_rx_Group:
  "(c, r) \<in> set (rx (Group a) s) \<longleftrightarrow>
     (\<exists>c' w. (c', r) \<in> set (rx a s) \<and> s = w @ r \<and> c = w # c')"
proof
  assume "(c, r) \<in> set (rx (Group a) s)"
  then obtain c' where a: "(c', r) \<in> set (rx a s)" and c: "c = take (length s - length r) s # c'"
    unfolding set_rx_Group by auto
  from rx_suffix [OF a] obtain w where "s = w @ r" by blast
  with a c show "\<exists>c' w. (c', r) \<in> set (rx a s) \<and> s = w @ r \<and> c = w # c'" by auto
next
  assume "\<exists>c' w. (c', r) \<in> set (rx a s) \<and> s = w @ r \<and> c = w # c'"
  then obtain c' w where a: "(c', r) \<in> set (rx a s)" and s: "s = w @ r" and c: "c = w # c'"
    by blast
  have "(take (length s - length (snd (c', r))) s # fst (c', r), snd (c', r)) \<in> set (rx (Group a) s)"
    unfolding set_rx_Group using a by (rule imageI)
  then show "(c, r) \<in> set (rx (Group a) s)" using s c by simp
qed

lemma rx_Star_Class_Cons:
  "rx (Star (Class p)) (x # t) = (if p x then rx (Star (Class p)) t else []) @ [([], x # t)]"
  unfolding rx_Star_unfold [of "Class p" "x # t"] by (simp add: rx.simps(1))

lemma rx_Star_Class_Nil: "rx (Star (Class p)) [] = [([], [])]"
  unfolding rx_Star_unfold [of "Class p" "[]"] by (simp add: rx.simps(1))

lemma in_rx_Star_Class:
  "(c, r) \<in> set (rx (Star (Class p)) s) \<longleftrightarrow> c = [] \<and> (\<exists>w. s = w @ r \<and> list_all p w)"
proof (induction s)
  case Nil
  show ?case by (auto simp: rx_Star_Class_Nil)
next
  case (Cons x t)
  show ?case
  proof
    assume "(c, r) \<in> set (rx (Star (Class p)) (x # t))"
    then consider "c = []" "r = x # t" | "p x" "(c, r) \<in> set (rx (Star (Class p)) t)"
      unfolding rx_Star_Class_Cons by (auto split: if_splits)
    then show "c = [] \<and> (\<exists>w. x # t = w @ r \<and> list_all p w)"
    proof cases
      case 1
      then show ?thesis by simp
    next
      case 2
      with Cons obtain w where "c = []" "t = w @ r" "list_all p w" by auto
      with 2 have "x # t = (x # w) @ r \<and> list_all p (x # w)" by simp
      with \<open>c = []\<close> show ?thesis by blast
    qed
  next
    assume "c = [] \<and> (\<exists>w. x # t = w @ r \<and> list_all p w)"
    then obtain w where c: "c = []" and w: "x # t = w @ r" "list_all p w" by blast
    show "(c, r) \<in> set (rx (Star (Class p)) (x # t))"
    proof (cases w)
      case Nil
      with w c show ?thesis unfolding rx_Star_Class_Cons by simp
    next
      case (Cons y w')
      with w have "p x" "t = w' @ r" "list_all p w'" by auto
      with Cons.IH c have "(c, r) \<in> set (rx (Star (Class p)) t)" by blast
      with \<open>p x\<close> show ?thesis unfolding rx_Star_Class_Cons by simp
    qed
  qed
qed

lemma in_Lit_Seq:
  "(c, r) \<in> set (rx (Seq (Lit l) b) s) \<longleftrightarrow> (\<exists>t. s = l @ t \<and> (c, r) \<in> set (rx b t))"
  unfolding in_rx_Seq in_rx_Lit by auto

lemma in_ws_Seq:
  "(c, r) \<in> set (rx (Seq ws b) s) \<longleftrightarrow> (\<exists>w t. s = w @ t \<and> blank w \<and> (c, r) \<in> set (rx b t))"
  unfolding in_rx_Seq ws_def in_rx_Star_Class blank_def by auto

lemma in_rep_1_3:
  "(c, r) \<in> set (rx (rep_1_3 (Class p)) s) \<longleftrightarrow>
     c = [] \<and> (\<exists>d. s = d @ r \<and> d \<noteq> [] \<and> length d \<le> 3 \<and> list_all p d)"
proof
  assume "(c, r) \<in> set (rx (rep_1_3 (Class p)) s)"
  then consider x where "c = []" "s = [x] @ r" "p x"
    | x y where "c = []" "s = [x, y] @ r" "p x" "p y"
    | x y z where "c = []" "s = [x, y, z] @ r" "p x" "p y" "p z"
    unfolding rep_1_3_def in_rx_Seq in_rx_Opt in_rx_Class by auto
  then show "c = [] \<and> (\<exists>d. s = d @ r \<and> d \<noteq> [] \<and> length d \<le> 3 \<and> list_all p d)"
  proof cases
    case 1
    then have "s = [x] @ r \<and> [x] \<noteq> [] \<and> length [x] \<le> 3 \<and> list_all p [x]" by simp
    with 1 show ?thesis by blast
  next
    case 2
    then have "s = [x, y] @ r \<and> [x, y] \<noteq> [] \<and> length [x, y] \<le> 3 \<and> list_all p [x, y]" by simp
    with 2 show ?thesis by blast
  next
    case 3
    then have "s = [x, y, z] @ r \<and> [x, y, z] \<noteq> [] \<and> length [x, y, z] \<le> 3 \<and> list_all p [x, y, z]"
      by simp
    with 3 show ?thesis by blast
  qed
next
  assume "c = [] \<and> (\<exists>d. s = d @ r \<and> d \<noteq> [] \<and> length d \<le> 3 \<and> list_all p d)"
  then obtain d where c: "c = []" and d: "s = d @ r" "d \<noteq> []" "length d \<le> 3" "list_all p d"
    by blast
  from d(2,3) consider x where "d = [x]" | x y where "d = [x, y]" | x y z where "d = [x, y, z]"
    by (cases d; cases "tl d"; cases "tl (tl d)"; cases "tl (tl (tl d))") auto
  then show "(c, r) \<in> set (rx (rep_1_3 (Class p)) s)"
  proof cases
    case 1
    with c d show ?thesis unfolding rep_1_3_def in_rx_Seq in_rx_Opt in_rx_Class by simp
  next
    case 2
    with c d show ?thesis unfolding rep_1_3_def in_rx_Seq in_rx_Opt in_rx_Class by simp
  next
    case 3
    with c d show ?thesis unfolding rep_1_3_def in_rx_Seq in_rx_Opt in_rx_Class by simp
  qed
qed

lemma in_num3:
  "(c, r) \<in> set (rx num3 s) \<longleftrightarrow> (\<exists>d. s = d @ r \<and> digits_1_3 d \<and> c = [d])"
proof
  assume "(c, r) \<in> set (rx num3 s)"
  then obtain w d where "s = w @ r" "c = [w]" "s = d @ r" "d \<noteq> []" "length d \<le> 3" "list_all is_digit d"
    unfolding num3_def in_rx_Group in_rep_1_3 by auto
  then show "\<exists>d. s = d @ r \<and> digits_1_3 d \<and> c = [d]"
    unfolding digits_1_3_def by auto
next
  assume "\<exists>d. s = d @ r \<and> digits_1_3 d \<and> c = [d]"
  then show "(c, r) \<in> set (rx num3 s)"
    unfolding num3_def in_rx_Group in_rep_1_3 digits_1_3_def by auto
qed

lemma in_num_field:
  "(c, r) \<in> set (rx (num_field k) s) \<longleftrightarrow>
     (\<exists>w d w' t c'. s = w @ d @ w' @ t \<and> blank w \<and> digits_1_3 d \<and> blank w' \<and>
        (c', r) \<in> set (rx k t) \<and> c = d # c')"
proof
  assume "(c, r) \<in> set (rx (num_field k) s)"
  then obtain w t1 where 1: "s = w @ t1" "blank w" "(c, r) \<in> set (rx (Seq num3 (Seq ws k)) t1)"
    unfolding num_field_def in_ws_Seq by blast
  from 1(3) obtain c1 r1 c2 where 2: "(c1, r1) \<in> set (rx num3 t1)"
      "(c2, r) \<in> set (rx (Seq ws k) r1)" "c = c1 @ c2"
    unfolding in_rx_Seq by blast
  from 2(1) obtain d where 3: "t1 = d @ r1" "digits_1_3 d" "c1 = [d]"
    unfolding in_num3 by blast
  from 2(2) obtain w' t where 4: "r1 = w' @ t" "blank w'" "(c2, r) \<in> set (rx k t)"
    unfolding in_ws_Seq by blast
  from 1 2 3 4 have "s = w @ d @ w' @ t \<and> blank w \<and> digits_1_3 d \<and> blank w' \<and>
        (c2, r) \<in> set (rx k t) \<and> c = d # c2" by simp
  then show "\<exists>w d w' t c'. s = w @ d @ w' @ t \<and> blank w \<and> digits_1_3 d \<and> blank w' \<and>
        (c', r) \<in> set (rx k t) \<and> c = d # c'" by blast
next
  assume "\<exists>w d w' t c'. s = w @ d @ w' @ t \<and> blank w \<and> digits_1_3 d \<and> blank w' \<and>
        (c', r) \<in> set (rx k t) \<and> c = d # c'"
  then obtain w d w' t c' where h: "s = w @ d @ w' @ t" "blank w" "digits_1_3 d" "blank w'"
        "(c', r) \<in> set (rx k t)" "c = d # c'" by blast
  have a: "(c', r) \<in> set (rx (Seq ws k) (w' @ t))"
    unfolding in_ws_Seq using h by blast
  have b: "([d], w' @ t) \<in> set (rx num3 (d @ w' @ t))"
    unfolding in_num3 using h by blast
  have "(c, r) \<in> set (rx (Seq num3 (Seq ws k)) (d @ w' @ t))"
    unfolding in_rx_Seq [of c r num3] using a b h(6) by force
  then show "(c, r) \<in> set (rx (num_field k) s)"
    unfolding num_field_def in_ws_Seq using h by blast
qed

lemma in_alphaPattern:
  "(c, r) \<in> set (rx alphaPattern s) \<longleftrightarrow> (\<exists>a. s = a @ r \<and> alpha_token a \<and> c = [a])"
proof
  assume "(c, r) \<in> set (rx alphaPattern s)"
  then obtain c' w where 1: "s = w @ r" "c = w # c'"
      "(c', r) \<in> set (rx (Seq (Opt (Class (\<lambda>c. c = CHR ''0'' \<or> c = CHR ''1'')))
             (Seq (Opt (Lit ''.'')) (Star (Class is_digit)))) s)"
    unfolding alphaPattern_def in_rx_Group by blast
  from 1(3) obtain c1 r1 c2 where 2: "(c1, r1) \<in> set (rx (Opt (Class (\<lambda>c. c = CHR ''0'' \<or> c = CHR ''1''))) s)"
      "(c2, r) \<in> set (rx (Seq (Opt (Lit ''.'')) (Star (Class is_digit))) r1)" "c' = c1 @ c2"
    unfolding in_rx_Seq [of c'] by blast
  from 2(1) obtain p where 3: "s = p @ r1" "p = [] \<or> p = ''0'' \<or> p = ''1''" "c1 = []"
    unfolding in_rx_Opt in_rx_Class by auto
  from 2(2) obtain c3 r2 c4 where 4: "(c3, r2) \<in> set (rx (Opt (Lit ''.'')) r1)"
      "(c4, r) \<in> set (rx (Star (Class is_digit)) r2)" "c2 = c3 @ c4"
    unfolding in_rx_Seq [of c2] by blast
  from 4(1) obtain q where 5: "r1 = q @ r2" "q = [] \<or> q = ''.''" "c3 = []"
    unfolding in_rx_Opt in_rx_Lit by auto
  from 4(2) obtain ds where 6: "r2 = ds @ r" "list_all is_digit ds" "c4 = []"
    unfolding in_rx_Star_Class by auto
  have "s = (p @ q @ ds) @ r" using 3(1) 5(1) 6(1) by simp
  with 1(1) have w: "w = p @ q @ ds" by simp
  then have "alpha_token w" unfolding alpha_token_def using 3(2) 5(2) 6(2) by blast
  moreover have "c = [w]" using 1(2) 2(3) 3(3) 4(3) 5(3) 6(3) by simp
  ultimately show "\<exists>a. s = a @ r \<and> alpha_token a \<and> c = [a]" using 1(1) by blast
next
  assume "\<exists>a. s = a @ r \<and> alpha_token a \<and> c = [a]"
  then obtain a p q ds where h: "s = a @ r" "c = [a]" "a = p @ q @ ds"
      "p = [] \<or> p = ''0'' \<or> p = ''1''" "q = [] \<or> q = ''.''" "list_all is_digit ds"
    unfolding alpha_token_def by blast
  have 1: "([], r) \<in> set (rx (Star (Class is_digit)) (ds @ r))"
    unfolding in_rx_Star_Class using h(6) by blast
  have 2: "([], ds @ r) \<in> set (rx (Opt (Lit ''.'')) (q @ ds @ r))"
    unfolding in_rx_Opt in_rx_Lit using h(5) by auto
  have 3: "([], r) \<in> set (rx (Seq (Opt (Lit ''.'')) (Star (Class is_digit))) (q @ ds @ r))"
    unfolding in_rx_Seq [of "[]" r "Opt (Lit ''.'')"] using 1 2 by force
  have 4: "([], q @ ds @ r) \<in> set (rx (Opt (Class (\<lambda>c. c = CHR ''0'' \<or> c = CHR ''1''))) (p @ q @ ds @ r))"
    unfolding in_rx_Opt in_rx_Class using h(4) by auto
  have 5: "([], r) \<in> set (rx (Seq (Opt (Class (\<lambda>c. c = CHR ''0'' \<or> c = CHR ''1'')))
             (Seq (Opt (Lit ''.'')) (Star (Class is_digit)))) (p @ q @ ds @ r))"
    unfolding in_rx_Seq [of "[]" r "Opt (Class (\<lambda>c. c = CHR ''0'' \<or> c = CHR ''1''))"]
    using 3 4 by force
  show "(c, r) \<in> set (rx alphaPattern s)"
    unfolding alphaPattern_def in_rx_Group using 5 h(1,2,3) by auto
qed

lemma Lit_SeqE:
  assumes "(c, r) \<in> set (rx (Seq (Lit l) b) s)"
  obtains t where "s = l @ t" "(c, r) \<in> set (rx b t)"
  using assms unfolding in_Lit_Seq by blast

lemma ws_SeqE:
  assumes "(c, r) \<in> set (rx (Seq ws b) s)"
  obtains w t where "s = w @ t" "blank w" "(c, r) \<in> set (rx b t)"
  using assms unfolding in_ws_Seq by blast

lemma num_fieldE:
  assumes "(c, r) \<in> set (rx (num_field k) s)"
  obtains w d w' t c' where "s = w @ d @ w' @ t" "blank w" "digits_1_3 d" "blank w'"
    "(c', r) \<in> set (rx k t)" "c = d # c'"
  using assms unfolding in_num_field by blast

lemma rx_SeqE:
  assumes "(c, r) \<in> set (rx (Seq a b) s)"
  obtains c1 r1 c2 where "(c1, r1) \<in> set (rx a s)" "(c2, r) \<in> set (rx b r1)" "c = c1 @ c2"
  using assms unfolding in_rx_Seq by blast

lemma alphaPatternE:
  assumes "(c, r) \<in> set (rx alphaPattern s)"
  obtains a where "s = a @ r" "alpha_token a" "c = [a]"
  using assms unfolding in_alphaPattern by blast

lemma rx_LitE:
  assumes "(c, r) \<in> set (rx (Lit l) s)"
  obtains "c = []" "s = l @ r"
  using assms unfolding in_rx_Lit by blast

lemma rgb_shapeI:
  assumes "s = ''rgb('' @ w1 @ r @ w2 @ '','' @ w3 @ g @ w4 @ '','' @ w5 @ b @ w6 @ '')''"
    and "blank w1" "digits_1_3 r" "blank w2" "blank w3" "digits_1_3 g" "blank w4"
      "blank w5" "digits_1_3 b" "blank w6"
  shows "rgb_shape s r g b"
  unfolding rgb_shape_def
  apply (rule exI [of _ w1], rule exI [of _ w2], rule exI [of _ w3], rule exI [of _ w4])
  apply (rule exI [of _ w5], rule exI [of _ w6])
  using assms by simp

lemma rgba_shapeI:
  assumes "s = ''rgba('' @ w1 @ r @ w2 @ '','' @ w3 @ g @ w4 @ '','' @ w5 @ b @ w6 @ '','' @
              w7 @ a @ w8 @ '')''"
    and "blank w1" "digits_1_3 r" "blank w2" "blank w3" "digits_1_3 g" "blank w4"
      "blank w5" "digits_1_3 b" "blank w6" "blank w7" "alpha_token a" "blank w8"
  shows "rgba_shape s r g b a"
  unfolding rgba_shape_def
  apply (rule exI [of _ w1], rule exI [of _ w2], rule exI [of _ w3], rule exI [of _ w4])
  apply (rule exI [of _ w5], rule exI [of _ w6], rule exI [of _ w7], rule exI [of _ w8])
  using assms by simp

lemma rx_SeqI:
  "(c1, r1) \<in> set (rx a s) \<Longrightarrow> (c2, r) \<in> set (rx b r1) \<Longrightarrow> (c1 @ c2, r) \<in> set (rx (Seq a b) s)"
  unfolding in_rx_Seq by blast

lemma rx_LitI: "([], r) \<in> set (rx (Lit l) (l @ r))"
  unfolding in_rx_Lit by simp

lemma Lit_SeqI: "(c, r) \<in> set (rx b t) \<Longrightarrow> (c, r) \<in> set (rx (Seq (Lit l) b) (l @ t))"
  using rx_SeqI [OF rx_LitI, of c r b t l] by simp

lemma ws_SeqI: "blank w \<Longrightarrow> (c, r) \<in> set (rx b t) \<Longrightarrow> (c, r) \<in> set (rx (Seq ws b) (w @ t))"
  unfolding in_ws_Seq by blast

lemma num_fieldI:
  "blank w \<Longrightarrow> digits_1_3 d \<Longrightarrow> blank w' \<Longrightarrow> (c', r) \<in> set (rx k t) \<Longrightarrow>
   (d # c', r) \<in> set (rx (num_field k) (w @ d @ w' @ t))"
  unfolding in_num_field by blast

lemma alphaPatternI: "alpha_token a \<Longrightarrow> ([a], r) \<in> set (rx alphaPattern (a @ r))"
  unfolding in_alphaPattern by blast

lemma in_rgbPattern:
  "(c, []) \<in> set (rx rgbPattern s) \<longleftrightarrow> (\<exists>r g b. rgb_shape s r g b \<and> c = [r, g, b])"
proof -
  let ?K3 = "Lit '')''"
  let ?K2 = "Seq (Lit '','') (num_field ?K3)"
  let ?K1 = "Seq (Lit '','') (num_field ?K2)"
  have p: "rgbPattern = Seq (Lit ''rgb('') (num_field ?K1)"
    by (simp add: rgbPattern_def)
  show ?thesis
  proof
    assume "(c, []) \<in> set (rx rgbPattern s)"
    then have "(c, []) \<in> set (rx (Seq (Lit ''rgb('') (num_field ?K1)) s)" unfolding p .
    then obtain t0 where 0: "s = ''rgb('' @ t0" "(c, []) \<in> set (rx (num_field ?K1) t0)"
      by (rule Lit_SeqE)
    from 0(2) obtain w1 r w2 t1 c1 where 1: "t0 = w1 @ r @ w2 @ t1" "blank w1" "digits_1_3 r" "blank w2"
        "(c1, []) \<in> set (rx ?K1 t1)" "c = r # c1"
      by (rule num_fieldE)
    from 1(5) obtain t2 where 2: "t1 = '','' @ t2" "(c1, []) \<in> set (rx (num_field ?K2) t2)"
      by (rule Lit_SeqE)
    from 2(2) obtain w3 g w4 t3 c2 where 3: "t2 = w3 @ g @ w4 @ t3" "blank w3" "digits_1_3 g" "blank w4"
        "(c2, []) \<in> set (rx ?K2 t3)" "c1 = g # c2"
      by (rule num_fieldE)
    from 3(5) obtain t4 where 4: "t3 = '','' @ t4" "(c2, []) \<in> set (rx (num_field ?K3) t4)"
      by (rule Lit_SeqE)
    from 4(2) obtain w5 b w6 t5 c3 where 5: "t4 = w5 @ b @ w6 @ t5" "blank w5" "digits_1_3 b" "blank w6"
        "(c3, []) \<in> set (rx ?K3 t5)" "c2 = b # c3"
      by (rule num_fieldE)
    from 5(5) have 6: "c3 = []" "t5 = '')''" unfolding in_rx_Lit by simp_all
    have "s = ''rgb('' @ w1 @ r @ w2 @ '','' @ w3 @ g @ w4 @ '','' @ w5 @ b @ w6 @ '')''"
      unfolding 0(1) 1(1) 2(1) 3(1) 4(1) 5(1) 6(2) by simp
    then have "rgb_shape s r g b"
      using 1(2,3,4) 3(2,3,4) 5(2,3,4) by (rule rgb_shapeI)
    moreover have "c = [r, g, b]" unfolding 1(6) 3(6) 5(6) 6(1) by simp
    ultimately show "\<exists>r g b. rgb_shape s r g b \<and> c = [r, g, b]" by blast
  next
    assume "\<exists>r g b. rgb_shape s r g b \<and> c = [r, g, b]"
    then obtain r g b where c: "c = [r, g, b]" and sh: "rgb_shape s r g b" by blast
    from sh obtain w1 w2 w3 w4 w5 w6 where
      s: "s = ''rgb('' @ w1 @ r @ w2 @ '','' @ w3 @ g @ w4 @ '','' @ w5 @ b @ w6 @ '')''"
      and w: "blank w1" "blank w2" "blank w3" "blank w4" "blank w5" "blank w6"
      and d: "digits_1_3 r" "digits_1_3 g" "digits_1_3 b"
      unfolding rgb_shape_def by (elim exE conjE) (rule that)
    have 5: "([b], []) \<in> set (rx (num_field ?K3) (w5 @ b @ w6 @ '')'' @ []))"
      by (rule num_fieldI [OF w(5) d(3) w(6) rx_LitI])
    have 4: "([b], []) \<in> set (rx ?K2 ('','' @ w5 @ b @ w6 @ '')'' @ []))"
      by (rule Lit_SeqI [OF 5])
    have 3: "([g, b], []) \<in> set (rx (num_field ?K2) (w3 @ g @ w4 @ '','' @ w5 @ b @ w6 @ '')'' @ []))"
      by (rule num_fieldI [OF w(3) d(2) w(4) 4])
    have 2: "([g, b], []) \<in> set (rx ?K1 ('','' @ w3 @ g @ w4 @ '','' @ w5 @ b @ w6 @ '')'' @ []))"
      by (rule Lit_SeqI [OF 3])
    have 1: "([r, g, b], []) \<in> set (rx (num_field ?K1)
                (w1 @ r @ w2 @ '','' @ w3 @ g @ w4 @ '','' @ w5 @ b @ w6 @ '')'' @ []))"
      by (rule num_fieldI [OF w(1) d(1) w(2) 2])
    have "(c, []) \<in> set (rx rgbPattern (''rgb('' @ w1 @ r @ w2 @ '','' @ w3 @ g @ w4 @ '','' @ w5 @ b @ w6 @ '')'' @ []))"
      unfolding p c by (rule Lit_SeqI [OF 1])
    then show "(c, []) \<in> set (rx rgbPattern s)" unfolding s by simp
  qed
qed

lemma in_rgbaPattern:
  "(c, []) \<in> set (rx rgbaPattern s) \<longleftrightarrow> (\<exists>r g b a. rgba_shape s r g b a \<and> c = [r, g, b, a])"
proof -
  let ?K5 = "Seq ws (Lit '')'')"
  let ?K4 = "Seq ws (Seq alphaPattern ?K5)"
  let ?K3 = "Seq (Lit '','') ?K4"
  let ?K2 = "Seq (Lit '','') (num_field ?K3)"
  let ?K1 = "Seq (Lit '','') (num_field ?K2)"
  have p: "rgbaPattern = Seq (Lit ''rgba('') (num_field ?K1)"
    by (simp add: rgbaPattern_def)
  show ?thesis
  proof
    assume "(c, []) \<in> set (rx rgbaPattern s)"
    then have "(c, []) \<in> set (rx (Seq (Lit ''rgba('') (num_field ?K1)) s)" unfolding p .
    then obtain t0 where 0: "s = ''rgba('' @ t0" "(c, []) \<in> set (rx (num_field ?K1) t0)"
      by (rule Lit_SeqE)
    from 0(2) obtain w1 r w2 t1 c1 where 1: "t0 = w1 @ r @ w2 @ t1" "blank w1" "digits_1_3 r" "blank w2"
        "(c1, []) \<in> set (rx ?K1 t1)" "c = r # c1"
      by (rule num_fieldE)
    from 1(5) obtain t2 where 2: "t1 = '','' @ t2" "(c1, []) \<in> set (rx (num_field ?K2) t2)"
      by (rule Lit_SeqE)
    from 2(2) obtain w3 g w4 t3 c2 where 3: "t2 = w3 @ g @ w4 @ t3" "blank w3" "digits_1_3 g" "blank w4"
        "(c2, []) \<in> set (rx ?K2 t3)" "c1 = g # c2"
      by (rule num_fieldE)
    from 3(5) obtain t4 where 4: "t3 = '','' @ t4" "(c2, []) \<in> set (rx (num_field ?K3) t4)"
      by (rule Lit_SeqE)
    from 4(2) obtain w5 b w6 t5 c3 where 5: "t4 = w5 @ b @ w6 @ t5" "blank w5" "digits_1_3 b" "blank w6"
        "(c3, []) \<in> set (rx ?K3 t5)" "c2 = b # c3"
      by (rule num_fieldE)
    from 5(5) obtain t6 where 6: "t5 = '','' @ t6" "(c3, []) \<in> set (rx ?K4 t6)"
      by (rule Lit_SeqE)
    from 6(2) obtain w7 t7 where 7: "t6 = w7 @ t7" "blank w7"
        "(c3, []) \<in> set (rx (Seq alphaPattern ?K5) t7)"
      by (rule ws_SeqE)
    from 7(3) obtain ca r1 cb where 8: "(ca, r1) \<in> set (rx alphaPattern t7)"
        "(cb, []) \<in> set (rx ?K5 r1)" "c3 = ca @ cb"
      by (rule rx_SeqE)
    from 8(1) obtain a where 9: "t7 = a @ r1" "alpha_token a" "ca = [a]"
      by (rule alphaPatternE)
    from 8(2) obtain w8 t8 where 10: "r1 = w8 @ t8" "blank w8" "(cb, []) \<in> set (rx (Lit '')'') t8)"
      by (rule ws_SeqE)
    from 10(3) have 11: "cb = []" "t8 = '')''" unfolding in_rx_Lit by simp_all
    have "s = ''rgba('' @ w1 @ r @ w2 @ '','' @ w3 @ g @ w4 @ '','' @ w5 @ b @ w6 @ '','' @
                w7 @ a @ w8 @ '')''"
      unfolding 0(1) 1(1) 2(1) 3(1) 4(1) 5(1) 6(1) 7(1) 9(1) 10(1) 11(2) by simp
    then have "rgba_shape s r g b a"
      using 1(2,3,4) 3(2,3,4) 5(2,3,4) 7(2) 9(2) 10(2) by (rule rgba_shapeI)
    moreover have "c = [r, g, b, a]" unfolding 1(6) 3(6) 5(6) 8(3) 9(3) 11(1) by simp
    ultimately show "\<exists>r g b a. rgba_shape s r g b a \<and> c = [r, g, b, a]" by blast
  next
    assume "\<exists>r g b a. rgba_shape s r g b a \<and> c = [r, g, b, a]"
    then obtain r g b a where c: "c = [r, g, b, a]" and sh: "rgba_shape s r g b a" by blast
    from sh obtain w1 w2 w3 w4 w5 w6 w7 w8 where
      s: "s = ''rgba('' @ w1 @ r @ w2 @ '','' @ w3 @ g @ w4 @ '','' @ w5 @ b @ w6 @ '','' @
                w7 @ a @ w8 @ '')''"
      and w: "blank w1" "blank w2" "blank w3" "blank w4" "blank w5" "blank w6" "blank w7" "blank w8"
      and d: "digits_1_3 r" "digits_1_3 g" "digits_1_3 b" "alpha_token a"
      unfolding rgba_shape_def by (elim exE conjE) (rule that)
    have 9: "([], []) \<in> set (rx ?K5 (w8 @ '')'' @ []))"
      by (rule ws_SeqI [OF w(8) rx_LitI])
    have 7: "([a] @ [], []) \<in> set (rx (Seq alphaPattern ?K5) (a @ w8 @ '')'' @ []))"
      by (rule rx_SeqI [OF alphaPatternI [OF d(4)] 9])
    then have 7: "([a], []) \<in> set (rx (Seq alphaPattern ?K5) (a @ w8 @ '')''))" by simp
    have 6: "([a], []) \<in> set (rx ?K4 (w7 @ a @ w8 @ '')''))"
      by (rule ws_SeqI [OF w(7) 7])
    have k6: "([a], []) \<in> set (rx ?K3 ('','' @ w7 @ a @ w8 @ '')''))"
      by (rule Lit_SeqI [OF 6])
    have 5: "([b, a], []) \<in> set (rx (num_field ?K3) (w5 @ b @ w6 @ '','' @ w7 @ a @ w8 @ '')''))"
      by (rule num_fieldI [OF w(5) d(3) w(6) k6])
    have 4: "([b, a], []) \<in> set (rx ?K2 ('','' @ w5 @ b @ w6 @ '','' @ w7 @ a @ w8 @ '')''))"
      by (rule Lit_SeqI [OF 5])
    have 3: "([g, b, a], []) \<in> set (rx (num_field ?K2)
                (w3 @ g @ w4 @ '','' @ w5 @ b @ w6 @ '','' @ w7 @ a @ w8 @ '')''))"
      by (rule num_fieldI [OF w(3) d(2) w(4) 4])
    have 2: "([g, b, a], []) \<in> set (rx ?K1
                ('','' @ w3 @ g @ w4 @ '','' @ w5 @ b @ w6 @ '','' @ w7 @ a @ w8 @ '')''))"
      by (rule Lit_SeqI [OF 3])
    have 1: "([r, g, b, a], []) \<in> set (rx (num_field ?K1)
                (w1 @ r @ w2 @ '','' @ w3 @ g @ w4 @ '','' @ w5 @ b @ w6 @ '','' @ w7 @ a @ w8 @ '')''))"
      by (rule num_fieldI [OF w(1) d(1) w(2) 2])
    show "(c, []) \<in> set (rx rgbaPattern s)"
      unfolding p c s by (rule Lit_SeqI [OF 1])
  qed
qed

subsection \<open>Uniqueness of the captures\<close>

lemma split_unique:
  assumes "list_all P d" "list_all P d'" "\<not> P x" "\<not> P x'" "d @ x # t = d' @ x' # t'"
  shows "d = d' \<and> t = t'"
proof -
  have "takeWhile P (d @ x # t) = d" "dropWhile P (d @ x # t) = x # t"
    using assms(1,3) by (simp_all add: list_all_iff takeWhile_append2 dropWhile_append2)
  moreover have "takeWhile P (d' @ x' # t') = d'" "dropWhile P (d' @ x' # t') = x' # t'"
    using assms(2,4) by (simp_all add: list_all_iff takeWhile_append2 dropWhile_append2)
  ultimately show ?thesis using assms(5) by simp
qed

lemma no_space_append [simp]: "no_space (a @ b) = no_space a @ no_space b"
  by (simp add: no_space_def)

lemma no_space_blank [simp]: "blank w \<Longrightarrow> no_space w = []"
  by (induction w) (auto simp: no_space_def blank_def)

lemma digit_not_space: "is_digit c \<Longrightarrow> \<not> is_space c"
  by (auto simp: is_digit_def is_space_def)

lemma no_space_digits [simp]: "digits_1_3 d \<Longrightarrow> no_space d = d"
  unfolding digits_1_3_def no_space_def
  by (simp add: list_all_iff digit_not_space)

lemma no_space_Cons:
  "no_space (c # t) = (if is_space c then no_space t else c # no_space t)"
  by (simp add: no_space_def)

lemma no_space_Nil [simp]: "no_space [] = []"
  by (simp add: no_space_def)

lemma rgb_shape_no_space:
  assumes "rgb_shape s r g b"
  shows "no_space s = ''rgb('' @ r @ '','' @ g @ '','' @ b @ '')''"
proof -
  from assms obtain w1 w2 w3 w4 w5 w6 where
    s: "s = ''rgb('' @ w1 @ r @ w2 @ '','' @ w3 @ g @ w4 @ '','' @ w5 @ b @ w6 @ '')''"
    and w: "blank w1" "blank w2" "blank w3" "blank w4" "blank w5" "blank w6"
    and d: "digits_1_3 r" "digits_1_3 g" "digits_1_3 b"
    unfolding rgb_shape_def by blast
  show ?thesis unfolding s using w d by (simp add: no_space_Cons is_space_def)
qed

lemma not_digit_lits: "\<not> is_digit CHR '',''" "\<not> is_digit CHR '')''"
  by (simp_all add: is_digit_def)

lemma rgb_shape_unique:
  assumes "rgb_shape s r g b" "rgb_shape s r' g' b'"
  shows "r = r' \<and> g = g' \<and> b = b'"
proof -
  have 1: "no_space s = ''rgb('' @ r @ '','' @ g @ '','' @ b @ '')''"
    by (rule rgb_shape_no_space [OF assms(1)])
  have 2: "no_space s = ''rgb('' @ r' @ '','' @ g' @ '','' @ b' @ '')''"
    by (rule rgb_shape_no_space [OF assms(2)])
  from assms(1) have d: "list_all is_digit r" "list_all is_digit g" "list_all is_digit b"
    unfolding rgb_shape_def digits_1_3_def by blast+
  from assms(2) have d': "list_all is_digit r'" "list_all is_digit g'" "list_all is_digit b'"
    unfolding rgb_shape_def digits_1_3_def by blast+
  from 1 2 have e: "r @ CHR '','' # (g @ '','' @ b @ '')'') = r' @ CHR '','' # (g' @ '','' @ b' @ '')'')"
    by simp
  from split_unique [OF d(1) d'(1) not_digit_lits(1) not_digit_lits(1) e]
  have r: "r = r'" and e2: "g @ CHR '','' # (b @ '')'') = g' @ CHR '','' # (b' @ '')'')" by simp_all
  from split_unique [OF d(2) d'(2) not_digit_lits(1) not_digit_lits(1) e2]
  have g: "g = g'" and e3: "b @ CHR '')'' # [] = b' @ CHR '')'' # []" by simp_all
  from split_unique [OF d(3) d'(3) not_digit_lits(2) not_digit_lits(2) e3]
  have "b = b'" by simp
  with r g show ?thesis by simp
qed

subsection \<open>The anchored match\<close>

lemma match_anchored_Some:
  "match_anchored re s = Some c \<Longrightarrow> (c, []) \<in> set (rx re s)"
  unfolding match_anchored_def by (auto simp: find_Some_iff in_set_conv_nth)

lemma match_anchored_None:
  "match_anchored re s = None \<longleftrightarrow> (\<forall>c. (c, []) \<notin> set (rx re s))"
  unfolding match_anchored_def by (auto simp: find_None_iff)

lemma parseInt_digits: "digits_1_3 d \<Longrightarrow> parseInt d = Some (decimal d)"
proof -
  assume "digits_1_3 d"
  then have t: "takeWhile is_digit d = d" and ne: "d \<noteq> []"
    unfolding digits_1_3_def by (simp_all add: list_all_iff)
  show ?thesis unfolding parseInt_def Let_def t using ne by simp
qed

lemma rgb_accept_iff:
  "(case match_anchored rgbPattern s of None \<Rightarrow> False | Some m \<Rightarrow> rgb_in_range m) \<longleftrightarrow> is_rgb_value s"
proof
  assume a: "case match_anchored rgbPattern s of None \<Rightarrow> False | Some m \<Rightarrow> rgb_in_range m"
  then obtain m where m: "match_anchored rgbPattern s = Some m" "rgb_in_range m"
    by (auto split: option.splits)
  from match_anchored_Some [OF m(1)] obtain r g b where sh: "rgb_shape s r g b" "m = [r, g, b]"
    unfolding in_rgbPattern by blast
  then have "digits_1_3 r" "digits_1_3 g" "digits_1_3 b" unfolding rgb_shape_def by blast+
  with m(2) sh(2) have "decimal r \<le> 255 \<and> decimal g \<le> 255 \<and> decimal b \<le> 255"
    by (simp add: rgb_in_range_def parseInt_digits int_le_255_def)
  with sh(1) show "is_rgb_value s" unfolding is_rgb_value_def by blast
next
  assume "is_rgb_value s"
  then obtain r g b where sh: "rgb_shape s r g b"
    and v: "decimal r \<le> 255" "decimal g \<le> 255" "decimal b \<le> 255"
    unfolding is_rgb_value_def by blast
  then have "([r, g, b], []) \<in> set (rx rgbPattern s)" unfolding in_rgbPattern by blast
  then obtain m where m: "match_anchored rgbPattern s = Some m"
    using match_anchored_None [of rgbPattern s] by (cases "match_anchored rgbPattern s") auto
  from match_anchored_Some [OF m] obtain r' g' b' where sh': "rgb_shape s r' g' b'" "m = [r', g', b']"
    unfolding in_rgbPattern by blast
  from rgb_shape_unique [OF sh sh'(1)] sh'(2) have "m = [r, g, b]" by simp
  moreover from sh have "digits_1_3 r" "digits_1_3 g" "digits_1_3 b" unfolding rgb_shape_def by blast+
  ultimately have "rgb_in_range m"
    using v by (simp add: rgb_in_range_def parseInt_digits int_le_255_def)
  with m show "case match_anchored rgbPattern s of None \<Rightarrow> False | Some m \<Rightarrow> rgb_in_range m"
    by simp
qed

subsection \<open>rgba\<close>

lemma alpha_chars:
  assumes "alpha_token a"
  shows "list_all (\<lambda>c. is_digit c \<or> c = CHR ''.'') a"
proof -
  from assms obtain p q ds where a: "a = p @ q @ ds" and p: "p = [] \<or> p = ''0'' \<or> p = ''1''"
    and q: "q = [] \<or> q = ''.''" and ds: "list_all is_digit ds"
    unfolding alpha_token_def by blast
  have "list_all (\<lambda>c. is_digit c \<or> c = CHR ''.'') p" using p by (auto simp: is_digit_def)
  moreover have "list_all (\<lambda>c. is_digit c \<or> c = CHR ''.'') q" using q by auto
  moreover have "list_all (\<lambda>c. is_digit c \<or> c = CHR ''.'') ds" using ds by (simp add: list_all_iff)
  ultimately show ?thesis unfolding a by simp
qed

lemma no_space_alpha [simp]: "alpha_token a \<Longrightarrow> no_space a = a"
proof -
  assume "alpha_token a"
  then have "list_all (\<lambda>c. is_digit c \<or> c = CHR ''.'') a" by (rule alpha_chars)
  moreover have "\<not> is_space CHR ''.''" by (simp add: is_space_def)
  ultimately show ?thesis unfolding no_space_def
    by (auto simp: list_all_iff digit_not_space intro!: filter_True)
qed

lemma rgba_shape_no_space:
  assumes "rgba_shape s r g b a"
  shows "no_space s = ''rgba('' @ r @ '','' @ g @ '','' @ b @ '','' @ a @ '')''"
proof -
  from assms obtain w1 w2 w3 w4 w5 w6 w7 w8 where
    s: "s = ''rgba('' @ w1 @ r @ w2 @ '','' @ w3 @ g @ w4 @ '','' @ w5 @ b @ w6 @ '','' @
              w7 @ a @ w8 @ '')''"
    and w: "blank w1" "blank w2" "blank w3" "blank w4" "blank w5" "blank w6" "blank w7" "blank w8"
    and d: "digits_1_3 r" "digits_1_3 g" "digits_1_3 b" "alpha_token a"
    unfolding rgba_shape_def by (elim exE conjE) (rule that)
  show ?thesis unfolding s using w d by (simp add: no_space_Cons is_space_def)
qed

lemma not_alpha_lits:
  "\<not> (is_digit CHR '')'' \<or> CHR '')'' = CHR ''.'')"
  by (simp add: is_digit_def)

lemma rgba_shape_unique:
  assumes "rgba_shape s r g b a" "rgba_shape s r' g' b' a'"
  shows "r = r' \<and> g = g' \<and> b = b' \<and> a = a'"
proof -
  have 1: "no_space s = ''rgba('' @ r @ '','' @ g @ '','' @ b @ '','' @ a @ '')''"
    by (rule rgba_shape_no_space [OF assms(1)])
  have 2: "no_space s = ''rgba('' @ r' @ '','' @ g' @ '','' @ b' @ '','' @ a' @ '')''"
    by (rule rgba_shape_no_space [OF assms(2)])
  from assms(1) have d: "list_all is_digit r" "list_all is_digit g" "list_all is_digit b"
    and al: "alpha_token a"
    unfolding rgba_shape_def digits_1_3_def by blast+
  from assms(2) have d': "list_all is_digit r'" "list_all is_digit g'" "list_all is_digit b'"
    and al': "alpha_token a'"
    unfolding rgba_shape_def digits_1_3_def by blast+
  from 1 2 have e: "r @ CHR '','' # (g @ '','' @ b @ '','' @ a @ '')'')
      = r' @ CHR '','' # (g' @ '','' @ b' @ '','' @ a' @ '')'')"
    by simp
  from split_unique [OF d(1) d'(1) not_digit_lits(1) not_digit_lits(1) e]
  have r: "r = r'" and e2: "g @ CHR '','' # (b @ '','' @ a @ '')'') = g' @ CHR '','' # (b' @ '','' @ a' @ '')'')"
    by simp_all
  from split_unique [OF d(2) d'(2) not_digit_lits(1) not_digit_lits(1) e2]
  have g: "g = g'" and e3: "b @ CHR '','' # (a @ '')'') = b' @ CHR '','' # (a' @ '')'')" by simp_all
  from split_unique [OF d(3) d'(3) not_digit_lits(1) not_digit_lits(1) e3]
  have b: "b = b'" and e4: "a @ CHR '')'' # [] = a' @ CHR '')'' # []" by simp_all
  from split_unique [OF alpha_chars [OF al] alpha_chars [OF al'] not_alpha_lits not_alpha_lits e4]
  have "a = a'" by simp
  with r g b show ?thesis by simp
qed

lemma rgba_accept_iff:
  "(case match_anchored rgbaPattern s of None \<Rightarrow> False | Some m \<Rightarrow> rgba_in_range m) \<longleftrightarrow> is_rgba_value s"
proof
  assume a: "case match_anchored rgbaPattern s of None \<Rightarrow> False | Some m \<Rightarrow> rgba_in_range m"
  then obtain m where m: "match_anchored rgbaPattern s = Some m" "rgba_in_range m"
    by (auto split: option.splits)
  from match_anchored_Some [OF m(1)] obtain r g b a where sh: "rgba_shape s r g b a" "m = [r, g, b, a]"
    unfolding in_rgbaPattern by blast
  then have "digits_1_3 r" "digits_1_3 g" "digits_1_3 b" unfolding rgba_shape_def by blast+
  with m(2) sh(2) have "decimal r \<le> 255 \<and> decimal g \<le> 255 \<and> decimal b \<le> 255 \<and>
      number_le_1 (parseFloat a)"
    by (simp add: rgba_in_range_def parseInt_digits int_le_255_def)
  with sh(1) show "is_rgba_value s" unfolding is_rgba_value_def by blast
next
  assume "is_rgba_value s"
  then obtain r g b a where sh: "rgba_shape s r g b a"
    and v: "decimal r \<le> 255" "decimal g \<le> 255" "decimal b \<le> 255" "number_le_1 (parseFloat a)"
    unfolding is_rgba_value_def by blast
  then have "([r, g, b, a], []) \<in> set (rx rgbaPattern s)" unfolding in_rgbaPattern by blast
  then obtain m where m: "match_anchored rgbaPattern s = Some m"
    using match_anchored_None [of rgbaPattern s] by (cases "match_anchored rgbaPattern s") auto
  from match_anchored_Some [OF m] obtain r' g' b' a' where sh': "rgba_shape s r' g' b' a'"
      "m = [r', g', b', a']"
    unfolding in_rgbaPattern by blast
  from rgba_shape_unique [OF sh sh'(1)] sh'(2) have "m = [r, g, b, a]" by simp
  moreover from sh have "digits_1_3 r" "digits_1_3 g" "digits_1_3 b" unfolding rgba_shape_def by blast+
  ultimately have "rgba_in_range m"
    using v by (simp add: rgba_in_range_def parseInt_digits int_le_255_def)
  with m show "case match_anchored rgbaPattern s of None \<Rightarrow> False | Some m \<Rightarrow> rgba_in_range m"
    by simp
qed

subsection \<open>The hex pattern\<close>

lemma in_times_Class:
  "(c, r) \<in> set (rx (times n (Class p)) s) \<longleftrightarrow>
     c = [] \<and> (\<exists>d. s = d @ r \<and> length d = n \<and> list_all p d)"
proof (induction n "Class p" arbitrary: c s rule: times.induct)
  case 1
  show ?case by (auto simp: in_rx_Lit)
next
  case 2
  show ?case
  proof
    assume "(c, r) \<in> set (rx (times (Suc 0) (Class p)) s)"
    then obtain x where "c = []" "s = [x] @ r" "p x" by (auto simp: in_rx_Class)
    then have "s = [x] @ r \<and> length [x] = Suc 0 \<and> list_all p [x]" by simp
    with \<open>c = []\<close> show "c = [] \<and> (\<exists>d. s = d @ r \<and> length d = Suc 0 \<and> list_all p d)" by blast
  next
    assume "c = [] \<and> (\<exists>d. s = d @ r \<and> length d = Suc 0 \<and> list_all p d)"
    then obtain d where "c = []" "s = d @ r" "length d = Suc 0" "list_all p d" by blast
    then show "(c, r) \<in> set (rx (times (Suc 0) (Class p)) s)"
      by (cases d) (auto simp: in_rx_Class)
  qed
next
  case (3 v)
  have t: "times (Suc (Suc v)) (Class p) = Seq (Class p) (times (Suc v) (Class p))" by simp
  show ?case
  proof
    assume "(c, r) \<in> set (rx (times (Suc (Suc v)) (Class p)) s)"
    then obtain x r1 c2 where 1: "s = x # r1" "p x" "(c2, r) \<in> set (rx (times (Suc v) (Class p)) r1)"
        "c = c2"
      unfolding t in_rx_Seq in_rx_Class by auto
    from 1(3) obtain d where 2: "c2 = []" "r1 = d @ r" "length d = Suc v" "list_all p d"
      unfolding "3.hyps" by blast
    from 1 2 have "s = (x # d) @ r \<and> length (x # d) = Suc (Suc v) \<and> list_all p (x # d)" by simp
    with 1(4) 2(1) show "c = [] \<and> (\<exists>d. s = d @ r \<and> length d = Suc (Suc v) \<and> list_all p d)" by blast
  next
    assume "c = [] \<and> (\<exists>d. s = d @ r \<and> length d = Suc (Suc v) \<and> list_all p d)"
    then obtain d where 1: "c = []" "s = d @ r" "length d = Suc (Suc v)" "list_all p d" by blast
    then obtain x d' where 2: "d = x # d'" by (cases d) auto
    with 1 have "([], r) \<in> set (rx (times (Suc v) (Class p)) (d' @ r))"
      unfolding "3.hyps" by auto
    with 1 2 show "(c, r) \<in> set (rx (times (Suc (Suc v)) (Class p)) s)"
      unfolding t in_rx_Seq in_rx_Class by auto
  qed
qed

lemma hex_accept_iff: "test_anchored hexPattern s \<longleftrightarrow> is_hex_color s"
proof -
  have "test_anchored hexPattern s \<longleftrightarrow> (\<exists>c. (c, []) \<in> set (rx hexPattern s))"
    unfolding test_anchored_def using match_anchored_None [of hexPattern s] by auto
  also have "\<dots> \<longleftrightarrow> (\<exists>ds. s = CHR ''#'' # ds \<and> (length ds = 3 \<or> length ds = 6) \<and> list_all is_hex_digit ds)"
    unfolding hexPattern_def in_Lit_Seq in_rx_Group in_rx_Alt in_times_Class by auto
  also have "\<dots> \<longleftrightarrow> is_hex_color s"
    unfolding is_hex_color_def by (cases s) auto
  finally show ?thesis .
qed

lemma sanitizeColor_string:
  "sanitizeColor (JSString s) =
     Inr (if s = [] then DEFAULT_COLOR
          else if test_anchored hexPattern s then s
          else if (case match_anchored rgbPattern s of None \<Rightarrow> False | Some m \<Rightarrow> rgb_in_range m) then s
          else if (case match_anchored rgbaPattern s of None \<Rightarrow> False | Some m \<Rightarrow> rgba_in_range m) then s
          else if toLowerCase s \<in> set namedColors then toLowerCase s
          else DEFAULT_COLOR)"
  by (simp add: sanitizeColor_def)

lemma sanitizeColor_other:
  "\<not> typeof_is_string v \<Longrightarrow> sanitizeColor v = Inr DEFAULT_COLOR"
  by (simp add: sanitizeColor_def)

lemma sanitizeColor_default: "sanitizeColor (JSString DEFAULT_COLOR) = Inr DEFAULT_COLOR"
  by code_simp

lemma sanitizeColor_named:
  "list_all (\<lambda>l. sanitizeColor (JSString l) = Inr l) namedColors"
  by code_simp

lemma sanitizeColor_cases:
  obtains (dflt) "sanitizeColor v = Inr DEFAULT_COLOR"
  | (same) s where "v = JSString s" "sanitizeColor v = Inr s"
  | (named) s where "v = JSString s" "toLowerCase s \<in> set namedColors"
      "sanitizeColor v = Inr (toLowerCase s)"
proof (cases "typeof_is_string v")
  case False
  then show ?thesis using dflt sanitizeColor_other by blast
next
  case True
  then obtain s where v: "v = JSString s" by (cases v) auto
  let ?same = "s \<noteq> [] \<and> (test_anchored hexPattern s \<or>
      (case match_anchored rgbPattern s of None \<Rightarrow> False | Some m \<Rightarrow> rgb_in_range m) \<or>
      (case match_anchored rgbaPattern s of None \<Rightarrow> False | Some m \<Rightarrow> rgba_in_range m))"
  show ?thesis
  proof (cases ?same)
    case True
    then have "sanitizeColor v = Inr s" unfolding v sanitizeColor_string by auto
    then show ?thesis using same [OF v] by simp
  next
    case nsame: False
    show ?thesis
    proof (cases "s \<noteq> [] \<and> toLowerCase s \<in> set namedColors")
      case True
      then have "sanitizeColor v = Inr (toLowerCase s)"
        using nsame unfolding v sanitizeColor_string by auto
      then show ?thesis using named [OF v] True by simp
    next
      case False
      then have "sanitizeColor v = Inr DEFAULT_COLOR"
        using nsame unfolding v sanitizeColor_string by auto
      then show ?thesis using dflt by simp
    qed
  qed
qed

subsection \<open>C8 and C10: the colour sanitizer\<close>

text \<open>
  C10: \<open>sanitizeColor\<close> is idempotent.  For every input value, sanitizing the
  output of \<open>sanitizeColor\<close> again gives that same output: an accepted hex, \<open>rgb()\<close> or
  \<open>rgba()\<close> string is returned as it is, and each of the sixteen lower-case colour names
  and the default \<open>#fff3cd\<close> is itself accepted unchanged.
\<close>

theorem C10_sanitizeColor_idempotent:
  "sanitize_twice v = sanitizeColor v"
proof (cases v rule: sanitizeColor_cases)
  case dflt
  then show ?thesis by (simp add: sanitize_twice_def sanitizeColor_default)
next
  case (same s)
  then show ?thesis by (simp add: sanitize_twice_def)
next
  case (named s)
  then have "sanitizeColor (JSString (toLowerCase s)) = Inr (toLowerCase s)"
    using sanitizeColor_named by (simp add: list_all_iff)
  with named show ?thesis by (simp add: sanitize_twice_def)
qed

lemma not_accepted_empty: "\<not> is_hex_color []" "\<not> is_rgb_value []" "\<not> is_rgba_value []"
  by (auto simp: is_hex_color_def is_rgb_value_def rgb_shape_def is_rgba_value_def rgba_shape_def)

lemma toLowerCase_Nil: "toLowerCase [] \<notin> set namedColors"
  by (simp add: toLowerCase_def namedColors_def)

text \<open>
  C8: for every input value \<open>sanitizeColor\<close> returns normally (it never throws), and
  what it returns is the input itself when that is a 3- or 6-digit hex colour, an
  \<open>rgb()\<close> value whose three components are at most 255, or an \<open>rgba()\<close> value whose
  components are at most 255 and whose alpha is at most 1; the lower-cased input when
  that is one of the sixteen named colours; and the default \<open>#fff3cd\<close> for every other
  input, strings and non-strings alike.
\<close>

theorem C8_sanitizeColor_allow_list:
  "sanitizeColor v = Inr (sanitize_spec v)"
proof (cases "typeof_is_string v")
  case False
  then show ?thesis
    by (cases v) (simp_all add: sanitizeColor_other sanitize_spec_def)
next
  case True
  then obtain s where v: "v = JSString s" by (cases v) auto
  show ?thesis
  proof (cases "s = []")
    case True
    then show ?thesis
      unfolding v sanitizeColor_string sanitize_spec_def
      using not_accepted_empty toLowerCase_Nil by simp
  next
    case False
    then show ?thesis
      unfolding v sanitizeColor_string sanitize_spec_def hex_accept_iff rgb_accept_iff rgba_accept_iff
      by simp
  qed
qed

text \<open>C8 at an accepted \<open>rgba()\<close> value, at a rejected string and at \<open>null\<close>.\<close>

theorem C8_sanitizeColor_allow_list_witness:
  "sanitizeColor (JSString ''rgba(12, 200,7 , 0.5)'') = Inr ''rgba(12, 200,7 , 0.5)'' \<and>
   sanitize_spec (JSString ''rgba(12, 200,7 , 0.5)'') = ''rgba(12, 200,7 , 0.5)'' \<and>
   sanitizeColor (JSString ''url(javascript:alert(1))'') = Inr ''#fff3cd'' \<and>
   sanitize_spec (JSString ''url(javascript:alert(1))'') = ''#fff3cd'' \<and>
   sanitizeColor JSNull = Inr ''#fff3cd''"
proof -
  have a: "sanitizeColor (JSString ''rgba(12, 200,7 , 0.5)'') = Inr ''rgba(12, 200,7 , 0.5)''"
    by code_simp
  have b: "sanitizeColor (JSString ''url(javascript:alert(1))'') = Inr ''#fff3cd''"
    by code_simp
  have c: "sanitizeColor JSNull = Inr ''#fff3cd''"
    by code_simp
  from a b c C8_sanitizeColor_allow_list [of "JSString ''rgba(12, 200,7 , 0.5)''"]
    C8_sanitizeColor_allow_list [of "JSString ''url(javascript:alert(1))''"]
  show ?thesis by simp
qed

subsection \<open>C9: cancelling an edit session\<close>


lemma map_get_delete: "map_get (map_delete m k) k = None"
  by (induction m) (auto simp: map_get_def map_delete_def)

lemma map_get_set: "map_get (map_set m k v) k = Some v"
proof (cases "map_has m k")
  case False
  then show ?thesis
    unfolding map_get_def map_set_def map_has_def
    by (simp add: map_add_def map_of_eq_None_iff [THEN iffD2])
next
  case True
  have "k \<in> fst ` set m \<Longrightarrow>
      map_of (map (\<lambda>(k', v'). if k' = k then (k', v) else (k', v')) m) k = Some v"
    by (induction m) auto
  with True show ?thesis unfolding map_get_def map_set_def map_has_def by simp
qed

lemma map_get_has: "map_get m k = Some v \<Longrightarrow> map_has m k"
  unfolding map_get_def map_has_def by (auto dest: map_of_SomeD intro: rev_image_eqI)


lemma autoSaveNote_timers_recorded:
  assumes "timers_recorded w noteId" "map_get (autosaveTimeouts (estate w)) noteId \<noteq> Some 0"
  shows "timers_recorded (autoSaveNote w noteId content) noteId"
  using assms
  unfolding timers_recorded_def autoSaveNote_def setTimeout_def clearTimeout_def Let_def
  by (auto simp: list_all_iff map_get_set split: option.splits)




subsection \<open>C2: the text-span locator\<close>

lemma indexOf_Some_iff:
  "indexOf hay needle = Some i \<longleftrightarrow>
     i \<le> length hay \<and> prefix needle (drop i hay) \<and> (\<forall>j<i. \<not> prefix needle (drop j hay))"
proof (induction hay arbitrary: i)
  case Nil
  then show ?case by auto
next
  case (Cons c hay)
  show ?case
  proof (cases "prefix needle (c # hay)")
    case True
    then show ?thesis by (cases i) auto
  next
    case False
    show ?thesis
    proof (cases i)
      case 0
      with False show ?thesis by simp
    next
      case (Suc k)
      have "(\<forall>j<Suc k. \<not> prefix needle (drop j (c # hay))) \<longleftrightarrow> (\<forall>j<k. \<not> prefix needle (drop j hay))"
        using False by (auto simp: less_Suc_eq_0_disj)
      with False Suc Cons.IH [of k] show ?thesis by auto
    qed
  qed
qed

lemma indexOf_prefix: "prefix needle hay \<Longrightarrow> indexOf hay needle = Some 0"
  by (cases hay) auto

lemma includes_iff: "str_includes hay needle \<longleftrightarrow> (\<exists>p s. hay = p @ needle @ s)"
proof
  assume "str_includes hay needle"
  then obtain i where "indexOf hay needle = Some i" unfolding str_includes_def by auto
  then have "prefix needle (drop i hay)" unfolding indexOf_Some_iff by simp
  then obtain s where "drop i hay = needle @ s" unfolding prefix_def by blast
  then have "hay = take i hay @ needle @ s" by (metis append_take_drop_id)
  then show "\<exists>p s. hay = p @ needle @ s" by blast
next
  assume "\<exists>p s. hay = p @ needle @ s"
  then obtain p s where h: "hay = p @ needle @ s" by blast
  have "indexOf (p @ needle @ s) needle \<noteq> None"
  proof (induction p)
    case Nil
    show ?case using indexOf_prefix [of needle "needle @ s"] by simp
  next
    case (Cons a p)
    then show ?case by auto
  qed
  then show "str_includes hay needle" unfolding str_includes_def h .
qed

lemma includes_context: "str_includes hay (b @ t @ a) \<Longrightarrow> str_includes hay t"
proof -
  assume "str_includes hay (b @ t @ a)"
  then obtain p s where "hay = p @ (b @ t @ a) @ s" unfolding includes_iff by blast
  then have "hay = (p @ b) @ t @ (a @ s)" by simp
  then show ?thesis unfolding includes_iff by blast
qed

lemma findText_loop_result:
  "findText_loop nodes i text b a =
     (case find (\<lambda>n. str_includes n text) nodes of
        None \<Rightarrow> None
      | Some n \<Rightarrow>
          Some (i + length (takeWhile (\<lambda>n. \<not> str_includes n text) nodes),
                if str_includes n (b @ text @ a)
                then the (indexOf n (b @ text @ a)) + length b
                else the (indexOf n text)))"
proof (induction nodes arbitrary: i)
  case Nil
  show ?case by simp
next
  case (Cons n nodes)
  show ?case
  proof (cases "str_includes n text")
    case True
    then show ?thesis by (simp add: Let_def)
  next
    case False
    then have "\<not> str_includes n (b @ text @ a)" using includes_context by blast
    with False Cons.IH [of "Suc i"] show ?thesis by (simp add: Let_def split: option.splits)
  qed
qed

text \<open>
  C2, as stated, fails: the paragraph has the text nodes \<open>hello\<close> and
  \<open>say hello today\<close>.  The second contains the whole context \<open>say hello today\<close>, yet
  the locator returns the bare match at offset 0 of the first node, because the bare
  test runs on every node before the next node is looked at.
\<close>

theorem C2_counterexample:
  "str_includes (text_nodes repeated_para ! 1) (''say '' @ ''hello'' @ '' today'') \<and>
   findTextInElement repeated_para ''hello'' ''say '' '' today'' = Some (0, 0) \<and>
   \<not> str_includes (text_nodes repeated_para ! 0) (''say '' @ ''hello'' @ '' today'')"
  by (simp add: str_includes_def findTextInElement_def repeated_para_def Let_def)

text \<open>
  C2 (amended): \<open>findTextInElement\<close> settles on the first text node, in traversal
  order, that contains \<open>text\<close>.  If that node contains the concatenation
  \<open>contextBefore + text + contextAfter\<close> the result is that context-qualified match, with
  offset equal to the match index plus the length of \<open>contextBefore\<close>; otherwise it is
  the first bare occurrence of \<open>text\<close> in that node.  The result is \<open>null\<close> exactly when no
  text node contains \<open>text\<close>.  A context-qualified match in a later node is not preferred
  over a bare match in an earlier one.
\<close>

theorem C2_findTextInElement:
  "findTextInElement element text contextBefore contextAfter =
     (case find (\<lambda>n. str_includes n text) (text_nodes element) of
        None \<Rightarrow> None
      | Some n \<Rightarrow>
          Some (length (takeWhile (\<lambda>n. \<not> str_includes n text) (text_nodes element)),
                if str_includes n (contextBefore @ text @ contextAfter)
                then the (indexOf n (contextBefore @ text @ contextAfter)) + length contextBefore
                else the (indexOf n text)))"
  unfolding findTextInElement_def findText_loop_result by (simp split: option.splits)

text \<open>The amended C2 on a paragraph with one text node, with and without context.\<close>

theorem C2_findTextInElement_witness:
  "findTextInElement plain_para ''hello'' ''say '' '' today'' = Some (0, 7) \<and>
   findTextInElement plain_para ''hello'' ''said '' '' today'' = Some (0, 7) \<and>
   findTextInElement plain_para ''hello'' ''today, '' [] = Some (0, 20) \<and>
   findTextInElement repeated_para ''hello'' ''say '' '' today'' = Some (0, 0) \<and>
   findTextInElement plain_para ''bye'' [] [] = None"
  using C2_findTextInElement [of plain_para "''hello''" "''say ''" "'' today''"]
  by (simp add: str_includes_def findTextInElement_def plain_para_def repeated_para_def Let_def)

subsection \<open>C1 and C5: selector generation and the resolver\<close>

lemma find_SomeD: "find P xs = Some x \<Longrightarrow> x \<in> set xs \<and> P x"
  by (induction xs) (auto split: if_splits)

lemma chain_id_in_document:
  "chain \<in> set (element_chains doc) \<Longrightarrow> chain_id chain = Some n \<Longrightarrow> document_contains doc n"
  unfolding document_contains_def by force

lemma attached_result_contained:
  "attached_result doc answer = Inr (Some n) \<Longrightarrow> document_contains doc n"
  unfolding attached_result_def by (auto split: sum.splits option.splits if_splits)

lemma querySelector_contained:
  "querySelector b doc sel = Inr (Some n) \<Longrightarrow> document_contains doc n"
  unfolding querySelector_def
  by (auto split: css_selector.splits if_splits option.splits
      dest!: find_SomeD intro: chain_id_in_document attached_result_contained)

lemma xpath_evaluate_contained:
  "xpath_evaluate b doc x = Inr (Some n) \<Longrightarrow> document_contains doc n"
  unfolding xpath_evaluate_def
  by (auto split: xpath_expr.splits if_splits option.splits
      dest!: find_SomeD intro: chain_id_in_document attached_result_contained)

lemma map_get_cacheElement: "map_get (cacheElement c k v) k = Some v"
  unfolding cacheElement_def Let_def by (simp add: map_get_set)

text \<open>
  C5: for every browser, every document, every state of the element cache and every
  selector pair, \<open>findElementBySelector\<close> returns \<open>null\<close> or an element that is attached to
  the document at the time of the call.  So once the element cached under a pair has
  been detached, no later call with that pair returns it; and the call deletes the stale
  entry: after it the cache no longer maps the pair's key to the detached node.
\<close>

theorem C5_findElementBySelector_attached:
  "(\<forall>el. fst (findElementBySelector b doc elementCache selector) = Some el \<longrightarrow>
      document_contains doc el) \<and>
   (\<forall>sel stale. selector = Some sel \<and> map_get elementCache (cache_key sel) = Some stale \<and>
      \<not> document_contains doc stale \<longrightarrow>
      fst (findElementBySelector b doc elementCache selector) \<noteq> Some stale \<and>
      map_get (snd (findElementBySelector b doc elementCache selector)) (cache_key sel) \<noteq> Some stale)"
proof (intro conjI allI impI)
  fix el
  assume "fst (findElementBySelector b doc elementCache selector) = Some el"
  then show "document_contains doc el"
    unfolding findElementBySelector_def Let_def
    by (auto split: option.splits if_splits sum.splits
        dest: querySelector_contained xpath_evaluate_contained)
next
  fix sel stale
  assume a: "selector = Some sel \<and> map_get elementCache (cache_key sel) = Some stale \<and>
      \<not> document_contains doc stale"
  have c: "\<And>el. fst (findElementBySelector b doc elementCache selector) = Some el \<Longrightarrow>
      document_contains doc el"
    unfolding findElementBySelector_def Let_def
    by (auto split: option.splits if_splits sum.splits
        dest: querySelector_contained xpath_evaluate_contained)
  from a c show "fst (findElementBySelector b doc elementCache selector) \<noteq> Some stale" by blast
  from a have h: "map_has elementCache (cache_key sel)" using map_get_has by fast
  from a h show "map_get (snd (findElementBySelector b doc elementCache selector)) (cache_key sel) \<noteq> Some stale"
    unfolding findElementBySelector_def Let_def
    by (auto simp: map_get_cacheElement map_get_delete split: option.splits if_splits sum.splits
        dest: querySelector_contained xpath_evaluate_contained)
qed

text \<open>
  C5 on the page from which the inner \<open>div\<close> was removed while the cache still held its
  paragraph (node 7) under the key of \<open>div > p\<close>.
\<close>

theorem C5_findElementBySelector_attached_witness:
  "map_get stale_cache (cache_key outer_p_selector) = Some 7 \<and>
   \<not> document_contains page_after_removal 7 \<and>
   findElementBySelector strict_browser page_after_removal stale_cache (Some outer_p_selector)
     = (Some 9, [(''div > p_//div[1]/p[1]'', 9)]) \<and>
   document_contains page_after_removal 9"
proof -
  have e: "findElementBySelector strict_browser page_after_removal stale_cache (Some outer_p_selector)
     = (Some 9, [(''div > p_//div[1]/p[1]'', 9)])"
    by code_simp
  have k: "map_get stale_cache (cache_key outer_p_selector) = Some 7"
    by code_simp
  have n: "\<not> document_contains page_after_removal 7"
    by code_simp
  from C5_findElementBySelector_attached
    [of strict_browser page_after_removal stale_cache "Some outer_p_selector"] e
  have "document_contains page_after_removal 9" by simp
  with e k n show ?thesis by simp
qed

text \<open>
  C1, as stated, fails.  On the page with a second \<open>div\<close> beside \<open>body\<close>, all three
  identity checks of \<open>generateOptimalSelector\<close> fail for the paragraph in that \<open>div\<close>
  (node 9): \<open>div > p\<close>, \<open>//div[1]/p[1]\<close> and \<open>div:nth-child(3) > p:nth-child(1)\<close> all
  find the paragraph inside \<open>body\<close> first.  The generator returns its unvalidated
  selectors and the resolver, from an empty cache, returns node 7.  And with a validated
  selector the resolver still returns another element when the cache holds that
  element, attached, under the generated key.  And below an element whose tag is \<open>x:y\<close>
  the first query of the generator throws, the generator returns the null pair and the
  resolver returns \<open>null\<close>.
\<close>

theorem C1_counterexample:
  "outer_p_chain \<in> set (element_chains page) \<and>
   chain_id outer_p_chain = Some 9 \<and>
   \<not> same_node outer_p page \<and>
   generateOptimalSelector strict_browser page (Some outer_p_chain) = outer_p_selector \<and>
   fst (findElementBySelector strict_browser page []
          (Some (generateOptimalSelector strict_browser page (Some outer_p_chain)))) = Some 7 \<and>
   inner_p_chain \<in> set (element_chains page) \<and>
   chain_id inner_p_chain = Some 7 \<and>
   fst (findElementBySelector strict_browser page crossed_cache
          (Some (generateOptimalSelector strict_browser page (Some inner_p_chain)))) = Some 9 \<and>
   prefixed_p_chain \<in> set (element_chains prefixed_page) \<and>
   chain_id prefixed_p_chain = Some 5 \<and>
   generateOptimalSelector strict_browser prefixed_page (Some prefixed_p_chain)
     = \<lparr> sel_css = None, sel_xpath = None \<rparr> \<and>
   fst (findElementBySelector strict_browser prefixed_page []
          (Some (generateOptimalSelector strict_browser prefixed_page (Some prefixed_p_chain))))
     = None"
proof -
  have 1: "outer_p_chain \<in> set (element_chains page)" by code_simp
  have 2: "chain_id outer_p_chain = Some 9" by code_simp
  have 3: "\<not> same_node outer_p page" by code_simp
  have 4: "generateOptimalSelector strict_browser page (Some outer_p_chain) = outer_p_selector"
    by code_simp
  have 5: "fst (findElementBySelector strict_browser page [] (Some outer_p_selector)) = Some 7"
    by code_simp
  have 6: "inner_p_chain \<in> set (element_chains page)" by code_simp
  have 7: "chain_id inner_p_chain = Some 7" by code_simp
  have 8: "generateOptimalSelector strict_browser page (Some inner_p_chain) = inner_p_selector"
    by code_simp
  have 9: "fst (findElementBySelector strict_browser page crossed_cache (Some inner_p_selector)) = Some 9"
    by code_simp
  have 10: "prefixed_p_chain \<in> set (element_chains prefixed_page)" by code_simp
  have 11: "chain_id prefixed_p_chain = Some 5" by code_simp
  have 12: "generateOptimalSelector strict_browser prefixed_page (Some prefixed_p_chain)
     = \<lparr> sel_css = None, sel_xpath = None \<rparr>"
    by code_simp
  have 13: "fst (findElementBySelector strict_browser prefixed_page []
      (Some \<lparr> sel_css = None, sel_xpath = None \<rparr>)) = None"
    by code_simp
  show ?thesis unfolding 4 8 12 using 1 2 3 5 6 7 9 10 11 13 by simp
qed

lemma css_finds_not_throws: "css_finds b doc css chain \<Longrightarrow> \<not> css_throws b doc css"
  unfolding css_finds_def css_throws_def by (auto split: sum.splits)

lemma resolve_by_css:
  assumes "css_finds b doc css chain"
    and "case map_get cache (cache_key \<lparr> sel_css = css, sel_xpath = x \<rparr>) of
           None \<Rightarrow> True
         | Some el \<Rightarrow> \<not> document_contains doc el \<or> Some el = chain_id chain"
  shows "fst (findElementBySelector b doc cache (Some \<lparr> sel_css = css, sel_xpath = x \<rparr>)) = chain_id chain"
  using assms unfolding findElementBySelector_def css_finds_def Let_def
  by (auto split: option.splits sum.splits)

lemma resolve_by_xpath:
  assumes "xpath_finds b doc x chain"
    and "case map_get cache (cache_key \<lparr> sel_css = None, sel_xpath = x \<rparr>) of
           None \<Rightarrow> True
         | Some el \<Rightarrow> \<not> document_contains doc el \<or> Some el = chain_id chain"
  shows "fst (findElementBySelector b doc cache (Some \<lparr> sel_css = None, sel_xpath = x \<rparr>)) = chain_id chain"
  using assms unfolding findElementBySelector_def xpath_finds_def Let_def
  by (auto simp: css_truthy_def split: option.splits sum.splits)

text \<open>
  C1 (amended): for every element attached to the document, other than the document
  root, for which one of the identity checks that \<open>generateOptimalSelector\<close> makes
  succeeds (the CSS selector finds exactly this element; or the query for it does not
  throw and the XPath or the robust CSS selector finds exactly this element), and with
  no DOM mutation between the two calls, \<open>findElementBySelector\<close> applied to the
  generated pair returns this very element, provided the element cache does not hold a
  different attached element under the key of the generated pair.  This holds whatever
  the browser answers to selector texts with tag names that are not plain.
\<close>

theorem C1_round_trip_when_validated:
  assumes "chain \<in> set (element_chains doc)"
    and "chain_id chain \<noteq> node_id doc"
    and "css_finds b doc (generateCSSSelector doc (Some chain)) chain \<or>
         \<not> css_throws b doc (generateCSSSelector doc (Some chain)) \<and>
         (xpath_finds b doc (generateXPath doc (Some chain)) chain \<or>
          css_finds b doc (generateRobustCSSSelector doc (Some chain)) chain)"
    and "case map_get elementCache (cache_key (generateOptimalSelector b doc (Some chain))) of
           None \<Rightarrow> True
         | Some el \<Rightarrow> \<not> document_contains doc el \<or> Some el = chain_id chain"
  shows "fst (findElementBySelector b doc elementCache
               (Some (generateOptimalSelector b doc (Some chain)))) = chain_id chain"
proof -
  let ?css = "generateCSSSelector doc (Some chain)"
  let ?x = "generateXPath doc (Some chain)"
  let ?r = "generateRobustCSSSelector doc (Some chain)"
  show ?thesis
  proof (cases "css_finds b doc ?css chain")
    case True
    then have g: "generateOptimalSelector b doc (Some chain) = \<lparr> sel_css = ?css, sel_xpath = ?x \<rparr>"
      unfolding generateOptimalSelector_def Let_def using css_finds_not_throws [OF True] by simp
    show ?thesis using resolve_by_css [OF True] assms(4) unfolding g by simp
  next
    case ncss: False
    then have nt: "\<not> css_throws b doc ?css" using assms(3) by blast
    show ?thesis
    proof (cases "xpath_finds b doc ?x chain")
      case True
      then have g: "generateOptimalSelector b doc (Some chain) = \<lparr> sel_css = None, sel_xpath = ?x \<rparr>"
        unfolding generateOptimalSelector_def Let_def using nt ncss by simp
      show ?thesis using resolve_by_xpath [OF True] assms(4) unfolding g by simp
    next
      case False
      with ncss assms(3) have r: "css_finds b doc ?r chain" by blast
      then have g: "generateOptimalSelector b doc (Some chain) = \<lparr> sel_css = ?r, sel_xpath = ?x \<rparr>"
        unfolding generateOptimalSelector_def Let_def
        using nt ncss False css_finds_not_throws [OF r] by simp
      show ?thesis using resolve_by_css [OF r] assms(4) unfolding g by simp
    qed
  qed
qed

text \<open>The amended C1 for the paragraph inside \<open>body\<close>, with an empty cache.\<close>

theorem C1_round_trip_when_validated_witness:
  "inner_p_chain \<in> set (element_chains page) \<and>
   chain_id inner_p_chain \<noteq> node_id page \<and>
   css_finds strict_browser page (generateCSSSelector page (Some inner_p_chain)) inner_p_chain \<and>
   map_get [] (cache_key (generateOptimalSelector strict_browser page (Some inner_p_chain)))
     = (None :: nat option) \<and>
   fst (findElementBySelector strict_browser page []
          (Some (generateOptimalSelector strict_browser page (Some inner_p_chain))))
     = Some 7"
proof -
  have a: "inner_p_chain \<in> set (element_chains page)" by code_simp
  have b: "chain_id inner_p_chain \<noteq> node_id page" by code_simp
  have g: "generateCSSSelector page (Some inner_p_chain) = sel_css inner_p_selector" by code_simp
  have c0: "css_finds strict_browser page (sel_css inner_p_selector) inner_p_chain" by code_simp
  have c: "css_finds strict_browser page (generateCSSSelector page (Some inner_p_chain)) inner_p_chain"
    unfolding g by (rule c0)
  have d: "map_get [] (cache_key (generateOptimalSelector strict_browser page (Some inner_p_chain)))
      = (None :: nat option)"
    by (simp add: map_get_def)
  have e: "chain_id inner_p_chain = Some 7" by code_simp
  from C1_round_trip_when_validated [of inner_p_chain page strict_browser "[]", OF a b] c d e
  show ?thesis using a b by simp
qed

subsection \<open>C6: text highlights\<close>

lemma textContent_Element:
  "textContent (ElementNode n tg i c children) = concat (map textContent children)"
  unfolding textContent_def by (induction children) auto

lemma textContent_Text: "textContent (TextNode s) = s"
  unfolding textContent_def by simp

lemma merge_text_textContent:
  "concat (map textContent (merge_text ns)) = concat (map textContent ns)"
proof (induction ns rule: merge_text.induct)
  case 1
  show ?case by simp
next
  case (2 a rest)
  then show ?case
    by (cases "merge_text rest" rule: merge_text.cases)
       (auto simp: textContent_Text textContent_Element)
next
  case (3 n tg i c children rest)
  then show ?case by simp
qed

lemma normalize_textContent: "textContent (normalize d) = textContent d"
proof (induction d)
  case (TextNode s)
  show ?case by simp
next
  case (ElementNode n tg i c children)
  then have "map textContent (map normalize children) = map textContent children" by simp
  then show ?case
    by (simp add: textContent_Element merge_text_textContent del: map_map)
qed

lemma unwrap_textContent: "textContent (unwrap w d) = textContent d"
proof (induction d)
  case (TextNode s)
  show ?case by simp
next
  case (ElementNode n tg i c children)
  have a: "map textContent (map (unwrap w) children) = map textContent children"
    using ElementNode by simp
  have b: "map textContent
             (map (\<lambda>ch. if node_id ch = Some w then TextNode (textContent ch) else ch) children)
           = map textContent children"
    by (simp add: textContent_Text)
  show ?case
  proof (cases "list_ex (\<lambda>ch. node_id ch = Some w) children")
    case True
    then have "textContent (unwrap w (ElementNode n tg i c children))
               = textContent (ElementNode n tg i c
                   (map (\<lambda>ch. if node_id ch = Some w then TextNode (textContent ch) else ch)
                      children))"
      by (simp add: normalize_textContent del: normalize.simps)
    then show ?thesis using b by (simp add: textContent_Element del: map_map)
  next
    case False
    then show ?thesis using a by (simp add: textContent_Element del: map_map)
  qed
qed

lemma splice_nodes_textContent:
  assumes "\<And>s. concat (map textContent (f s)) = s"
  shows "concat (map textContent (splice_nodes k f ns)) = concat (map textContent ns)"
  using assms
proof (induction k f ns rule: splice_nodes.induct)
  case (1 k f)
  show ?case by simp
next
  case (2 k f s rest)
  then show ?case by (simp add: textContent_Text)
next
  case (3 k f n tg i c children rest)
  then show ?case by (simp add: textContent_Element Let_def)
qed

lemma splice_in_textContent:
  assumes "\<And>s. concat (map textContent (f s)) = s"
  shows "textContent (splice_in k f d) = textContent d"
  by (cases d) (simp_all add: textContent_Element splice_nodes_textContent [OF assms])

lemma update_element_textContent:
  assumes "\<And>x. textContent (g x) = textContent x"
  shows "textContent (update_element t g d) = textContent d"
proof (induction d)
  case (TextNode s)
  show ?case by simp
next
  case (ElementNode n tg i c children)
  then have "map textContent (map (update_element t g) children) = map textContent children"
    by simp
  then show ?case using assms by (simp add: textContent_Element del: map_map)
qed

lemma highlight_fragment_textContent:
  "concat (map textContent (highlight_fragment h off len s)) = s"
proof -
  have "take len (drop off s) @ drop (off + len) s = drop off s"
    by (metis add.commute append_take_drop_id drop_drop)
  then have "take off s @ take len (drop off s) @ drop (off + len) s = s" by simp
  then show ?thesis
    unfolding highlight_fragment_def by (simp add: textContent_Text textContent_Element)
qed

lemma removeTextHighlight_textContent:
  "textContent (hw_document (snd (removeTextHighlight w noteId))) = textContent (hw_document w)"
  unfolding removeTextHighlight_def by (simp add: unwrap_textContent split: option.splits)

lemma cleanupHighlights_textContent:
  "textContent (hw_document (cleanupHighlights w)) = textContent (hw_document w)"
proof -
  have "textContent (hw_document (foldl (\<lambda>w' noteId. snd (removeTextHighlight w' noteId)) w ks))
        = textContent (hw_document w)" for ks
    by (induction ks arbitrary: w) (simp_all add: removeTextHighlight_textContent)
  then show ?thesis unfolding cleanupHighlights_def by (simp add: Let_def)
qed

lemma createTextHighlight_textContent:
  "textContent (hw_document (snd (createTextHighlight w noteData backgroundColor)))
   = textContent (hw_document w)"
  unfolding createTextHighlight_def
  by (simp add: Let_def cleanupHighlights_textContent removeTextHighlight_textContent
        update_element_textContent splice_in_textContent highlight_fragment_textContent
      split: option.splits prod.splits sum.splits)

lemma merge_text_element_texts:
  "concat (map element_texts (merge_text ns)) = concat (map element_texts ns)"
proof (induction ns rule: merge_text.induct)
  case 1
  show ?case by simp
next
  case (2 a rest)
  then show ?case by (cases "merge_text rest" rule: merge_text.cases) auto
next
  case (3 n tg i c children rest)
  then show ?case by simp
qed

lemma normalize_element_texts: "element_texts (normalize d) = element_texts d"
proof (induction d)
  case (TextNode s)
  show ?case by simp
next
  case (ElementNode n tg i c children)
  have a: "map element_texts (map normalize children) = map element_texts children"
    using ElementNode by simp
  have "textContent (normalize (ElementNode n tg i c children))
        = textContent (ElementNode n tg i c children)"
    by (rule normalize_textContent)
  then show ?case using a by (simp add: merge_text_element_texts del: map_map)
qed

lemma unwrap_element_texts: "set (element_texts (unwrap w d)) \<subseteq> set (element_texts d)"
proof (induction d)
  case (TextNode s)
  show ?case by simp
next
  case (ElementNode n tg i c children)
  let ?e = "ElementNode n tg i c children"
  have t: "textContent (unwrap w ?e) = textContent ?e" by (rule unwrap_textContent)
  show ?case
  proof (cases "list_ex (\<lambda>ch. node_id ch = Some w) children")
    case True
    let ?r = "\<lambda>ch. if node_id ch = Some w then TextNode (textContent ch) else ch"
    have u: "unwrap w ?e = normalize (ElementNode n tg i c (map ?r children))"
      using True by simp
    have "set (concat (map element_texts (map ?r children)))
          \<subseteq> set (concat (map element_texts children))"
      by (auto split: if_splits)
    moreover have "textContent (ElementNode n tg i c (map ?r children)) = textContent ?e"
      using t unfolding u normalize_textContent .
    then have "element_texts (unwrap w ?e)
        = (n, textContent ?e) # concat (map element_texts (map ?r children))"
      unfolding u normalize_element_texts by simp
    ultimately show ?thesis by auto
  next
    case False
    then have u: "unwrap w ?e = ElementNode n tg i c (map (unwrap w) children)" by simp
    have "set (concat (map element_texts (map (unwrap w) children)))
          \<subseteq> set (concat (map element_texts children))"
      using ElementNode by auto
    moreover have "element_texts (unwrap w ?e)
        = (n, textContent ?e) # concat (map element_texts (map (unwrap w) children))"
      using t unfolding u by simp
    ultimately show ?thesis by auto
  qed
qed

lemma splice_nodes_element_texts:
  assumes "\<And>s. set (concat (map element_texts (f s))) \<subseteq> H"
    and "\<And>s. concat (map textContent (f s)) = s"
  shows "set (concat (map element_texts (splice_nodes k f ns)))
         \<subseteq> set (concat (map element_texts ns)) \<union> H"
  using assms
proof (induction k f ns rule: splice_nodes.induct)
  case (1 k f)
  show ?case by simp
next
  case (2 k f s rest)
  show ?case
  proof (cases "k = 0")
    case True
    then show ?thesis using "2.prems"(1) [of s] by auto
  next
    case False
    then show ?thesis using "2.IH" "2.prems" by auto
  qed
next
  case (3 k f n tg i c children rest)
  have "textContent (ElementNode n tg i c (splice_nodes k f children))
        = textContent (ElementNode n tg i c children)"
    using splice_nodes_textContent [of f k children] 3(4) by (simp add: textContent_Element)
  then show ?case using 3 by (auto simp: Let_def)
qed

lemma splice_in_element_texts:
  assumes "\<And>s. set (concat (map element_texts (f s))) \<subseteq> H"
    and "\<And>s. concat (map textContent (f s)) = s"
  shows "set (element_texts (splice_in k f d)) \<subseteq> set (element_texts d) \<union> H"
proof (cases d)
  case (TextNode s)
  then show ?thesis by simp
next
  case (ElementNode n tg i c children)
  have "textContent (splice_in k f d) = textContent d"
    by (rule splice_in_textContent) (rule assms(2))
  then show ?thesis
    using splice_nodes_element_texts [of f H k children, OF assms] ElementNode by auto
qed

lemma update_element_element_texts:
  assumes "\<And>x. set (element_texts (g x)) \<subseteq> set (element_texts x) \<union> H"
    and "\<And>x. textContent (g x) = textContent x"
  shows "set (element_texts (update_element t g d)) \<subseteq> set (element_texts d) \<union> H"
proof (induction d)
  case (TextNode s)
  show ?case by simp
next
  case (ElementNode n tg i c children)
  let ?e = "ElementNode n tg i c children"
  show ?case
  proof (cases "n = t")
    case True
    then show ?thesis using assms(1) [of ?e] by simp
  next
    case False
    have "textContent (update_element t g ?e) = textContent ?e"
      by (rule update_element_textContent) (rule assms(2))
    then have "element_texts (update_element t g ?e)
        = (n, textContent ?e) # concat (map element_texts (map (update_element t g) children))"
      using False by simp
    moreover have "set (concat (map element_texts (map (update_element t g) children)))
          \<subseteq> set (concat (map element_texts children)) \<union> H"
      using ElementNode by auto
    ultimately show ?thesis by auto
  qed
qed

lemma highlight_fragment_element_texts:
  "set (concat (map element_texts (highlight_fragment h off len s))) \<subseteq> {(n, x). b \<le> n}"
  if "b \<le> h"
  using that unfolding highlight_fragment_def by simp

text \<open>Elements that existed before a call keep their text content.\<close>

lemma removeTextHighlight_element_texts:
  "set (element_texts (hw_document (snd (removeTextHighlight w noteId))))
     \<subseteq> set (element_texts (hw_document w))"
  "hw_next_id (snd (removeTextHighlight w noteId)) = hw_next_id w"
  unfolding removeTextHighlight_def
  using unwrap_element_texts by (auto split: option.splits)

lemma cleanupHighlights_element_texts:
  "set (element_texts (hw_document (cleanupHighlights w))) \<subseteq> set (element_texts (hw_document w))"
  "hw_next_id (cleanupHighlights w) = hw_next_id w"
proof -
  have "set (element_texts (hw_document (foldl (\<lambda>w' noteId. snd (removeTextHighlight w' noteId)) w ks)))
          \<subseteq> set (element_texts (hw_document w))
        \<and> hw_next_id (foldl (\<lambda>w' noteId. snd (removeTextHighlight w' noteId)) w ks) = hw_next_id w"
    for ks
  proof (induction ks arbitrary: w)
    case Nil
    show ?case by simp
  next
    case (Cons k ks)
    show ?case
      using Cons [of "snd (removeTextHighlight w k)"] removeTextHighlight_element_texts [of w k]
      by auto
  qed
  then show
    "set (element_texts (hw_document (cleanupHighlights w))) \<subseteq> set (element_texts (hw_document w))"
    "hw_next_id (cleanupHighlights w) = hw_next_id w"
    unfolding cleanupHighlights_def by (simp_all add: Let_def)
qed

lemma createTextHighlight_element_texts:
  assumes "b \<le> hw_next_id w"
  shows "set (element_texts (hw_document (snd (createTextHighlight w noteData backgroundColor))))
           \<subseteq> set (element_texts (hw_document w)) \<union> {(n, x). b \<le> n}
         \<and> b \<le> hw_next_id (snd (createTextHighlight w noteData backgroundColor))"
proof -
  let ?w1 = "snd (removeTextHighlight w (hn_id noteData))"
  have r: "set (element_texts (hw_document ?w1)) \<subseteq> set (element_texts (hw_document w))"
    "hw_next_id ?w1 = hw_next_id w"
    by (rule removeTextHighlight_element_texts)+
  have u: "set (element_texts (update_element t
              (splice_in k (highlight_fragment (hw_next_id w) off len)) (hw_document ?w1)))
           \<subseteq> set (element_texts (hw_document w)) \<union> {(n, x). b \<le> n}" for t k off len
  proof -
    have "set (element_texts (update_element t
              (splice_in k (highlight_fragment (hw_next_id w) off len)) (hw_document ?w1)))
           \<subseteq> set (element_texts (hw_document ?w1)) \<union> {(n, x). b \<le> n}"
      by (intro update_element_element_texts splice_in_element_texts
            highlight_fragment_element_texts assms highlight_fragment_textContent
            splice_in_textContent)
    then show ?thesis using r(1) by blast
  qed
  show ?thesis
    unfolding createTextHighlight_def
    using assms r
    by (auto simp: Let_def cleanupHighlights_element_texts(2)
          dest!: cleanupHighlights_element_texts(1) [THEN subsetD] u [THEN subsetD]
          split: option.splits prod.splits sum.splits)
qed

lemma nth_option_eq: "nth_option xs k = (if k < length xs then Some (xs ! k) else None)"
proof (induction xs arbitrary: k)
  case Nil
  show ?case by simp
next
  case (Cons x xs)
  then show ?case by (cases k) simp_all
qed

lemma find_append_cases:
  "find P (xs @ ys) = (case find P xs of None \<Rightarrow> find P ys | Some x \<Rightarrow> Some x)"
  by (induction xs) simp_all

lemma element_ids_texts: "element_ids d = map fst (element_texts d)"
proof (induction d)
  case (TextNode s)
  show ?case by simp
next
  case (ElementNode n tg i c children)
  then have a: "map (map fst \<circ> element_texts) children = map element_ids children" by simp
  show ?case by (simp add: map_concat a)
qed

lemma normalize_element_ids: "element_ids (normalize d) = element_ids d"
  by (simp add: element_ids_texts normalize_element_texts)

lemma merge_text_highlight_spans:
  "concat (map highlight_spans (merge_text ns)) = concat (map highlight_spans ns)"
proof (induction ns rule: merge_text.induct)
  case 1
  show ?case by simp
next
  case (2 a rest)
  then show ?case by (cases "merge_text rest" rule: merge_text.cases) auto
next
  case (3 n tg i c children rest)
  then show ?case by simp
qed

lemma normalize_highlight_spans: "highlight_spans (normalize d) = highlight_spans d"
proof (induction d)
  case (TextNode s)
  show ?case by simp
next
  case (ElementNode n tg i c children)
  then have "map highlight_spans (map normalize children) = map highlight_spans children"
    by simp
  then show ?case by (simp add: merge_text_highlight_spans del: map_map)
qed

lemma node_id_element_ids: "node_id d = Some n \<Longrightarrow> n \<in> set (element_ids d)"
  by (cases d) auto

lemma node_id_normalize: "node_id (normalize d) = node_id d"
  by (cases d) simp_all

lemma node_id_unwrap: "node_id (unwrap w d) = node_id d"
  by (cases d) simp_all

lemma node_id_splice_in: "node_id (splice_in k f d) = node_id d"
  by (cases d) simp_all

lemma unwrap_absent: "h \<notin> set (element_ids d) \<Longrightarrow> unwrap h d = d"
proof (induction d)
  case (TextNode s)
  show ?case by simp
next
  case (ElementNode n tg i c children)
  then have a: "\<And>x. x \<in> set children \<Longrightarrow> h \<notin> set (element_ids x)" by auto
  then have "\<not> list_ex (\<lambda>ch. node_id ch = Some h) children"
    using node_id_element_ids by (auto simp: list_ex_iff)
  moreover have "map (unwrap h) children = children"
    using a ElementNode.IH by (simp add: map_idI)
  ultimately show ?case by simp
qed

lemma update_element_absent: "t \<notin> set (element_ids d) \<Longrightarrow> update_element t g d = d"
proof (induction d)
  case (TextNode s)
  show ?case by simp
next
  case (ElementNode n tg i c children)
  then have "map (update_element t g) children = children" by (simp add: map_idI)
  then show ?case using ElementNode.prems by simp
qed

text \<open>Where the \<open>k\<close>-th text node of a list of siblings is: among them, or below one of them.\<close>

lemma splice_nodes_cases:
  assumes "nth_option (concat (map text_nodes ns)) k = Some s"
  shows "(\<exists>pre post. ns = pre @ TextNode s # post \<and> splice_nodes k f ns = pre @ f s @ post) \<or>
         (\<exists>pre e post k'. ns = pre @ e # post \<and> e \<in> set ns \<and> node_id e \<noteq> None \<and>
              nth_option (text_nodes e) k' = Some s \<and>
              splice_nodes k f ns = pre @ splice_in k' f e # post)"
  using assms
proof (induction k f ns rule: splice_nodes.induct)
  case (1 k f)
  then show ?case by simp
next
  case (2 k f x rest)
  show ?case
  proof (cases "k = 0")
    case True
    then have "x = s" using "2.prems" by simp
    then have "TextNode x # rest = [] @ TextNode s # rest \<and>
        splice_nodes k f (TextNode x # rest) = [] @ f s @ rest"
      using True by simp
    then show ?thesis by blast
  next
    case False
    then obtain j where j: "k = Suc j" by (cases k) auto
    then have "nth_option (concat (map text_nodes rest)) (k - 1) = Some s"
      using "2.prems" by simp
    from "2.IH" [OF False this] show ?thesis
    proof (elim disjE exE conjE)
      fix pre post
      assume "rest = pre @ TextNode s # post" "splice_nodes (k - 1) f rest = pre @ f s @ post"
      then have "TextNode x # rest = (TextNode x # pre) @ TextNode s # post \<and>
          splice_nodes k f (TextNode x # rest) = (TextNode x # pre) @ f s @ post"
        using False by simp
      then show ?thesis by blast
    next
      fix pre e post k'
      assume "rest = pre @ e # post" "e \<in> set rest" "node_id e \<noteq> None"
        "nth_option (text_nodes e) k' = Some s"
        "splice_nodes (k - 1) f rest = pre @ splice_in k' f e # post"
      then have "TextNode x # rest = (TextNode x # pre) @ e # post \<and>
          e \<in> set (TextNode x # rest) \<and> node_id e \<noteq> None \<and>
          nth_option (text_nodes e) k' = Some s \<and>
          splice_nodes k f (TextNode x # rest) = (TextNode x # pre) @ splice_in k' f e # post"
        using False by simp
      then show ?thesis by blast
    qed
  qed
next
  case (3 k f n tg i c children rest)
  let ?e = "ElementNode n tg i c children"
  let ?m = "length (concat (map text_nodes children))"
  show ?case
  proof (cases "k < ?m")
    case True
    then have "nth_option (text_nodes ?e) k = Some s"
      using "3.prems" by (simp add: nth_option_eq nth_append)
    then have "?e # rest = [] @ ?e # rest \<and> ?e \<in> set (?e # rest) \<and> node_id ?e \<noteq> None \<and>
        nth_option (text_nodes ?e) k = Some s \<and>
        splice_nodes k f (?e # rest) = [] @ splice_in k f ?e # rest"
      using True by simp
    then show ?thesis by blast
  next
    case False
    then have "nth_option (concat (map text_nodes rest)) (k - ?m) = Some s"
      using "3.prems" by (simp add: nth_option_eq nth_append split: if_splits)
    from "3.IH"(2) [OF refl False this] show ?thesis
    proof (elim disjE exE conjE)
      fix pre post
      assume "rest = pre @ TextNode s # post" "splice_nodes (k - ?m) f rest = pre @ f s @ post"
      then have "?e # rest = (?e # pre) @ TextNode s # post \<and>
          splice_nodes k f (?e # rest) = (?e # pre) @ f s @ post"
        using False by simp
      then show ?thesis by blast
    next
      fix pre e post k'
      assume "rest = pre @ e # post" "e \<in> set rest" "node_id e \<noteq> None"
        "nth_option (text_nodes e) k' = Some s"
        "splice_nodes (k - ?m) f rest = pre @ splice_in k' f e # post"
      then have "?e # rest = (?e # pre) @ e # post \<and>
          e \<in> set (?e # rest) \<and> node_id e \<noteq> None \<and>
          nth_option (text_nodes e) k' = Some s \<and>
          splice_nodes k f (?e # rest) = (?e # pre) @ splice_in k' f e # post"
        using False by simp
      then show ?thesis by blast
    qed
  qed
qed

text \<open>Merging text nodes keeps a text that contains \<open>m\<close>.\<close>

lemma includes_append: "str_includes a m \<Longrightarrow> str_includes (p @ a @ q) m"
proof -
  assume "str_includes a m"
  then obtain x y where "a = x @ m @ y" unfolding includes_iff by blast
  then have "p @ a @ q = (p @ x) @ m @ (y @ q)" by simp
  then show ?thesis unfolding includes_iff by blast
qed

lemma includes_append_left: "str_includes a m \<Longrightarrow> str_includes (a @ q) m"
  using includes_append [of a m "[]" q] by simp

lemma includes_append_right: "str_includes a m \<Longrightarrow> str_includes (p @ a) m"
  using includes_append [of a m p "[]"] by simp

lemma includes_Nil: "str_includes [] m \<Longrightarrow> m = []"
  unfolding includes_iff by simp

lemma merge_text_includes:
  assumes "m \<noteq> []" "\<exists>s\<in>set (concat (map text_nodes ns)). str_includes s m"
  shows "\<exists>s\<in>set (concat (map text_nodes (merge_text ns))). str_includes s m"
  using assms(2)
proof (induction ns rule: merge_text.induct)
  case 1
  then show ?case by simp
next
  case (2 a rest)
  show ?case
  proof (cases "str_includes a m")
    case True
    then have "a \<noteq> []" using includes_Nil assms(1) by blast
    then show ?thesis
      using True includes_append_left [OF True]
      by (cases "merge_text rest" rule: merge_text.cases) auto
  next
    case False
    then have "\<exists>s\<in>set (concat (map text_nodes rest)). str_includes s m"
      using "2.prems" by simp
    then have "\<exists>s\<in>set (concat (map text_nodes (merge_text rest))). str_includes s m"
      by (rule "2.IH")
    then show ?thesis
      using includes_append_right
      by (cases "merge_text rest" rule: merge_text.cases) auto
  qed
next
  case (3 n tg i c children rest)
  then show ?case by auto
qed

lemma normalize_includes:
  assumes "m \<noteq> []"
  shows "\<exists>s\<in>set (text_nodes d). str_includes s m \<Longrightarrow>
         \<exists>s\<in>set (text_nodes (normalize d)). str_includes s m"
proof (induction d)
  case (TextNode s)
  then show ?case by simp
next
  case (ElementNode n tg i c children)
  then obtain x s where x: "x \<in> set children" "s \<in> set (text_nodes x)" "str_includes s m"
    by auto
  then have "\<exists>s\<in>set (text_nodes (normalize x)). str_includes s m"
    using ElementNode.IH [of x] by blast
  then have "\<exists>s\<in>set (concat (map text_nodes (map normalize children))). str_includes s m"
    using x(1) by auto
  then have "\<exists>s\<in>set (concat (map text_nodes (merge_text (map normalize children)))).
      str_includes s m"
    by (rule merge_text_includes [OF assms])
  then show ?case by simp
qed

text \<open>Removing the span that was just put around a text gives the tree back, normalized.\<close>

lemma unwrap_splice:
  assumes "h \<notin> set (element_ids e)" "nth_option (text_nodes e) k = Some s"
    "take len (drop off s) \<noteq> []"
  shows "element_ids (unwrap h (splice_in k (highlight_fragment h off len) e)) = element_ids e \<and>
         highlight_spans (unwrap h (splice_in k (highlight_fragment h off len) e))
           = highlight_spans e \<and>
         (\<exists>s'\<in>set (text_nodes (unwrap h (splice_in k (highlight_fragment h off len) e))).
             str_includes s' (take len (drop off s)))"
  using assms(1,2)
proof (induction e arbitrary: k)
  case (TextNode x)
  then have "x = s" by (cases k) simp_all
  moreover have "s = take off s @ take len (drop off s) @ drop (off + len) s"
    using highlight_fragment_textContent [of h off len s]
    unfolding highlight_fragment_def by (simp add: textContent_Text textContent_Element)
  then have "str_includes s (take len (drop off s))" unfolding includes_iff by blast
  ultimately show ?case by simp
next
  case (ElementNode n tg i c children)
  let ?f = "highlight_fragment h off len"
  let ?mid = "take len (drop off s)"
  let ?r = "\<lambda>ch. if node_id ch = Some h then TextNode (textContent ch) else ch"
  have hn: "h \<noteq> n" and hc: "\<And>x. x \<in> set children \<Longrightarrow> h \<notin> set (element_ids x)"
    using ElementNode.prems(1) by auto
  have nid: "\<And>x. x \<in> set children \<Longrightarrow> node_id x \<noteq> Some h"
    using hc node_id_element_ids by blast
  have "nth_option (concat (map text_nodes children)) k = Some s"
    using ElementNode.prems(2) by simp
  from splice_nodes_cases [OF this, of ?f] show ?case
  proof (elim disjE exE conjE)
    fix pre post
    assume ns: "children = pre @ TextNode s # post"
      and sp: "splice_nodes k ?f children = pre @ ?f s @ post"
    have idr: "map ?r pre = pre" "map ?r post = post"
      using nid ns by (auto intro: map_idI)
    have lx: "list_ex (\<lambda>ch. node_id ch = Some h) (pre @ ?f s @ post)"
      unfolding highlight_fragment_def by simp
    have mr: "map ?r (pre @ ?f s @ post)
        = pre @ [TextNode (take off s), TextNode ?mid, TextNode (drop (off + len) s)] @ post"
      using idr unfolding highlight_fragment_def
      by (simp add: textContent_Element textContent_Text)
    let ?x = "ElementNode n tg i c
        (pre @ [TextNode (take off s), TextNode ?mid, TextNode (drop (off + len) s)] @ post)"
    have u: "unwrap h (splice_in k ?f (ElementNode n tg i c children)) = normalize ?x"
      using lx mr unfolding splice_in.simps sp unwrap.simps by simp
    have a: "element_ids (normalize ?x) = element_ids (ElementNode n tg i c children)"
      unfolding normalize_element_ids ns by simp
    have b: "highlight_spans (normalize ?x) = highlight_spans (ElementNode n tg i c children)"
      unfolding normalize_highlight_spans ns by simp
    have "str_includes ?mid ?mid" unfolding includes_iff by (metis append_Nil append_Nil2)
    then have "\<exists>s'\<in>set (text_nodes ?x). str_includes s' ?mid" by simp
    then have "\<exists>s'\<in>set (text_nodes (normalize ?x)). str_includes s' ?mid"
      by (rule normalize_includes [OF assms(3)])
    then show ?thesis unfolding u using a b by blast
  next
    fix pre e post k'
    assume ns: "children = pre @ e # post" and e: "e \<in> set children" "node_id e \<noteq> None"
      and k': "nth_option (text_nodes e) k' = Some s"
      and sp: "splice_nodes k ?f children = pre @ splice_in k' ?f e # post"
    have nl: "\<not> list_ex (\<lambda>ch. node_id ch = Some h) (pre @ splice_in k' ?f e # post)"
      using nid ns by (auto simp: list_ex_iff node_id_splice_in)
    have up: "map (unwrap h) pre = pre" "map (unwrap h) post = post"
      using hc ns by (auto intro: map_idI unwrap_absent)
    have u: "unwrap h (splice_in k ?f (ElementNode n tg i c children))
        = ElementNode n tg i c (pre @ unwrap h (splice_in k' ?f e) # post)"
      using nl up unfolding splice_in.simps sp unwrap.simps by simp
    have ih: "element_ids (unwrap h (splice_in k' ?f e)) = element_ids e"
      "highlight_spans (unwrap h (splice_in k' ?f e)) = highlight_spans e"
      "\<exists>s'\<in>set (text_nodes (unwrap h (splice_in k' ?f e))). str_includes s' ?mid"
      using ElementNode.IH [OF e(1) hc [OF e(1)] k'] by blast+
    show ?thesis using ih by (simp only: u) (auto simp: ns)
  qed
qed

lemma unwrap_update_element:
  assumes "h \<notin> set (element_ids d)" "\<And>x. node_id (g x) = node_id x"
  shows "unwrap h (update_element t g d) = update_element t (\<lambda>x. unwrap h (g x)) d"
  using assms(1)
proof (induction d)
  case (TextNode s)
  show ?case by simp
next
  case (ElementNode n tg i c children)
  show ?case
  proof (cases "n = t")
    case True
    then show ?thesis by simp
  next
    case False
    have hc: "\<And>x. x \<in> set children \<Longrightarrow> h \<notin> set (element_ids x)"
      using ElementNode.prems by auto
    have nu: "node_id (update_element t g x) = node_id x" for x
      using assms(2) by (cases x) simp_all
    have "\<not> list_ex (\<lambda>ch. node_id ch = Some h) (map (update_element t g) children)"
      using hc node_id_element_ids nu by (auto simp: list_ex_iff)
    moreover have "map (unwrap h) (map (update_element t g) children)
        = map (update_element t (\<lambda>x. unwrap h (g x))) children"
      using ElementNode.IH hc by simp
    ultimately show ?thesis using False by simp
  qed
qed

lemma subtree_of_update_element:
  assumes "\<And>x. node_id (g x) = node_id x"
  shows "subtree_of t (update_element t g d) = map_option g (subtree_of t d)"
proof -
  let ?P = "\<lambda>e. node_id e = Some t"
  have "find ?P (subtrees (update_element t g d)) = map_option g (find ?P (subtrees d))"
  proof (induction d)
    case (TextNode s)
    show ?case by simp
  next
    case (ElementNode n tg i c children)
    let ?e = "ElementNode n tg i c children"
    show ?case
    proof (cases "n = t")
      case True
      then have "node_id (g ?e) = Some t" using assms by simp
      then have "find ?P (subtrees (g ?e)) = Some (g ?e)" by (cases "g ?e") simp_all
      then show ?thesis using True by simp
    next
      case False
      have "find ?P (concat (map subtrees (map (update_element t g) cs)))
          = map_option g (find ?P (concat (map subtrees cs)))"
        if "set cs \<subseteq> set children" for cs
        using that
      proof (induction cs)
        case Nil
        show ?case by simp
      next
        case (Cons x cs)
        then show ?case
          using ElementNode.IH [of x]
          by (simp add: find_append_cases split: option.splits)
      qed
      then show ?thesis using False by simp
    qed
  qed
  then show ?thesis unfolding subtree_of_def .
qed

lemma subtree_of_ids: "subtree_of t d = Some e \<Longrightarrow> node_id e = Some t \<and> t \<in> set (element_ids d)"
proof -
  have s: "map (\<lambda>e. the (node_id e)) (subtrees d) = element_ids d" for d
  proof (induction d)
    case (TextNode s)
    show ?case by simp
  next
    case (ElementNode n tg i c children)
    then have a: "map (map (\<lambda>e. the (node_id e)) \<circ> subtrees) children
        = map element_ids children"
      by simp
    show ?case by (simp add: map_concat a)
  qed
  assume "subtree_of t d = Some e"
  then have "e \<in> set (subtrees d)" "node_id e = Some t"
    unfolding subtree_of_def by (auto dest: find_SomeD)
  then have "t \<in> set (map (\<lambda>e. the (node_id e)) (subtrees d))" "node_id e = Some t"
    by (force simp: image_iff)+
  then show ?thesis unfolding s by simp
qed

lemma subtrees_element_ids: "map (\<lambda>e. the (node_id e)) (subtrees d) = element_ids d"
proof (induction d)
  case (TextNode s)
  show ?case by simp
next
  case (ElementNode n tg i c children)
  then have a: "map (map (\<lambda>e. the (node_id e)) \<circ> subtrees) children
      = map element_ids children"
    by simp
  show ?case by (simp add: map_concat a)
qed

lemma subtrees_self: "node_id d \<noteq> None \<Longrightarrow> d \<in> set (subtrees d)"
  by (cases d) simp_all

lemma subtrees_child:
  "x \<in> set (subtrees ch) \<Longrightarrow> ch \<in> set children \<Longrightarrow>
   x \<in> set (subtrees (ElementNode n tg i c children))"
  by auto

lemma subtrees_elements: "e \<in> set (subtrees d) \<Longrightarrow> \<exists>n. node_id e = Some n"
proof (induction d)
  case (TextNode s)
  then show ?case by simp
next
  case (ElementNode n tg i c children)
  then show ?case by auto
qed

lemma find_subtrees_None:
  assumes "find (\<lambda>e. node_id e = Some t) (subtrees d) = None"
  shows "t \<notin> set (element_ids d)"
proof
  assume "t \<in> set (element_ids d)"
  then obtain e where e: "e \<in> set (subtrees d)" "t = the (node_id e)"
    unfolding subtrees_element_ids [symmetric] by auto
  then have "node_id e = Some t" using subtrees_elements [OF e(1)] by auto
  then show False using assms e(1) by (auto simp: find_None_iff)
qed

text \<open>With distinct identities, the element with identity \<open>t\<close> is the only one.\<close>

lemma subtree_of_unique:
  assumes "distinct (element_ids d)" "subtree_of t d = Some e"
    "x \<in> set (subtrees d)" "node_id x = Some t"
  shows "x = e"
proof -
  have e: "e \<in> set (subtrees d)" "node_id e = Some t"
    using assms(2) unfolding subtree_of_def by (auto dest: find_SomeD)
  have inj: "inj_on (\<lambda>e. the (node_id e)) (set (subtrees d))"
    using assms(1) unfolding subtrees_element_ids [symmetric] distinct_map by simp
  have "the (node_id x) = the (node_id e)" using e(2) assms(4) by simp
  then show ?thesis using inj_onD [OF inj _ assms(3) e(1)] by blast
qed

lemma update_element_ids:
  assumes "\<And>x. x \<in> set (subtrees d) \<Longrightarrow> node_id x = Some t \<Longrightarrow> element_ids (g x) = element_ids x"
  shows "element_ids (update_element t g d) = element_ids d"
  using assms
proof (induction d)
  case (TextNode s)
  show ?case by simp
next
  case (ElementNode n tg i c children)
  show ?case
  proof (cases "n = t")
    case True
    then show ?thesis using ElementNode.prems [of "ElementNode n tg i c children"] by simp
  next
    case False
    have "element_ids (update_element t g x) = element_ids x" if "x \<in> set children" for x
      using ElementNode.IH [OF that] ElementNode.prems subtrees_child [OF _ that] by blast
    then have a: "map (element_ids \<circ> update_element t g) children = map element_ids children"
      by simp
    show ?thesis using False by (simp add: a)
  qed
qed

lemma update_highlight_spans:
  assumes "\<And>x. x \<in> set (subtrees d) \<Longrightarrow> node_id x = Some t \<Longrightarrow>
              highlight_spans (g x) = highlight_spans x"
  shows "highlight_spans (update_element t g d) = highlight_spans d"
  using assms
proof (induction d)
  case (TextNode s)
  show ?case by simp
next
  case (ElementNode n tg i c children)
  show ?case
  proof (cases "n = t")
    case True
    then show ?thesis using ElementNode.prems [of "ElementNode n tg i c children"] by simp
  next
    case False
    have "highlight_spans (update_element t g x) = highlight_spans x" if "x \<in> set children" for x
      using ElementNode.IH [OF that] ElementNode.prems subtrees_child [OF _ that] by blast
    then have a: "map (highlight_spans \<circ> update_element t g) children
        = map highlight_spans children"
      by simp
    show ?thesis using False by (simp add: a)
  qed
qed

text \<open>The spans of a wrapped tree: one more.\<close>

lemma splice_in_highlight_spans:
  assumes "nth_option (text_nodes e) k = Some s"
  shows "length (highlight_spans (splice_in k (highlight_fragment h off len) e))
           = Suc (length (highlight_spans e)) \<or> node_id e = None"
  using assms
proof (induction e arbitrary: k)
  case (TextNode x)
  show ?case by simp
next
  case (ElementNode n tg i c children)
  let ?f = "highlight_fragment h off len"
  have "nth_option (concat (map text_nodes children)) k = Some s"
    using ElementNode.prems by simp
  from splice_nodes_cases [OF this, of ?f] show ?case
  proof (elim disjE exE conjE)
    fix pre post
    assume ns: "children = pre @ TextNode s # post"
      and sp: "splice_nodes k ?f children = pre @ ?f s @ post"
    show ?thesis by (simp only: splice_in.simps sp) (simp add: ns highlight_fragment_def)
  next
    fix pre e post k'
    assume ns: "children = pre @ e # post" and e: "e \<in> set children" "node_id e \<noteq> None"
      and k': "nth_option (text_nodes e) k' = Some s"
      and sp: "splice_nodes k ?f children = pre @ splice_in k' ?f e # post"
    have "length (highlight_spans (splice_in k' ?f e)) = Suc (length (highlight_spans e))"
      using ElementNode.IH [OF e(1) k'] e(2) by simp
    then show ?thesis by (simp only: splice_in.simps sp) (simp add: ns)
  qed
qed

lemma splice_in_span_member:
  assumes "nth_option (text_nodes e) k = Some s" "node_id e \<noteq> None"
  shows "h \<in> set (highlight_spans (splice_in k (highlight_fragment h off len) e))"
  using assms
proof (induction e arbitrary: k)
  case (TextNode x)
  then show ?case by simp
next
  case (ElementNode n tg i c children)
  let ?f = "highlight_fragment h off len"
  have "nth_option (concat (map text_nodes children)) k = Some s"
    using ElementNode.prems by simp
  from splice_nodes_cases [OF this, of ?f] show ?case
  proof (elim disjE exE conjE)
    fix pre post
    assume ns: "children = pre @ TextNode s # post"
      and sp: "splice_nodes k ?f children = pre @ ?f s @ post"
    show ?thesis by (simp only: splice_in.simps sp) (simp add: ns highlight_fragment_def)
  next
    fix pre e post k'
    assume ns: "children = pre @ e # post" and e: "e \<in> set children" "node_id e \<noteq> None"
      and k': "nth_option (text_nodes e) k' = Some s"
      and sp: "splice_nodes k ?f children = pre @ splice_in k' ?f e # post"
    have "h \<in> set (highlight_spans (splice_in k' ?f e))"
      using ElementNode.IH [OF e(1) k' e(2)] .
    then show ?thesis by (simp only: splice_in.simps sp) simp
  qed
qed

lemma subtrees_highlight_spans:
  "x \<in> set (subtrees d) \<Longrightarrow> set (highlight_spans x) \<subseteq> set (highlight_spans d)"
proof (induction d)
  case (TextNode s)
  then show ?case by simp
next
  case (ElementNode n tg i c children)
  show ?case
  proof (cases "x = ElementNode n tg i c children")
    case True
    then show ?thesis by simp
  next
    case False
    then obtain ch where "ch \<in> set children" "x \<in> set (subtrees ch)"
      using ElementNode.prems by auto
    then show ?thesis using ElementNode.IH [of ch] by auto
  qed
qed

lemma update_element_span_member:
  assumes "\<And>x. node_id (g x) = node_id x" "subtree_of t d = Some e"
    "h \<in> set (highlight_spans (g e))"
  shows "h \<in> set (highlight_spans (update_element t g d))"
proof -
  have "subtree_of t (update_element t g d) = Some (g e)"
    using subtree_of_update_element [of g t d, OF assms(1)] assms(2) by simp
  then have "g e \<in> set (subtrees (update_element t g d))"
    unfolding subtree_of_def by (auto dest: find_SomeD)
  then show ?thesis using subtrees_highlight_spans assms(3) by blast
qed

text \<open>Counting the spans when one element of a tree with distinct identities is changed.\<close>

lemma update_element_count:
  assumes "distinct (element_ids d)" "subtree_of t d = Some e"
  shows "length (highlight_spans (update_element t g d)) + length (highlight_spans e)
         = length (highlight_spans d) + length (highlight_spans (g e))"
  using assms
proof (induction d)
  case (TextNode s)
  then show ?case by (simp add: subtree_of_def)
next
  case (ElementNode n tg i c children)
  let ?P = "\<lambda>e. node_id e = Some t"
  show ?case
  proof (cases "n = t")
    case True
    then have "e = ElementNode n tg i c children"
      using ElementNode.prems(2) by (simp add: subtree_of_def)
    then show ?thesis using True by simp
  next
    case False
    have f: "find ?P (concat (map subtrees children)) = Some e"
      using ElementNode.prems(2) False by (simp add: subtree_of_def)
    have d: "distinct (concat (map element_ids children))"
      using ElementNode.prems(1) by simp
    have "length (concat (map highlight_spans (map (update_element t g) cs)))
            + length (highlight_spans e)
          = length (concat (map highlight_spans cs)) + length (highlight_spans (g e))"
      if "set cs \<subseteq> set children" "distinct (concat (map element_ids cs))"
        "find ?P (concat (map subtrees cs)) = Some e" for cs
      using that
    proof (induction cs)
      case Nil
      then show ?case by simp
    next
      case (Cons x cs)
      show ?case
      proof (cases "find ?P (subtrees x)")
        case None
        then have "t \<notin> set (element_ids x)" by (rule find_subtrees_None)
        then have "update_element t g x = x" by (rule update_element_absent)
        moreover have "length (concat (map highlight_spans (map (update_element t g) cs)))
            + length (highlight_spans e)
          = length (concat (map highlight_spans cs)) + length (highlight_spans (g e))"
          using Cons None by (simp add: find_append_cases)
        ultimately show ?thesis by simp
      next
        case (Some y)
        then have y: "y = e" using Cons.prems(3) by (simp add: find_append_cases)
        then have "subtree_of t x = Some e" using Some by (simp add: subtree_of_def)
        moreover have "x \<in> set children" "distinct (element_ids x)"
          using Cons.prems by auto
        ultimately have a: "length (highlight_spans (update_element t g x))
              + length (highlight_spans e)
            = length (highlight_spans x) + length (highlight_spans (g e))"
          using ElementNode.IH by blast
        have "t \<in> set (element_ids x)"
          using \<open>subtree_of t x = Some e\<close> subtree_of_ids by blast
        then have "\<And>z. z \<in> set cs \<Longrightarrow> t \<notin> set (element_ids z)"
          using Cons.prems(2) by auto
        then have "map (update_element t g) cs = cs"
          by (simp add: map_idI update_element_absent)
        then show ?thesis using a by simp
      qed
    qed
    from this [OF subset_refl d f] show ?thesis using False by simp
  qed
qed

text \<open>Unwrapping keeps the identities distinct.\<close>

lemma distinct_concat_map_sub:
  assumes "\<And>x. x \<in> set cs \<Longrightarrow> set (f x) \<subseteq> set (g x) \<and> (distinct (g x) \<longrightarrow> distinct (f x))"
    "distinct (concat (map g cs))"
  shows "distinct (concat (map f cs))"
  using assms
proof (induction cs)
  case Nil
  show ?case by simp
next
  case (Cons x cs)
  have 1: "set (f x) \<subseteq> set (g x)" "distinct (f x)"
    using Cons.prems by auto
  have 2: "set (concat (map f cs)) \<subseteq> set (concat (map g cs))"
    using Cons.prems(1) by fastforce
  have 3: "distinct (concat (map f cs))" using Cons by simp
  have 4: "set (g x) \<inter> set (concat (map g cs)) = {}" using Cons.prems(2) by simp
  have "set (f x) \<inter> set (concat (map f cs)) = {}" using 1(1) 2 4 by blast
  then show ?case using 1(2) 3 by simp
qed

lemma unwrap_element_ids:
  "set (element_ids (unwrap w d)) \<subseteq> set (element_ids d) \<and>
   (distinct (element_ids d) \<longrightarrow> distinct (element_ids (unwrap w d)))"
proof (induction d)
  case (TextNode s)
  show ?case by simp
next
  case (ElementNode n tg i c children)
  let ?e = "ElementNode n tg i c children"
  let ?r = "\<lambda>ch. if node_id ch = Some w then TextNode (textContent ch) else ch"
  have "fst ` set (element_texts (unwrap w ?e)) \<subseteq> fst ` set (element_texts ?e)"
    by (rule image_mono) (rule unwrap_element_texts)
  then have sub: "set (element_ids (unwrap w ?e)) \<subseteq> set (element_ids ?e)"
    by (simp only: element_ids_texts set_map)
  have "distinct (element_ids (unwrap w ?e))" if d: "distinct (element_ids ?e)"
  proof (cases "list_ex (\<lambda>ch. node_id ch = Some w) children")
    case True
    have "distinct (concat (map (\<lambda>x. element_ids (?r x)) children))"
      by (rule distinct_concat_map_sub [where g = element_ids]) (use d in auto)
    moreover have "set (concat (map (\<lambda>x. element_ids (?r x)) children))
        \<subseteq> set (concat (map element_ids children))"
      by (auto split: if_splits)
    ultimately have "distinct (element_ids (ElementNode n tg i c (map ?r children)))"
      using d by (auto simp: comp_def)
    then show ?thesis using True by (simp add: normalize_element_ids del: normalize.simps)
  next
    case False
    have "distinct (concat (map (\<lambda>x. element_ids (unwrap w x)) children))"
      by (rule distinct_concat_map_sub [where g = element_ids]) (use d ElementNode.IH in auto)
    moreover have "set (concat (map (\<lambda>x. element_ids (unwrap w x)) children))
        \<subseteq> set (concat (map element_ids children))"
      using ElementNode.IH by auto
    ultimately show ?thesis using d False by (auto simp: comp_def)
  qed
  then show ?case using sub by blast
qed

lemma findTextOffset_take:
  assumes "findTextOffset s text before = Some off"
  shows "take (length text) (drop off s) = text"
proof -
  have p: "prefix text (drop j s) \<Longrightarrow> take (length text) (drop j s) = text" for j
    by (auto simp: prefix_def)
  show ?thesis
  proof (cases "before \<noteq> [] \<and> indexOf s (before @ text) \<noteq> None")
    case True
    then obtain ci where ci: "indexOf s (before @ text) = Some ci" by auto
    then have off: "off = ci + length before" using assms True by (simp add: findTextOffset_def)
    have "prefix (before @ text) (drop ci s)" using ci unfolding indexOf_Some_iff by simp
    then obtain r where "drop ci s = before @ text @ r" by (auto simp: prefix_def)
    then have "drop (length before) (drop ci s) = text @ r" by simp
    then have "drop off s = text @ r" unfolding off by (simp add: add.commute)
    then show ?thesis by simp
  next
    case False
    then have "indexOf s text = Some off"
      using assms by (auto simp: findTextOffset_def split: option.splits if_splits)
    then have "prefix text (drop off s)" unfolding indexOf_Some_iff by simp
    then show ?thesis by (rule p)
  qed
qed

lemma findTextOffset_includes:
  "str_includes s text \<Longrightarrow> \<exists>off. findTextOffset s text before = Some off"
  unfolding str_includes_def findTextOffset_def by (auto split: option.splits)

lemma find_first:
  "\<exists>s\<in>set xs. P s \<Longrightarrow>
   \<exists>n. find P xs = Some n \<and> P n \<and> nth_option xs (length (takeWhile (\<lambda>x. \<not> P x) xs)) = Some n"
  by (induction xs) auto

lemma findTextInElement_found:
  assumes "\<exists>s\<in>set (text_nodes e). str_includes s text"
  shows "\<exists>k pos s'. findTextInElement e text b a = Some (k, pos) \<and>
           nth_option (text_nodes e) k = Some s' \<and> str_includes s' text"
proof -
  obtain n where "find (\<lambda>n. str_includes n text) (text_nodes e) = Some n" "str_includes n text"
    "nth_option (text_nodes e)
       (length (takeWhile (\<lambda>x. \<not> str_includes x text) (text_nodes e))) = Some n"
    using find_first [OF assms] by blast
  then show ?thesis unfolding findTextInElement_def findText_loop_result by simp
qed

lemma subtrees_ids_subset:
  "x \<in> set (subtrees d) \<Longrightarrow> set (element_ids x) \<subseteq> set (element_ids d)"
proof (induction d)
  case (TextNode s)
  then show ?case by simp
next
  case (ElementNode n tg i c children)
  show ?case
  proof (cases "x = ElementNode n tg i c children")
    case True
    then show ?thesis by simp
  next
    case False
    then obtain ch where "ch \<in> set children" "x \<in> set (subtrees ch)"
      using ElementNode.prems by auto
    then show ?thesis using ElementNode.IH [of ch] by auto
  qed
qed

lemma subtree_of_member: "subtree_of t d = Some e \<Longrightarrow> e \<in> set (subtrees d)"
  unfolding subtree_of_def by (auto dest: find_SomeD)

lemma map_get_None: "map_get m k = None \<longleftrightarrow> k \<notin> fst ` set m"
  unfolding map_get_def by (simp add: map_of_eq_None_iff)

lemma map_set_fresh: "k \<notin> fst ` set m \<Longrightarrow> map_set m k v = m @ [(k, v)]"
  unfolding map_set_def map_has_def by simp

lemma map_delete_last: "k \<notin> fst ` set m \<Longrightarrow> map_delete (m @ [(k, v)]) k = m"
  unfolding map_delete_def by (induction m) auto

lemma map_delete_keys: "k \<notin> fst ` set (map_delete m k)"
  unfolding map_delete_def by auto

lemma map_delete_length: "length (map_delete m k) \<le> length m"
  unfolding map_delete_def by simp

lemma map_get_last: "k \<notin> fst ` set m \<Longrightarrow> map_get (m @ [(k, v)]) k = Some v"
  using map_get_set [of m k v] by (simp add: map_set_fresh)

text \<open>What \<open>removeTextHighlight\<close> leaves.\<close>

lemma removeTextHighlight_state:
  fixes w noteId
  defines "w' \<equiv> snd (removeTextHighlight w noteId)"
  shows "noteId \<notin> fst ` set (noteHighlights w')"
    and "length (noteHighlights w') \<le> length (noteHighlights w)"
    and "hw_next_id w' = hw_next_id w"
    and "set (element_ids (hw_document w')) \<subseteq> set (element_ids (hw_document w))"
    and "distinct (element_ids (hw_document w)) \<Longrightarrow> distinct (element_ids (hw_document w'))"
    and "set (highlight_spans (hw_document w')) \<subseteq> set (highlight_spans (hw_document w))
         \<or> noteHighlights w \<noteq> []"
proof -
  show "noteId \<notin> fst ` set (noteHighlights w')"
    unfolding w'_def removeTextHighlight_def
    using map_delete_keys [of noteId "noteHighlights w"]
    by (simp add: map_get_None [symmetric] split: option.splits)
  show "length (noteHighlights w') \<le> length (noteHighlights w)"
    unfolding w'_def removeTextHighlight_def
    by (simp add: map_delete_length split: option.splits)
  show "hw_next_id w' = hw_next_id w"
    unfolding w'_def removeTextHighlight_def by (simp split: option.splits)
  show "set (element_ids (hw_document w')) \<subseteq> set (element_ids (hw_document w))"
    unfolding w'_def removeTextHighlight_def
    using unwrap_element_ids by (simp split: option.splits)
  show "distinct (element_ids (hw_document w)) \<Longrightarrow> distinct (element_ids (hw_document w'))"
    unfolding w'_def removeTextHighlight_def
    using unwrap_element_ids by (simp split: option.splits)
  show "set (highlight_spans (hw_document w')) \<subseteq> set (highlight_spans (hw_document w))
         \<or> noteHighlights w \<noteq> []"
    unfolding w'_def removeTextHighlight_def
    by (cases "noteHighlights w") (simp_all add: map_get_def)
qed

lemma cleanupHighlights_small:
  "length (noteHighlights w) \<le> MAX_HIGHLIGHTS \<Longrightarrow> cleanupHighlights w = w"
  unfolding cleanupHighlights_def by simp

lemma highlight_world_updates:
  "w\<lparr>hw_next_id := n, hw_document := d, noteHighlights := m\<rparr>
   = \<lparr> hw_document = d, noteHighlights = m, hw_next_id = n \<rparr>"
  by (cases w) simp

text \<open>A call of \<open>createTextHighlight\<close> that returns \<open>true\<close>.\<close>

lemma createTextHighlight_True:
  assumes "createTextHighlight w noteData c = (True, w')"
  obtains sd t target k pos s off where
    "hn_selectionData noteData = Some sd" "sd_text sd \<noteq> []" "sd_targetElement sd = Some t"
    "subtree_of t (hw_document (snd (removeTextHighlight w (hn_id noteData)))) = Some target"
    "nth_option (text_nodes target) k = Some s"
    "findTextOffset s (sd_text sd) (sd_contextBefore sd) = Some off"
    "w' = cleanupHighlights
       \<lparr> hw_document =
           update_element t
             (splice_in k (highlight_fragment (hw_next_id w) off (length (sd_text sd))))
             (hw_document (snd (removeTextHighlight w (hn_id noteData)))),
         noteHighlights =
           map_set (noteHighlights (snd (removeTextHighlight w (hn_id noteData)))) (hn_id noteData)
             \<lparr> hl_element = hw_next_id w, hl_targetElement = t,
               hl_originalText = sd_text sd \<rparr>,
         hw_next_id = Suc (hw_next_id w) \<rparr>"
  using assms removeTextHighlight_state(3) [of w "hn_id noteData"]
  unfolding createTextHighlight_def
  by (auto simp: Let_def highlight_world_updates
        split: option.splits if_splits prod.splits sum.splits)

lemma createTextHighlight_succeeds:
  assumes "hn_selectionData noteData = Some sd" "sd_text sd \<noteq> []" "sd_targetElement sd = Some t"
    "subtree_of t (hw_document (snd (removeTextHighlight w (hn_id noteData)))) = Some target"
    "findTextInElement target (sd_text sd) (sd_contextBefore sd) (sd_contextAfter sd)
       = Some (k, pos)"
    "nth_option (text_nodes target) k = Some s"
    "findTextOffset s (sd_text sd) (sd_contextBefore sd) = Some off"
  shows "createTextHighlight w noteData c =
     (True, cleanupHighlights
       \<lparr> hw_document =
           update_element t
             (splice_in k (highlight_fragment (hw_next_id w) off (length (sd_text sd))))
             (hw_document (snd (removeTextHighlight w (hn_id noteData)))),
         noteHighlights =
           map_set (noteHighlights (snd (removeTextHighlight w (hn_id noteData)))) (hn_id noteData)
             \<lparr> hl_element = hw_next_id w, hl_targetElement = t,
               hl_originalText = sd_text sd \<rparr>,
         hw_next_id = Suc (hw_next_id w) \<rparr>)"
proof -
  obtain style where
    "createHighlightSpan (case c of JSUndefined \<Rightarrow> JSString ''#fff3cd'' | _ \<Rightarrow> c) = Inr style"
    unfolding createHighlightSpan_def
    by (cases "case c of JSUndefined \<Rightarrow> JSString ''#fff3cd'' | _ \<Rightarrow> c"
          rule: sanitizeColor_cases) blast+
  then show ?thesis
    using assms removeTextHighlight_state(3) [of w "hn_id noteData"]
    unfolding createTextHighlight_def
    by (simp add: Let_def highlight_world_updates)
qed

text \<open>\<open>normalize\<close> merges adjacent text nodes and drops empty ones; a normalized tree is left as it is.\<close>

lemma merge_text_normal:
  "TextNode [] \<notin> set (merge_text ns) \<and> \<not> adjacent_text (merge_text ns)"
proof (induction ns rule: merge_text.induct)
  case 1
  show ?case by simp
next
  case (2 a rest)
  show ?case
  proof (cases "merge_text rest")
    case Nil
    then show ?thesis by simp
  next
    case (Cons x r)
    then show ?thesis using 2 by (cases x; cases r) auto
  qed
next
  case (3 n tg i c children rest)
  then show ?case by (cases "merge_text rest") auto
qed

lemma merge_text_fixed:
  "TextNode [] \<notin> set ns \<Longrightarrow> \<not> adjacent_text ns \<Longrightarrow> merge_text ns = ns"
proof (induction ns rule: merge_text.induct)
  case 1
  show ?case by simp
next
  case (2 a rest)
  then have "merge_text rest = rest" by (cases rest) auto
  then show ?case using 2 by (cases rest) (auto split: dom_node.splits)
next
  case (3 n tg i c children rest)
  then show ?case by (cases rest) auto
qed

lemma merge_text_idem: "merge_text (merge_text ns) = merge_text ns"
  using merge_text_normal [of ns] by (simp add: merge_text_fixed)

lemma merge_text_map_normalize:
  "merge_text (map normalize ns) = map normalize (merge_text ns)"
proof (induction ns rule: merge_text.induct)
  case 1
  show ?case by simp
next
  case (2 a rest)
  then show ?case by (cases "merge_text rest") (auto split: list.splits dom_node.splits)
next
  case (3 n tg i c children rest)
  then show ?case by simp
qed

lemma normalize_idem: "normalize (normalize d) = normalize d"
proof (induction d)
  case (TextNode s)
  show ?case by simp
next
  case (ElementNode n tg i c children)
  then have "map normalize (map normalize children) = map normalize children" by simp
  then have "merge_text (map normalize (merge_text (map normalize children)))
      = merge_text (map normalize children)"
    by (simp add: merge_text_map_normalize [symmetric] merge_text_idem del: map_map)
  then show ?case by simp
qed

lemma normalize_fixed: "normalized d \<Longrightarrow> normalize d = d"
proof (induction d)
  case (TextNode s)
  show ?case by simp
next
  case (ElementNode n tg i c children)
  then have "map normalize children = children"
    by (simp add: list_all_iff map_idI)
  then show ?case using ElementNode.prems by (simp add: merge_text_fixed)
qed

lemma merge_text_append_cong:
  "merge_text xs = merge_text ys \<Longrightarrow> merge_text (as @ xs) = merge_text (as @ ys)"
proof (induction as)
  case Nil
  then show ?case by simp
next
  case (Cons a as)
  then show ?case by (cases a) simp_all
qed

lemma merge_text_three:
  "merge_text (TextNode a # TextNode m # TextNode b # rest) = merge_text (TextNode (a @ m @ b) # rest)"
  by (cases "merge_text rest") (auto split: list.splits dom_node.splits)

lemma merge_text_split:
  "merge_text (as @ [TextNode a, TextNode m, TextNode b] @ bs)
   = merge_text (as @ TextNode (a @ m @ b) # bs)"
  using merge_text_append_cong [OF merge_text_three [of a m b bs], of as] by simp

lemma unwrap_splice_normalize:
  assumes "h \<notin> set (element_ids e)" "nth_option (text_nodes e) k = Some s"
  shows "normalize (unwrap h (splice_in k (highlight_fragment h off len) e)) = normalize e \<and>
         (normalized e \<longrightarrow> unwrap h (splice_in k (highlight_fragment h off len) e) = e)"
  using assms
proof (induction e arbitrary: k)
  case (TextNode x)
  show ?case by simp
next
  case (ElementNode n tg i c children)
  let ?f = "highlight_fragment h off len"
  let ?mid = "take len (drop off s)"
  let ?r = "\<lambda>ch. if node_id ch = Some h then TextNode (textContent ch) else ch"
  let ?e = "ElementNode n tg i c children"
  have hn: "h \<noteq> n" and hc: "\<And>x. x \<in> set children \<Longrightarrow> h \<notin> set (element_ids x)"
    using ElementNode.prems(1) by auto
  have nid: "\<And>x. x \<in> set children \<Longrightarrow> node_id x \<noteq> Some h"
    using hc node_id_element_ids by blast
  have "nth_option (concat (map text_nodes children)) k = Some s"
    using ElementNode.prems(2) by simp
  from splice_nodes_cases [OF this, of ?f] show ?case
  proof (elim disjE exE conjE)
    fix pre post
    assume ns: "children = pre @ TextNode s # post"
      and sp: "splice_nodes k ?f children = pre @ ?f s @ post"
    have idr: "map ?r pre = pre" "map ?r post = post"
      using nid ns by (auto intro: map_idI)
    have lx: "list_ex (\<lambda>ch. node_id ch = Some h) (pre @ ?f s @ post)"
      unfolding highlight_fragment_def by simp
    have mr: "map ?r (pre @ ?f s @ post)
        = pre @ [TextNode (take off s), TextNode ?mid, TextNode (drop (off + len) s)] @ post"
      using idr unfolding highlight_fragment_def
      by (simp add: textContent_Element textContent_Text)
    let ?x = "ElementNode n tg i c
        (pre @ [TextNode (take off s), TextNode ?mid, TextNode (drop (off + len) s)] @ post)"
    have u: "unwrap h (splice_in k ?f ?e) = normalize ?x"
      using lx mr unfolding splice_in.simps sp unwrap.simps by simp
    have s: "take off s @ ?mid @ drop (off + len) s = s"
      by (metis add.commute append_take_drop_id drop_drop)
    have "merge_text (map normalize pre
            @ [TextNode (take off s), TextNode ?mid, TextNode (drop (off + len) s)]
            @ map normalize post)
        = merge_text (map normalize pre @ TextNode s # map normalize post)"
      using merge_text_split [of "map normalize pre" "take off s" ?mid "drop (off + len) s"
          "map normalize post"] s by simp
    then have x: "normalize ?x = normalize ?e" unfolding ns by simp
    show ?thesis unfolding u normalize_idem using x normalize_fixed [of ?e] by simp
  next
    fix pre e post k'
    assume ns: "children = pre @ e # post" and e: "e \<in> set children" "node_id e \<noteq> None"
      and k': "nth_option (text_nodes e) k' = Some s"
      and sp: "splice_nodes k ?f children = pre @ splice_in k' ?f e # post"
    have nl: "\<not> list_ex (\<lambda>ch. node_id ch = Some h) (pre @ splice_in k' ?f e # post)"
      using nid ns by (auto simp: list_ex_iff node_id_splice_in)
    have up: "map (unwrap h) pre = pre" "map (unwrap h) post = post"
      using hc ns by (auto intro: map_idI unwrap_absent)
    have u: "unwrap h (splice_in k ?f ?e)
        = ElementNode n tg i c (pre @ unwrap h (splice_in k' ?f e) # post)"
      using nl up unfolding splice_in.simps sp unwrap.simps by simp
    have ih: "normalize (unwrap h (splice_in k' ?f e)) = normalize e"
      "normalized e \<Longrightarrow> unwrap h (splice_in k' ?f e) = e"
      using ElementNode.IH [OF e(1) hc [OF e(1)] k'] by blast+
    have "normalized ?e \<Longrightarrow> normalized e" using e(1) by (simp add: list_all_iff)
    then show ?thesis using ih by (simp only: u) (auto simp: ns)
  qed
qed

lemma update_element_normalize:
  assumes "\<And>x. x \<in> set (subtrees d) \<Longrightarrow> node_id x = Some t \<Longrightarrow> normalize (g x) = normalize x"
  shows "normalize (update_element t g d) = normalize d"
  using assms
proof (induction d)
  case (TextNode s)
  show ?case by simp
next
  case (ElementNode n tg i c children)
  show ?case
  proof (cases "n = t")
    case True
    then show ?thesis using ElementNode.prems [of "ElementNode n tg i c children"] by simp
  next
    case False
    have "normalize (update_element t g x) = normalize x" if "x \<in> set children" for x
      using ElementNode.IH [OF that] ElementNode.prems that by auto
    then have "map normalize (map (update_element t g) children) = map normalize children"
      by simp
    then show ?thesis using False by (simp del: map_map)
  qed
qed

lemma update_element_fixed:
  assumes "\<And>x. x \<in> set (subtrees d) \<Longrightarrow> node_id x = Some t \<Longrightarrow> g x = x"
  shows "update_element t g d = d"
  using assms
proof (induction d)
  case (TextNode s)
  show ?case by simp
next
  case (ElementNode n tg i c children)
  show ?case
  proof (cases "n = t")
    case True
    then show ?thesis using ElementNode.prems [of "ElementNode n tg i c children"] by simp
  next
    case False
    have "update_element t g x = x" if "x \<in> set children" for x
      using ElementNode.IH [OF that] ElementNode.prems that by auto
    then have "map (update_element t g) children = children"
      by (simp add: map_idI)
    then show ?thesis using False by simp
  qed
qed

lemma subtrees_normalized: "x \<in> set (subtrees d) \<Longrightarrow> normalized d \<Longrightarrow> normalized x"
proof (induction d)
  case (TextNode s)
  then show ?case by simp
next
  case (ElementNode n tg i c children)
  then show ?case by (auto simp: list_all_iff)
qed

text \<open>
  Two calls of \<open>createTextHighlight\<close> for the same note in succession, the first one
  successful, while fewer than \<open>MAX_HIGHLIGHTS\<close> highlights are tracked.
\<close>

lemma recreate:
  assumes d0: "distinct (element_ids (hw_document w))"
    and b0: "\<forall>n\<in>set (element_ids (hw_document w)). n < hw_next_id w"
    and cap: "length (noteHighlights w) < MAX_HIGHLIGHTS"
    and c1: "createTextHighlight w noteData c1 = (True, w1)"
  shows "\<exists>w2 w3 r1 r2.
      createTextHighlight w1 noteData c2 = (True, w2) \<and>
      map_get (noteHighlights w1) (hn_id noteData) = Some r1 \<and>
      map_get (noteHighlights w2) (hn_id noteData) = Some r2 \<and>
      hl_element r1 \<in> set (highlight_spans (hw_document w1)) \<and>
      hl_element r2 \<in> set (highlight_spans (hw_document w2)) \<and>
      hl_element r1 \<notin> set (element_ids (hw_document w2)) \<and>
      length (highlight_spans (hw_document w2)) = length (highlight_spans (hw_document w1)) \<and>
      length (highlight_spans (hw_document w1))
        = Suc (length (highlight_spans
                 (hw_document (snd (removeTextHighlight w (hn_id noteData)))))) \<and>
      removeTextHighlight w2 (hn_id noteData) = (True, w3) \<and>
      map_get (noteHighlights w3) (hn_id noteData) = None \<and>
      element_ids (hw_document w3)
        = element_ids (hw_document (snd (removeTextHighlight w (hn_id noteData)))) \<and>
      highlight_spans (hw_document w3)
        = highlight_spans (hw_document (snd (removeTextHighlight w (hn_id noteData)))) \<and>
      normalize (hw_document w3)
        = normalize (hw_document (snd (removeTextHighlight w (hn_id noteData)))) \<and>
      (normalized (hw_document (snd (removeTextHighlight w (hn_id noteData)))) \<longrightarrow>
         hw_document (snd (removeTextHighlight w1 (hn_id noteData)))
           = hw_document (snd (removeTextHighlight w (hn_id noteData))) \<and>
         hw_document w3 = hw_document (snd (removeTextHighlight w (hn_id noteData))))"
proof -
  define nid where "nid = hn_id noteData"
  define w0 where "w0 = snd (removeTextHighlight w nid)"
  define h where "h = hw_next_id w"
  obtain sd t target k pos s off where sd: "hn_selectionData noteData = Some sd"
    "sd_text sd \<noteq> []" "sd_targetElement sd = Some t"
    and tg: "subtree_of t (hw_document w0) = Some target"
    and ks: "nth_option (text_nodes target) k = Some s"
    and off: "findTextOffset s (sd_text sd) (sd_contextBefore sd) = Some off"
    and w1: "w1 = cleanupHighlights
       \<lparr> hw_document =
           update_element t (splice_in k (highlight_fragment h off (length (sd_text sd))))
             (hw_document w0),
         noteHighlights =
           map_set (noteHighlights w0) nid
             \<lparr> hl_element = h, hl_targetElement = t, hl_originalText = sd_text sd \<rparr>,
         hw_next_id = Suc h \<rparr>"
    using createTextHighlight_True [OF c1] unfolding w0_def nid_def h_def by metis
  let ?len = "length (sd_text sd)"
  let ?f = "highlight_fragment h off ?len"
  let ?r1 = "\<lparr> hl_element = h, hl_targetElement = t, hl_originalText = sd_text sd \<rparr>"
  have k0: "nid \<notin> fst ` set (noteHighlights w0)"
    and l0: "length (noteHighlights w0) \<le> length (noteHighlights w)"
    and n0: "hw_next_id w0 = h"
    and s0: "set (element_ids (hw_document w0)) \<subseteq> set (element_ids (hw_document w))"
    and dd: "distinct (element_ids (hw_document w0))"
    unfolding w0_def h_def using removeTextHighlight_state [where w = w and noteId = nid] d0 by blast+
  have hd: "h \<notin> set (element_ids (hw_document w0))"
    using s0 b0 unfolding h_def by auto
  let ?d1 = "update_element t (splice_in k ?f) (hw_document w0)"
  let ?m1 = "noteHighlights w0 @ [(nid, ?r1)]"
  have w1': "w1 = \<lparr> hw_document = ?d1, noteHighlights = ?m1, hw_next_id = Suc h \<rparr>"
    unfolding w1 map_set_fresh [OF k0]
    by (rule cleanupHighlights_small) (use l0 cap in simp)
  have mid: "take ?len (drop off s) = sd_text sd" using off by (rule findTextOffset_take)
  have tm: "target \<in> set (subtrees (hw_document w0))" "node_id target = Some t"
    using tg subtree_of_member subtree_of_ids by blast+
  have ht: "h \<notin> set (element_ids target)"
    using hd subtrees_ids_subset [OF tm(1)] by blast
  let ?G = "\<lambda>x. unwrap h (splice_in k ?f x)"
  have G: "element_ids (?G target) = element_ids target"
    "highlight_spans (?G target) = highlight_spans target"
    "\<exists>s'\<in>set (text_nodes (?G target)). str_includes s' (sd_text sd)"
    using unwrap_splice [OF ht ks, of ?len off] mid sd(2) by auto
  have uniq: "x = target" if "x \<in> set (subtrees (hw_document w0))" "node_id x = Some t" for x
    using subtree_of_unique [OF dd tg that] .
  have g1: "map_get (noteHighlights w1) nid = Some ?r1"
    unfolding w1' using map_get_last [OF k0] by simp
  have r1: "snd (removeTextHighlight w1 nid)
      = \<lparr> hw_document = unwrap h ?d1, noteHighlights = noteHighlights w0, hw_next_id = Suc h \<rparr>"
    unfolding removeTextHighlight_def g1
    by (simp add: w1' map_delete_last [OF k0])
  have u1: "unwrap h ?d1 = update_element t ?G (hw_document w0)"
    by (rule unwrap_update_element [OF hd]) (rule node_id_splice_in)
  have nG: "node_id (?G x) = node_id x" for x
    by (simp add: node_id_unwrap node_id_splice_in)
  have tg1: "subtree_of t (unwrap h ?d1) = Some (?G target)"
    unfolding u1 using subtree_of_update_element [of ?G t "hw_document w0", OF nG] tg by simp
  have i1: "element_ids (unwrap h ?d1) = element_ids (hw_document w0)"
    unfolding u1 by (rule update_element_ids) (use uniq G(1) in blast)
  have p1: "highlight_spans (unwrap h ?d1) = highlight_spans (hw_document w0)"
    unfolding u1 by (rule update_highlight_spans) (use uniq G(2) in blast)
  obtain k' pos' s' where f2:
    "findTextInElement (?G target) (sd_text sd) (sd_contextBefore sd) (sd_contextAfter sd)
       = Some (k', pos')"
    "nth_option (text_nodes (?G target)) k' = Some s'" "str_includes s' (sd_text sd)"
    using findTextInElement_found [OF G(3)] by blast
  obtain off' where off': "findTextOffset s' (sd_text sd) (sd_contextBefore sd) = Some off'"
    using findTextOffset_includes [OF f2(3)] by blast
  let ?f2 = "highlight_fragment (Suc h) off' ?len"
  let ?d2 = "update_element t (splice_in k' ?f2) (unwrap h ?d1)"
  let ?r2 = "\<lparr> hl_element = Suc h, hl_targetElement = t, hl_originalText = sd_text sd \<rparr>"
  let ?w2 = "\<lparr> hw_document = ?d2, noteHighlights = noteHighlights w0 @ [(nid, ?r2)],
              hw_next_id = Suc (Suc h) \<rparr>"
  have "createTextHighlight w1 noteData c2 = (True, cleanupHighlights ?w2)"
    using createTextHighlight_succeeds [of noteData sd t w1 "?G target" k' pos' s' off' c2]
      sd tg1 f2 off' unfolding nid_def [symmetric] r1
    by (simp add: map_set_fresh [OF k0] w1')
  moreover have "cleanupHighlights ?w2 = ?w2"
    by (rule cleanupHighlights_small) (use l0 cap in simp)
  ultimately have c2: "createTextHighlight w1 noteData c2 = (True, ?w2)" by simp
  have g2: "map_get (noteHighlights ?w2) nid = Some ?r2"
    using map_get_last [OF k0] by simp
  have m1: "h \<in> set (highlight_spans ?d1)"
    by (rule update_element_span_member [OF node_id_splice_in tg])
       (rule splice_in_span_member [OF ks], use tm(2) in simp)
  have m2: "Suc h \<in> set (highlight_spans ?d2)"
    by (rule update_element_span_member [OF node_id_splice_in tg1])
       (rule splice_in_span_member [OF f2(2)], use tm(2) nG in simp)
  have "set (element_texts ?d2) \<subseteq> set (element_texts (unwrap h ?d1)) \<union> {(n, x). Suc h \<le> n}"
    by (intro update_element_element_texts splice_in_element_texts
          highlight_fragment_element_texts highlight_fragment_textContent
          splice_in_textContent order_refl)
  then have "set (element_ids ?d2) \<subseteq> set (element_ids (unwrap h ?d1)) \<union> {n. Suc h \<le> n}"
    unfolding element_ids_texts by force
  then have gone: "h \<notin> set (element_ids ?d2)" using hd unfolding i1 by auto
  have n1: "length (highlight_spans ?d1) = Suc (length (highlight_spans (hw_document w0)))"
    using update_element_count [OF dd tg, of "splice_in k ?f"]
      splice_in_highlight_spans [OF ks, of h off ?len] tm(2)
    by simp
  have "distinct (element_ids (unwrap h ?d1))" unfolding i1 by (rule dd)
  then have n2: "length (highlight_spans ?d2) = Suc (length (highlight_spans (hw_document w0)))"
    using update_element_count [OF _ tg1, of "splice_in k' ?f2"]
      splice_in_highlight_spans [OF f2(2), of "Suc h" off' ?len] tm(2) nG [of target] p1
    by simp
  let ?G2 = "\<lambda>x. unwrap (Suc h) (splice_in k' ?f2 x)"
  let ?w3 = "\<lparr> hw_document = unwrap (Suc h) ?d2, noteHighlights = noteHighlights w0,
              hw_next_id = Suc (Suc h) \<rparr>"
  have r2: "removeTextHighlight ?w2 nid = (True, ?w3)"
    unfolding removeTextHighlight_def using g2 by (simp add: map_delete_last [OF k0])
  have g3: "map_get (noteHighlights ?w3) nid = None"
    using k0 by (simp add: map_get_None)
  have hd2: "Suc h \<notin> set (element_ids (unwrap h ?d1))"
  proof
    assume "Suc h \<in> set (element_ids (unwrap h ?d1))"
    then have "Suc h \<in> set (element_ids (hw_document w))" using s0 unfolding i1 by blast
    then have "Suc h < h" using b0 unfolding h_def by blast
    then show False by simp
  qed
  have u2: "unwrap (Suc h) ?d2 = update_element t ?G2 (unwrap h ?d1)"
    by (rule unwrap_update_element [OF hd2]) (rule node_id_splice_in)
  have ht2: "Suc h \<notin> set (element_ids (?G target))"
    using hd2 subtrees_ids_subset [OF subtree_of_member [OF tg1]] by blast
  have mid2: "take ?len (drop off' s') = sd_text sd" using off' by (rule findTextOffset_take)
  have G2: "element_ids (?G2 (?G target)) = element_ids (?G target)"
    "highlight_spans (?G2 (?G target)) = highlight_spans (?G target)"
    using unwrap_splice [OF ht2 f2(2), of ?len off'] mid2 sd(2) by auto
  have uniq2: "x = ?G target" if "x \<in> set (subtrees (unwrap h ?d1))" "node_id x = Some t" for x
    using subtree_of_unique [OF \<open>distinct (element_ids (unwrap h ?d1))\<close> tg1 that] .
  have i2: "element_ids (unwrap (Suc h) ?d2) = element_ids (hw_document w0)"
    unfolding u2 i1 [symmetric] by (rule update_element_ids) (use uniq2 G2(1) in blast)
  have p2: "highlight_spans (unwrap (Suc h) ?d2) = highlight_spans (hw_document w0)"
    unfolding u2 p1 [symmetric] by (rule update_highlight_spans) (use uniq2 G2(2) in blast)
  have N1: "normalize (?G target) = normalize target" "normalized target \<Longrightarrow> ?G target = target"
    using unwrap_splice_normalize [OF ht ks, of off ?len] by blast+
  have nu1: "normalize (unwrap h ?d1) = normalize (hw_document w0)"
    unfolding u1 by (rule update_element_normalize) (use uniq N1(1) in blast)
  have ex1: "unwrap h ?d1 = hw_document w0" if "normalized (hw_document w0)"
    unfolding u1
  proof (rule update_element_fixed)
    fix x assume x: "x \<in> set (subtrees (hw_document w0))" "node_id x = Some t"
    have "normalized target" using subtrees_normalized [OF tm(1) that] .
    then show "?G x = x" using uniq [OF x] N1(2) by simp
  qed
  have N2: "normalize (?G2 (?G target)) = normalize (?G target)"
    "normalized (?G target) \<Longrightarrow> ?G2 (?G target) = ?G target"
    using unwrap_splice_normalize [OF ht2 f2(2), of off' ?len] by blast+
  have nu2: "normalize (unwrap (Suc h) ?d2) = normalize (hw_document w0)"
    unfolding u2 nu1 [symmetric]
    by (rule update_element_normalize) (use uniq2 N2(1) in blast)
  have ex2: "unwrap (Suc h) ?d2 = hw_document w0" if "normalized (hw_document w0)"
  proof -
    have "normalized (unwrap h ?d1)" using ex1 [OF that] that by simp
    then have "normalized (?G target)"
      using subtrees_normalized [OF subtree_of_member [OF tg1]] by simp
    then have "update_element t ?G2 (unwrap h ?d1) = unwrap h ?d1"
      using uniq2 N2(2) by (intro update_element_fixed) simp
    then show ?thesis unfolding u2 using ex1 [OF that] by simp
  qed
  have x1: "hw_document (snd (removeTextHighlight w1 nid)) = unwrap h ?d1"
    unfolding r1 by simp
  show ?thesis
    using c2 g1 g2 m1 m2 gone n1 n2 r2 g3 i2 p2 nu2 ex1 ex2 x1
    unfolding nid_def [symmetric] w0_def [symmetric]
    by (intro exI [of _ ?w2] exI [of _ ?w3] exI [of _ ?r1] exI [of _ ?r2]) (simp add: w1')
qed

text \<open>Wrapping a text puts one new identity among those of the tree.\<close>

lemma splice_in_insert:
  assumes "nth_option (text_nodes e) k = Some s" "node_id e \<noteq> None"
  shows "\<exists>as bs. element_ids e = as @ bs \<and>
           element_ids (splice_in k (highlight_fragment h off len) e) = as @ h # bs"
  using assms
proof (induction e arbitrary: k)
  case (TextNode x)
  then show ?case by simp
next
  case (ElementNode n tg i c children)
  let ?f = "highlight_fragment h off len"
  have "nth_option (concat (map text_nodes children)) k = Some s"
    using ElementNode.prems by simp
  from splice_nodes_cases [OF this, of ?f] show ?case
  proof (elim disjE exE conjE)
    fix pre post
    assume ns: "children = pre @ TextNode s # post"
      and sp: "splice_nodes k ?f children = pre @ ?f s @ post"
    have "element_ids (ElementNode n tg i c children)
            = (n # concat (map element_ids pre)) @ concat (map element_ids post) \<and>
          element_ids (splice_in k ?f (ElementNode n tg i c children))
            = (n # concat (map element_ids pre)) @ h # concat (map element_ids post)"
      by (simp only: splice_in.simps sp) (simp add: ns highlight_fragment_def)
    then show ?thesis by blast
  next
    fix pre e post k'
    assume ns: "children = pre @ e # post" and e: "e \<in> set children" "node_id e \<noteq> None"
      and k': "nth_option (text_nodes e) k' = Some s"
      and sp: "splice_nodes k ?f children = pre @ splice_in k' ?f e # post"
    obtain as bs where ab: "element_ids e = as @ bs"
      "element_ids (splice_in k' ?f e) = as @ h # bs"
      using ElementNode.IH [OF e(1) k' e(2)] by blast
    have "element_ids (ElementNode n tg i c children)
            = (n # concat (map element_ids pre) @ as) @ (bs @ concat (map element_ids post)) \<and>
          element_ids (splice_in k ?f (ElementNode n tg i c children))
            = (n # concat (map element_ids pre) @ as) @ h # (bs @ concat (map element_ids post))"
      by (simp only: splice_in.simps sp) (simp add: ns ab)
    then show ?thesis by blast
  qed
qed

lemma update_element_insert:
  assumes "distinct (element_ids d)" "subtree_of t d = Some e"
    "element_ids e = as @ bs" "element_ids (g e) = as @ h # bs"
  shows "\<exists>as' bs'. element_ids d = as' @ bs' \<and>
           element_ids (update_element t g d) = as' @ h # bs'"
  using assms(1,2)
proof (induction d)
  case (TextNode s)
  then show ?case by (simp add: subtree_of_def)
next
  case (ElementNode n tg i c children)
  let ?P = "\<lambda>e. node_id e = Some t"
  show ?case
  proof (cases "n = t")
    case True
    then have "e = ElementNode n tg i c children"
      using ElementNode.prems(2) by (simp add: subtree_of_def)
    then show ?thesis using True assms(3,4) by auto
  next
    case False
    have f: "find ?P (concat (map subtrees children)) = Some e"
      using ElementNode.prems(2) False by (simp add: subtree_of_def)
    have d: "distinct (concat (map element_ids children))"
      using ElementNode.prems(1) by simp
    have "\<exists>A B. concat (map element_ids cs) = A @ B \<and>
            concat (map element_ids (map (update_element t g) cs)) = A @ h # B"
      if "set cs \<subseteq> set children" "distinct (concat (map element_ids cs))"
        "find ?P (concat (map subtrees cs)) = Some e" for cs
      using that
    proof (induction cs)
      case Nil
      then show ?case by simp
    next
      case (Cons x cs)
      show ?case
      proof (cases "find ?P (subtrees x)")
        case None
        then have "t \<notin> set (element_ids x)" by (rule find_subtrees_None)
        then have u: "update_element t g x = x" by (rule update_element_absent)
        obtain A B where "concat (map element_ids cs) = A @ B"
          "concat (map element_ids (map (update_element t g) cs)) = A @ h # B"
          using Cons None by (auto simp: find_append_cases)
        then have "concat (map element_ids (x # cs)) = (element_ids x @ A) @ B \<and>
            concat (map element_ids (map (update_element t g) (x # cs)))
              = (element_ids x @ A) @ h # B"
          using u by simp
        then show ?thesis by blast
      next
        case (Some y)
        then have y: "y = e" using Cons.prems(3) by (simp add: find_append_cases)
        then have st: "subtree_of t x = Some e" using Some by (simp add: subtree_of_def)
        moreover have "x \<in> set children" "distinct (element_ids x)"
          using Cons.prems by auto
        ultimately obtain A B where ab: "element_ids x = A @ B"
          "element_ids (update_element t g x) = A @ h # B"
          using ElementNode.IH by blast
        have "t \<in> set (element_ids x)" using st subtree_of_ids by blast
        then have "\<And>z. z \<in> set cs \<Longrightarrow> t \<notin> set (element_ids z)"
          using Cons.prems(2) by auto
        then have "map (update_element t g) cs = cs"
          by (simp add: map_idI update_element_absent)
        then have "concat (map element_ids (x # cs)) = A @ (B @ concat (map element_ids cs)) \<and>
            concat (map element_ids (map (update_element t g) (x # cs)))
              = A @ h # (B @ concat (map element_ids cs))"
          using ab by simp
        then show ?thesis by blast
      qed
    qed
    from this [OF subset_refl d f] obtain A B where
      "concat (map element_ids children) = A @ B"
      "concat (map element_ids (map (update_element t g) children)) = A @ h # B"
      by blast
    then have "element_ids (ElementNode n tg i c children) = (n # A) @ B \<and>
        element_ids (update_element t g (ElementNode n tg i c children)) = (n # A) @ h # B"
      using False by simp
    then show ?thesis by blast
  qed
qed

text \<open>The calls keep a state well formed.\<close>

lemma well_formed_removeTextHighlight:
  assumes "well_formed w"
  shows "well_formed (snd (removeTextHighlight w noteId))"
proof -
  have "distinct (map fst (map_delete (noteHighlights w) noteId))"
    using assms unfolding well_formed_def map_delete_def by (simp add: distinct_map_filter)
  then have "distinct (map fst (noteHighlights (snd (removeTextHighlight w noteId))))"
    using assms unfolding well_formed_def removeTextHighlight_def
    by (simp split: option.splits)
  then show ?thesis
    using assms removeTextHighlight_state(3,4,5) [where w = w and noteId = noteId]
    unfolding well_formed_def by auto
qed

lemma well_formed_cleanupHighlights:
  assumes "well_formed w"
  shows "well_formed (cleanupHighlights w)"
proof -
  have "well_formed (foldl (\<lambda>w' noteId. snd (removeTextHighlight w' noteId)) w ks)" for ks
    using assms
    by (induction ks arbitrary: w) (simp_all add: well_formed_removeTextHighlight)
  then show ?thesis using assms unfolding cleanupHighlights_def by (simp add: Let_def)
qed

lemma createTextHighlight_False:
  assumes "createTextHighlight w noteData c = (False, w')"
  shows "w' = w \<or> w' = snd (removeTextHighlight w (hn_id noteData)) \<or>
         w' = (snd (removeTextHighlight w (hn_id noteData)))
                \<lparr>hw_next_id := Suc (hw_next_id (snd (removeTextHighlight w (hn_id noteData))))\<rparr>"
  using assms unfolding createTextHighlight_def
  by (auto simp: Let_def split: option.splits if_splits prod.splits sum.splits)

lemma well_formed_createTextHighlight:
  assumes "well_formed w"
  shows "well_formed (snd (createTextHighlight w noteData c))"
proof (cases "fst (createTextHighlight w noteData c)")
  case False
  let ?w0 = "snd (removeTextHighlight w (hn_id noteData))"
  have "createTextHighlight w noteData c = (False, snd (createTextHighlight w noteData c))"
    using False by (simp add: prod_eq_iff)
  from createTextHighlight_False [OF this]
  have "snd (createTextHighlight w noteData c) = w \<or>
      snd (createTextHighlight w noteData c) = ?w0 \<or>
      snd (createTextHighlight w noteData c) = ?w0\<lparr>hw_next_id := Suc (hw_next_id ?w0)\<rparr>" .
  moreover have "well_formed ?w0" using assms by (rule well_formed_removeTextHighlight)
  moreover then have "well_formed (?w0\<lparr>hw_next_id := Suc (hw_next_id ?w0)\<rparr>)"
    unfolding well_formed_def by (auto intro: less_SucI)
  ultimately show ?thesis using assms by auto
next
  case True
  define nid where "nid = hn_id noteData"
  define w0 where "w0 = snd (removeTextHighlight w nid)"
  define h where "h = hw_next_id w"
  have c1: "createTextHighlight w noteData c = (True, snd (createTextHighlight w noteData c))"
    using True by (simp add: prod_eq_iff)
  obtain sd t target k pos s off where sd: "hn_selectionData noteData = Some sd"
    "sd_text sd \<noteq> []" "sd_targetElement sd = Some t"
    and tg: "subtree_of t (hw_document w0) = Some target"
    and ks: "nth_option (text_nodes target) k = Some s"
    and off: "findTextOffset s (sd_text sd) (sd_contextBefore sd) = Some off"
    and w1: "snd (createTextHighlight w noteData c) = cleanupHighlights
       \<lparr> hw_document =
           update_element t (splice_in k (highlight_fragment h off (length (sd_text sd))))
             (hw_document w0),
         noteHighlights =
           map_set (noteHighlights w0) nid
             \<lparr> hl_element = h, hl_targetElement = t, hl_originalText = sd_text sd \<rparr>,
         hw_next_id = Suc h \<rparr>"
    using createTextHighlight_True [OF c1] unfolding w0_def nid_def h_def by metis
  let ?f = "highlight_fragment h off (length (sd_text sd))"
  have wf0: "well_formed w0"
    unfolding w0_def using assms by (rule well_formed_removeTextHighlight)
  have k0: "nid \<notin> fst ` set (noteHighlights w0)" and n0: "hw_next_id w0 = h"
    unfolding w0_def h_def using removeTextHighlight_state [where w = w and noteId = nid]
    by blast+
  have dd: "distinct (element_ids (hw_document w0))"
    and bd: "\<forall>n\<in>set (element_ids (hw_document w0)). n < h"
    and kd: "distinct (map fst (noteHighlights w0))"
    using wf0 n0 unfolding well_formed_def by auto
  have "node_id target = Some t" using tg subtree_of_ids by blast
  then obtain as bs where asbs: "element_ids target = as @ bs"
    "element_ids (splice_in k ?f target) = as @ h # bs"
    using splice_in_insert [OF ks, of h off "length (sd_text sd)"] by auto
  from update_element_insert [of "hw_document w0" t target as bs "splice_in k ?f" h,
      OF dd tg asbs]
  obtain A B where
    ab: "element_ids (hw_document w0) = A @ B"
    "element_ids (update_element t (splice_in k ?f) (hw_document w0)) = A @ h # B"
    by blast
  have "h \<notin> set (A @ B)" using bd unfolding ab(1) by auto
  then have "distinct (A @ h # B)" "\<forall>n\<in>set (A @ h # B). n < Suc h"
    using dd bd unfolding ab(1) by (auto intro: less_SucI)
  moreover have "distinct (map fst (map_set (noteHighlights w0) nid v))" for v
    using kd k0 by (simp add: map_set_fresh)
  ultimately have "well_formed
       \<lparr> hw_document = update_element t (splice_in k ?f) (hw_document w0),
         noteHighlights =
           map_set (noteHighlights w0) nid
             \<lparr> hl_element = h, hl_targetElement = t, hl_originalText = sd_text sd \<rparr>,
         hw_next_id = Suc h \<rparr>"
    unfolding well_formed_def ab(2) [symmetric] by simp
  then show ?thesis unfolding w1 by (rule well_formed_cleanupHighlights)
qed

lemma apply_call_textContent:
  "textContent (hw_document (apply_call w c)) = textContent (hw_document w)"
  by (cases c) (simp_all add: createTextHighlight_textContent removeTextHighlight_textContent)

lemma highlight_calls_textContent:
  "textContent (hw_document (highlight_calls w cs)) = textContent (hw_document w)"
  unfolding highlight_calls_def
  by (induction cs arbitrary: w) (simp_all add: apply_call_textContent)

lemma well_formed_highlight_calls:
  "well_formed w \<Longrightarrow> well_formed (highlight_calls w cs)"
  unfolding highlight_calls_def
proof (induction cs arbitrary: w)
  case Nil
  then show ?case by simp
next
  case (Cons c cs)
  have "well_formed (apply_call w c)"
    using Cons.prems
    by (cases c) (simp_all add: well_formed_createTextHighlight well_formed_removeTextHighlight)
  then show ?case using Cons.IH by simp
qed

text \<open>The calls leave no highlight span in the document that is not recorded.\<close>

lemma highlight_spans_ids: "set (highlight_spans d) \<subseteq> set (element_ids d)"
proof (induction d)
  case (TextNode s)
  show ?case by simp
next
  case (ElementNode n tg i c children)
  then show ?case by auto
qed

lemma unwrap_highlight_spans: "set (highlight_spans (unwrap h d)) \<subseteq> set (highlight_spans d)"
proof (induction d)
  case (TextNode s)
  show ?case by simp
next
  case (ElementNode n tg i c children)
  let ?e = "ElementNode n tg i c children"
  show ?case
  proof (cases "list_ex (\<lambda>ch. node_id ch = Some h) children")
    case True
    let ?r = "\<lambda>ch. if node_id ch = Some h then TextNode (textContent ch) else ch"
    have u: "unwrap h ?e = normalize (ElementNode n tg i c (map ?r children))"
      using True by simp
    have "set (concat (map highlight_spans (map ?r children)))
          \<subseteq> set (concat (map highlight_spans children))"
      by (auto split: if_splits)
    then show ?thesis unfolding u normalize_highlight_spans by auto
  next
    case False
    then have u: "unwrap h ?e = ElementNode n tg i c (map (unwrap h) children)" by simp
    have "set (concat (map highlight_spans (map (unwrap h) children)))
          \<subseteq> set (concat (map highlight_spans children))"
      using ElementNode by auto
    then show ?thesis unfolding u by auto
  qed
qed

lemma distinct_concat_other:
  assumes "distinct (concat (map f cs))" "x \<in> set cs" "y \<in> set cs" "a \<in> set (f x)" "a \<in> set (f y)"
  shows "x = y"
  using assms
proof (induction cs)
  case Nil
  then show ?case by simp
next
  case (Cons c cs)
  then show ?case by auto
qed

lemma unwrap_removes:
  assumes "distinct (element_ids d)" "node_id d \<noteq> Some h"
  shows "h \<notin> set (element_ids (unwrap h d))"
  using assms
proof (induction d)
  case (TextNode s)
  show ?case by simp
next
  case (ElementNode n tg i c children)
  let ?e = "ElementNode n tg i c children"
  have hn: "h \<noteq> n" using ElementNode.prems(2) by simp
  have dc: "distinct (concat (map element_ids children))"
    and dx: "\<And>x. x \<in> set children \<Longrightarrow> distinct (element_ids x)"
    using ElementNode.prems(1) by (auto simp: distinct_concat_iff)
  show ?case
  proof (cases "list_ex (\<lambda>ch. node_id ch = Some h) children")
    case True
    let ?r = "\<lambda>ch. if node_id ch = Some h then TextNode (textContent ch) else ch"
    have u: "unwrap h ?e = normalize (ElementNode n tg i c (map ?r children))"
      using True by simp
    obtain ch0 where ch0: "ch0 \<in> set children" "node_id ch0 = Some h"
      using True by (auto simp: list_ex_iff)
    have "h \<notin> set (element_ids (?r x))" if "x \<in> set children" for x
    proof (cases "node_id x = Some h")
      case True
      then show ?thesis by simp
    next
      case False
      have "x \<noteq> ch0" using False ch0(2) by auto
      then have "h \<notin> set (element_ids x)"
        using distinct_concat_other [OF dc that ch0(1), of h] node_id_element_ids [OF ch0(2)]
        by blast
      then show ?thesis using False by simp
    qed
    then show ?thesis unfolding u normalize_element_ids using hn by auto
  next
    case False
    then have u: "unwrap h ?e = ElementNode n tg i c (map (unwrap h) children)" by simp
    have "h \<notin> set (element_ids (unwrap h x))" if "x \<in> set children" for x
      using ElementNode.IH [OF that dx [OF that]] False that by (auto simp: list_ex_iff)
    then show ?thesis unfolding u using hn by auto
  qed
qed

lemma className_of_normalize: "className_of (normalize d) = className_of d"
  by (cases d) simp_all

lemma className_of_unwrap: "className_of (unwrap h d) = className_of d"
  by (cases d) (simp_all add: className_of_normalize)

lemma className_of_splice_in: "className_of (splice_in k f d) = className_of d"
  by (cases d) simp_all

lemma className_of_update_element:
  "(\<And>x. className_of (g x) = className_of x) \<Longrightarrow>
   className_of (update_element t g d) = className_of d"
  by (cases d) simp_all

lemma unwrap_span_gone:
  assumes "distinct (element_ids d)" "className_of d \<noteq> HIGHLIGHT_CLASS"
  shows "h \<notin> set (highlight_spans (unwrap h d))"
proof (cases "node_id d = Some h")
  case False
  then show ?thesis
    using unwrap_removes [OF assms(1) False] highlight_spans_ids [of "unwrap h d"] by blast
next
  case True
  then obtain tg i c children where d: "d = ElementNode h tg i c children" by (cases d) auto
  have "h \<notin> set (concat (map element_ids children))" using assms(1) unfolding d by simp
  moreover have "set (concat (map highlight_spans children)) \<subseteq> set (concat (map element_ids children))"
    using highlight_spans_ids by fastforce
  ultimately have "h \<notin> set (highlight_spans d)" using assms(2) unfolding d by auto
  then show ?thesis using unwrap_highlight_spans [of h d] by blast
qed

lemma map_get_distinct:
  "distinct (map fst m) \<Longrightarrow> (k, v) \<in> set m \<Longrightarrow> map_get m k = Some v"
  unfolding map_get_def by simp

lemma tracked_removeTextHighlight:
  assumes "well_formed w" "highlights_tracked w"
  shows "highlights_tracked (snd (removeTextHighlight w noteId))"
proof (cases "map_get (noteHighlights w) noteId")
  case None
  then show ?thesis using assms(2) unfolding removeTextHighlight_def by simp
next
  case (Some r)
  let ?h = "hl_element r"
  let ?d = "unwrap ?h (hw_document w)"
  let ?m = "map_delete (noteHighlights w) noteId"
  have w': "snd (removeTextHighlight w noteId) = w\<lparr>hw_document := ?d, noteHighlights := ?m\<rparr>"
    unfolding removeTextHighlight_def Some by simp
  have dk: "distinct (map fst (noteHighlights w))" and di: "distinct (element_ids (hw_document w))"
    using assms(1) unfolding well_formed_def by auto
  have tr: "\<And>s. s \<in> set (highlight_spans (hw_document w)) \<Longrightarrow> s \<in> set (recorded_elements w)"
    and dr: "distinct (recorded_elements w)"
    and br: "\<And>x. x \<in> set (recorded_elements w) \<Longrightarrow> x < hw_next_id w"
    and rc: "className_of (hw_document w) \<noteq> HIGHLIGHT_CLASS"
    using assms(2) unfolding highlights_tracked_def untracked_highlights_def
    by (auto simp: filter_empty_conv list_all_iff)
  have gone: "?h \<notin> set (highlight_spans ?d)" using unwrap_span_gone [OF di rc] .
  have "s \<in> (\<lambda>entry. hl_element (snd entry)) ` set ?m" if "s \<in> set (highlight_spans ?d)" for s
  proof -
    have "s \<in> set (recorded_elements w)" using that unwrap_highlight_spans tr by blast
    then obtain k r' where kr: "(k, r') \<in> set (noteHighlights w)" "hl_element r' = s"
      unfolding recorded_elements_def by auto
    have "s \<noteq> ?h" using that gone by auto
    then have "k \<noteq> noteId" using map_get_distinct [OF dk kr(1)] Some kr(2) by auto
    then have "(k, r') \<in> set ?m" using kr(1) unfolding map_delete_def by simp
    then show ?thesis using kr(2) by force
  qed
  then have a: "untracked_highlights (snd (removeTextHighlight w noteId)) = []"
    unfolding w' untracked_highlights_def recorded_elements_def
    by (auto simp: filter_empty_conv)
  have b: "distinct (recorded_elements (snd (removeTextHighlight w noteId)))"
    using dr unfolding w' recorded_elements_def map_delete_def
    by (simp add: distinct_map_filter)
  have c: "list_all (\<lambda>h. h < hw_next_id (snd (removeTextHighlight w noteId)))
      (recorded_elements (snd (removeTextHighlight w noteId)))"
    using br unfolding w' recorded_elements_def map_delete_def
    by (auto simp: list_all_iff)
  have d: "className_of (hw_document (snd (removeTextHighlight w noteId))) \<noteq> HIGHLIGHT_CLASS"
    using rc unfolding w' by (simp add: className_of_unwrap)
  show ?thesis unfolding highlights_tracked_def using a b c d by simp
qed

lemma tracked_cleanupHighlights:
  assumes "well_formed w" "highlights_tracked w"
  shows "highlights_tracked (cleanupHighlights w)"
proof -
  have "well_formed (foldl (\<lambda>w' noteId. snd (removeTextHighlight w' noteId)) w ks) \<and>
        highlights_tracked (foldl (\<lambda>w' noteId. snd (removeTextHighlight w' noteId)) w ks)" for ks
    using assms
    by (induction ks arbitrary: w)
       (simp_all add: well_formed_removeTextHighlight tracked_removeTextHighlight)
  then show ?thesis using assms unfolding cleanupHighlights_def by (simp add: Let_def)
qed

lemma splice_nodes_spans:
  assumes "\<And>s. set (concat (map highlight_spans (f s))) \<subseteq> H"
  shows "set (concat (map highlight_spans (splice_nodes k f ns)))
         \<subseteq> set (concat (map highlight_spans ns)) \<union> H"
  using assms
proof (induction k f ns rule: splice_nodes.induct)
  case (1 k f)
  show ?case by simp
next
  case (2 k f s rest)
  show ?case
  proof (cases "k = 0")
    case True
    then show ?thesis using "2.prems" [of s] by auto
  next
    case False
    then show ?thesis using "2.IH" "2.prems" by auto
  qed
next
  case (3 k f n tg i c children rest)
  then show ?case by (auto simp: Let_def)
qed

lemma splice_in_spans:
  assumes "\<And>s. set (concat (map highlight_spans (f s))) \<subseteq> H"
  shows "set (highlight_spans (splice_in k f d)) \<subseteq> set (highlight_spans d) \<union> H"
proof (cases d)
  case (TextNode s)
  then show ?thesis by simp
next
  case (ElementNode n tg i c children)
  then show ?thesis using splice_nodes_spans [of f H k children, OF assms] by auto
qed

lemma update_element_spans:
  assumes "\<And>x. set (highlight_spans (g x)) \<subseteq> set (highlight_spans x) \<union> H"
  shows "set (highlight_spans (update_element t g d)) \<subseteq> set (highlight_spans d) \<union> H"
proof (induction d)
  case (TextNode s)
  show ?case by simp
next
  case (ElementNode n tg i c children)
  let ?e = "ElementNode n tg i c children"
  show ?case
  proof (cases "n = t")
    case True
    then show ?thesis using assms [of ?e] by simp
  next
    case False
    have "set (concat (map highlight_spans (map (update_element t g) children)))
          \<subseteq> set (concat (map highlight_spans children)) \<union> H"
      using ElementNode by auto
    then show ?thesis using False by auto
  qed
qed

lemma highlight_fragment_spans:
  "set (concat (map highlight_spans (highlight_fragment h off len s))) \<subseteq> {h}"
  unfolding highlight_fragment_def by simp

lemma inserted_spans:
  "set (highlight_spans (update_element t (splice_in k (highlight_fragment h off len)) d))
     \<subseteq> set (highlight_spans d) \<union> {h}"
  by (intro update_element_spans splice_in_spans highlight_fragment_spans)

text \<open>The state that a successful \<open>createTextHighlight\<close> hands to \<open>cleanupHighlights\<close>.\<close>

lemma well_formed_inserted:
  assumes wf0: "well_formed w0"
    and tg: "subtree_of t (hw_document w0) = Some target"
    and ks: "nth_option (text_nodes target) k = Some s"
    and k0: "nid \<notin> fst ` set (noteHighlights w0)"
  shows "well_formed
       \<lparr> hw_document =
           update_element t (splice_in k (highlight_fragment (hw_next_id w0) off len))
             (hw_document w0),
         noteHighlights = map_set (noteHighlights w0) nid v,
         hw_next_id = Suc (hw_next_id w0) \<rparr>"
proof -
  define h where "h = hw_next_id w0"
  let ?f = "highlight_fragment h off len"
  have dd: "distinct (element_ids (hw_document w0))"
    and bd: "\<forall>n\<in>set (element_ids (hw_document w0)). n < h"
    and kd: "distinct (map fst (noteHighlights w0))"
    using wf0 unfolding well_formed_def h_def by auto
  have "node_id target = Some t" using tg subtree_of_ids by blast
  then obtain as bs where asbs: "element_ids target = as @ bs"
    "element_ids (splice_in k ?f target) = as @ h # bs"
    using splice_in_insert [OF ks, of h off len] by auto
  from update_element_insert [of "hw_document w0" t target as bs "splice_in k ?f" h,
      OF dd tg asbs]
  obtain A B where
    ab: "element_ids (hw_document w0) = A @ B"
    "element_ids (update_element t (splice_in k ?f) (hw_document w0)) = A @ h # B"
    by blast
  have "h \<notin> set (A @ B)" using bd unfolding ab(1) by auto
  then have "distinct (A @ h # B)" "\<forall>n\<in>set (A @ h # B). n < Suc h"
    using dd bd unfolding ab(1) by (auto intro: less_SucI)
  moreover have "distinct (map fst (map_set (noteHighlights w0) nid v))"
    using kd k0 by (simp add: map_set_fresh)
  ultimately show ?thesis
    unfolding well_formed_def h_def [symmetric] ab(2) [symmetric] by simp
qed

lemma tracked_inserted:
  assumes tr: "highlights_tracked w0"
    and k0: "nid \<notin> fst ` set (noteHighlights w0)"
    and v: "hl_element v = hw_next_id w0"
  shows "highlights_tracked
       \<lparr> hw_document =
           update_element t (splice_in k (highlight_fragment (hw_next_id w0) off len))
             (hw_document w0),
         noteHighlights = map_set (noteHighlights w0) nid v,
         hw_next_id = Suc (hw_next_id w0) \<rparr>"
proof -
  define h where "h = hw_next_id w0"
  have t0: "\<And>s. s \<in> set (highlight_spans (hw_document w0)) \<Longrightarrow> s \<in> set (recorded_elements w0)"
    and dr: "distinct (recorded_elements w0)"
    and br: "\<And>x. x \<in> set (recorded_elements w0) \<Longrightarrow> x < h"
    and rc: "className_of (hw_document w0) \<noteq> HIGHLIGHT_CLASS"
    using tr unfolding highlights_tracked_def untracked_highlights_def h_def
    by (auto simp: filter_empty_conv list_all_iff)
  let ?W = "\<lparr> hw_document =
           update_element t (splice_in k (highlight_fragment h off len)) (hw_document w0),
         noteHighlights = map_set (noteHighlights w0) nid v,
         hw_next_id = Suc h \<rparr>"
  have re: "recorded_elements ?W = recorded_elements w0 @ [h]"
    unfolding recorded_elements_def using v by (simp add: map_set_fresh [OF k0] h_def)
  have hr: "h \<notin> set (recorded_elements w0)" using br by auto
  have a: "untracked_highlights ?W = []"
    unfolding untracked_highlights_def re using inserted_spans [of t k h off len "hw_document w0"] t0
    by (auto simp: filter_empty_conv)
  have b: "distinct (recorded_elements ?W)" unfolding re using dr hr by simp
  have c: "list_all (\<lambda>x. x < hw_next_id ?W) (recorded_elements ?W)"
    unfolding re using br by (auto simp: list_all_iff intro: less_SucI)
  have d: "className_of (hw_document ?W) \<noteq> HIGHLIGHT_CLASS"
    using rc by (simp add: className_of_update_element className_of_splice_in)
  show ?thesis unfolding h_def [symmetric] highlights_tracked_def using a b c d by blast
qed

lemma tracked_createTextHighlight:
  assumes "well_formed w" "highlights_tracked w"
  shows "highlights_tracked (snd (createTextHighlight w noteData c))"
proof (cases "fst (createTextHighlight w noteData c)")
  case False
  let ?w0 = "snd (removeTextHighlight w (hn_id noteData))"
  have "createTextHighlight w noteData c = (False, snd (createTextHighlight w noteData c))"
    using False by (simp add: prod_eq_iff)
  from createTextHighlight_False [OF this]
  have "snd (createTextHighlight w noteData c) = w \<or>
      snd (createTextHighlight w noteData c) = ?w0 \<or>
      snd (createTextHighlight w noteData c) = ?w0\<lparr>hw_next_id := Suc (hw_next_id ?w0)\<rparr>" .
  moreover have "highlights_tracked ?w0" using assms by (rule tracked_removeTextHighlight)
  moreover then have "highlights_tracked (?w0\<lparr>hw_next_id := Suc (hw_next_id ?w0)\<rparr>)"
    unfolding highlights_tracked_def untracked_highlights_def recorded_elements_def
    by (auto simp: list_all_iff intro: less_SucI)
  ultimately show ?thesis using assms by auto
next
  case True
  define nid where "nid = hn_id noteData"
  define w0 where "w0 = snd (removeTextHighlight w nid)"
  define h where "h = hw_next_id w"
  have c1: "createTextHighlight w noteData c = (True, snd (createTextHighlight w noteData c))"
    using True by (simp add: prod_eq_iff)
  obtain sd t target k pos s off where sd: "hn_selectionData noteData = Some sd"
    "sd_text sd \<noteq> []" "sd_targetElement sd = Some t"
    and tg: "subtree_of t (hw_document w0) = Some target"
    and ks: "nth_option (text_nodes target) k = Some s"
    and off: "findTextOffset s (sd_text sd) (sd_contextBefore sd) = Some off"
    and w1: "snd (createTextHighlight w noteData c) = cleanupHighlights
       \<lparr> hw_document =
           update_element t (splice_in k (highlight_fragment h off (length (sd_text sd))))
             (hw_document w0),
         noteHighlights =
           map_set (noteHighlights w0) nid
             \<lparr> hl_element = h, hl_targetElement = t, hl_originalText = sd_text sd \<rparr>,
         hw_next_id = Suc h \<rparr>"
    using createTextHighlight_True [OF c1] unfolding w0_def nid_def h_def by metis
  have wf0: "well_formed w0"
    unfolding w0_def using assms(1) by (rule well_formed_removeTextHighlight)
  have tr0: "highlights_tracked w0"
    unfolding w0_def using assms by (rule tracked_removeTextHighlight)
  have k0: "nid \<notin> fst ` set (noteHighlights w0)" and n0: "hw_next_id w0 = h"
    unfolding w0_def h_def using removeTextHighlight_state [where w = w and noteId = nid]
    by blast+
  show ?thesis
    unfolding w1
    using well_formed_inserted [OF wf0 tg ks k0, of off "length (sd_text sd)"
        "\<lparr> hl_element = h, hl_targetElement = t, hl_originalText = sd_text sd \<rparr>"]
      tracked_inserted [OF tr0 k0, of "\<lparr> hl_element = h, hl_targetElement = t, hl_originalText = sd_text sd \<rparr>"
        t k off "length (sd_text sd)"]
    unfolding n0 by (intro tracked_cleanupHighlights) simp_all
qed

lemma tracked_highlight_calls:
  "well_formed w \<Longrightarrow> highlights_tracked w \<Longrightarrow> highlights_tracked (highlight_calls w cs)"
  unfolding highlight_calls_def
proof (induction cs arbitrary: w)
  case Nil
  then show ?case by simp
next
  case (Cons c cs)
  have "well_formed (apply_call w c)"
    using Cons.prems
    by (cases c) (simp_all add: well_formed_createTextHighlight well_formed_removeTextHighlight)
  moreover have "highlights_tracked (apply_call w c)"
    using Cons.prems
    by (cases c) (simp_all add: tracked_createTextHighlight tracked_removeTextHighlight)
  ultimately show ?case using Cons.IH by simp
qed

lemma distinct_highlight_spans: "distinct (element_ids d) \<Longrightarrow> distinct (highlight_spans d)"
proof (induction d)
  case (TextNode s)
  show ?case by simp
next
  case (ElementNode n tg i c children)
  have "distinct (concat (map highlight_spans children))"
  proof (rule distinct_concat_map_sub [where g = element_ids])
    fix x assume "x \<in> set children"
    then show "set (highlight_spans x) \<subseteq> set (element_ids x) \<and>
        (distinct (element_ids x) \<longrightarrow> distinct (highlight_spans x))"
      using ElementNode.IH highlight_spans_ids by blast
  next
    show "distinct (concat (map element_ids children))" using ElementNode.prems by simp
  qed
  moreover have "n \<notin> set (concat (map highlight_spans children))"
    using ElementNode.prems highlight_spans_ids by fastforce
  ultimately show ?case by simp
qed

lemma filter_eq_distinct: "distinct xs \<Longrightarrow> length (filter (\<lambda>x. x = a) xs) \<le> 1"
proof (induction xs)
  case Nil
  show ?case by simp
next
  case (Cons x xs)
  then show ?case by (auto simp: filter_empty_conv)
qed

lemma live_highlights_one:
  assumes "well_formed w"
  shows "length (live_highlights w noteId) \<le> 1"
proof -
  have "distinct (highlight_spans (hw_document w))"
    using assms unfolding well_formed_def by (simp add: distinct_highlight_spans)
  then show ?thesis
    unfolding live_highlights_def using filter_eq_distinct [of "highlight_spans (hw_document w)"]
    by (auto split: option.splits)
qed

lemma tracked_count:
  assumes "well_formed w" "highlights_tracked w"
  shows "length (highlight_spans (hw_document w)) \<le> length (noteHighlights w)"
proof -
  have d: "distinct (highlight_spans (hw_document w))"
    using assms(1) unfolding well_formed_def by (simp add: distinct_highlight_spans)
  have "set (highlight_spans (hw_document w)) \<subseteq> set (recorded_elements w)"
    using assms(2) unfolding highlights_tracked_def untracked_highlights_def
    by (auto simp: filter_empty_conv)
  then have "card (set (highlight_spans (hw_document w))) \<le> card (set (recorded_elements w))"
    by (intro card_mono) simp_all
  also have "\<dots> \<le> length (recorded_elements w)" by (rule card_length)
  finally show ?thesis using distinct_card [OF d] unfolding recorded_elements_def by simp
qed

lemma apply_call_element_texts:
  assumes "b \<le> hw_next_id w"
  shows "set (element_texts (hw_document (apply_call w c)))
           \<subseteq> set (element_texts (hw_document w)) \<union> {(n, x). b \<le> n}
         \<and> b \<le> hw_next_id (apply_call w c)"
proof (cases c)
  case (CreateTextHighlight noteData color)
  then show ?thesis using createTextHighlight_element_texts [OF assms] by simp
next
  case (RemoveTextHighlight noteId)
  then show ?thesis
    using removeTextHighlight_element_texts [of w noteId] assms by auto
qed

lemma highlight_calls_element_texts:
  assumes "b \<le> hw_next_id w"
  shows "set (element_texts (hw_document (highlight_calls w cs)))
           \<subseteq> set (element_texts (hw_document w)) \<union> {(n, x). b \<le> n}"
  unfolding highlight_calls_def using assms
proof (induction cs arbitrary: w)
  case Nil
  show ?case by simp
next
  case (Cons c cs)
  have a: "set (element_texts (hw_document (apply_call w c)))
           \<subseteq> set (element_texts (hw_document w)) \<union> {(n, x). b \<le> n}"
    and b: "b \<le> hw_next_id (apply_call w c)"
    using apply_call_element_texts [OF Cons.prems] by blast+
  show ?case using Cons.IH [OF b] a by auto
qed

lemma subtrees_element_texts:
  "map (\<lambda>e. (the (node_id e), textContent e)) (subtrees d) = element_texts d"
proof (induction d)
  case (TextNode s)
  show ?case by simp
next
  case (ElementNode n tg i c children)
  then have a: "map (map (\<lambda>e. (the (node_id e), textContent e)) \<circ> subtrees) children
      = map element_texts children"
    by simp
  show ?case by (simp add: map_concat a)
qed

lemma subtree_of_element_texts:
  assumes "subtree_of t d = Some e"
  shows "(t, textContent e) \<in> set (element_texts d)"
proof -
  have "e \<in> set (subtrees d)" "node_id e = Some t"
    using assms subtree_of_member subtree_of_ids by blast+
  then have "(t, textContent e) \<in> set (map (\<lambda>e. (the (node_id e), textContent e)) (subtrees d))"
    by (force simp: image_iff)
  then show ?thesis unfolding subtrees_element_texts .
qed

lemma element_texts_subtree_of:
  assumes "distinct (element_ids d)" "(t, x) \<in> set (element_texts d)"
  shows "textContent_of d t = Some x"
proof -
  obtain e where e: "e \<in> set (subtrees d)" "the (node_id e) = t" "textContent e = x"
    using assms(2) unfolding subtrees_element_texts [symmetric] by auto
  then have n: "node_id e = Some t" using subtrees_elements [OF e(1)] by auto
  then obtain e' where e': "subtree_of t d = Some e'"
    using e(1) unfolding subtree_of_def by (cases "find (\<lambda>e. node_id e = Some t) (subtrees d)")
      (auto simp: find_None_iff)
  have "e = e'" using subtree_of_unique [OF assms(1) e' e(1) n] .
  then show ?thesis using e' e(3) unfolding textContent_of_def by simp
qed

text \<open>An element of the document keeps its text content as long as it is in the document.\<close>

lemma highlight_calls_container:
  assumes "well_formed w" "t \<in> set (element_ids (hw_document w))"
  shows "textContent_of (hw_document (highlight_calls w cs)) t = None \<or>
         textContent_of (hw_document (highlight_calls w cs)) t = textContent_of (hw_document w) t"
proof (cases "subtree_of t (hw_document (highlight_calls w cs))")
  case None
  then show ?thesis unfolding textContent_of_def by simp
next
  case (Some e)
  then have "(t, textContent e) \<in> set (element_texts (hw_document (highlight_calls w cs)))"
    by (rule subtree_of_element_texts)
  moreover have "t < hw_next_id w" using assms unfolding well_formed_def by blast
  ultimately have "(t, textContent e) \<in> set (element_texts (hw_document w))"
    using highlight_calls_element_texts [of "hw_next_id w" w cs] by auto
  then have "textContent_of (hw_document w) t = Some (textContent e)"
    using assms(1) element_texts_subtree_of unfolding well_formed_def by blast
  then show ?thesis using Some unfolding textContent_of_def by auto
qed

lemma removeTextHighlight_again:
  "removeTextHighlight (snd (removeTextHighlight w noteId)) noteId
     = (False, snd (removeTextHighlight w noteId))"
proof -
  have "map_get (noteHighlights (snd (removeTextHighlight w noteId))) noteId = None"
    using removeTextHighlight_state(1) [where w = w and noteId = noteId]
    by (simp add: map_get_None)
  then show ?thesis unfolding removeTextHighlight_def [of "snd (removeTextHighlight w noteId)"]
    by simp
qed

lemma removeTextHighlight_next_id:
  "removeTextHighlight (w\<lparr>hw_next_id := n\<rparr>) noteId
     = (fst (removeTextHighlight w noteId), (snd (removeTextHighlight w noteId))\<lparr>hw_next_id := n\<rparr>)"
  unfolding removeTextHighlight_def by (simp split: option.splits)

text \<open>
  A call of \<open>createTextHighlight\<close> followed by \<open>removeTextHighlight\<close> for the same note,
  while the other notes leave room for one more entry.
\<close>

lemma create_remove:
  assumes wf: "well_formed w"
    and cap: "length (noteHighlights (snd (removeTextHighlight w (hn_id noteData)))) < MAX_HIGHLIGHTS"
  shows "normalize (hw_document (snd (removeTextHighlight (snd (createTextHighlight w noteData c))
                      (hn_id noteData))))
           = normalize (hw_document (snd (removeTextHighlight w (hn_id noteData)))) \<and>
         (normalized (hw_document (snd (removeTextHighlight w (hn_id noteData)))) \<longrightarrow>
            hw_document (snd (removeTextHighlight (snd (createTextHighlight w noteData c))
                      (hn_id noteData)))
              = hw_document (snd (removeTextHighlight w (hn_id noteData)))) \<and>
         noteHighlights (snd (removeTextHighlight (snd (createTextHighlight w noteData c))
                      (hn_id noteData)))
           = noteHighlights (snd (removeTextHighlight w (hn_id noteData)))"
proof (cases "fst (createTextHighlight w noteData c)")
  case False
  let ?w0 = "snd (removeTextHighlight w (hn_id noteData))"
  have "createTextHighlight w noteData c = (False, snd (createTextHighlight w noteData c))"
    using False by (simp add: prod_eq_iff)
  from createTextHighlight_False [OF this]
  have "snd (createTextHighlight w noteData c) = w \<or>
      snd (createTextHighlight w noteData c) = ?w0 \<or>
      snd (createTextHighlight w noteData c) = ?w0\<lparr>hw_next_id := Suc (hw_next_id ?w0)\<rparr>" .
  then show ?thesis
    using removeTextHighlight_again [of w "hn_id noteData"]
    by (auto simp: removeTextHighlight_next_id)
next
  case True
  define nid where "nid = hn_id noteData"
  define w0 where "w0 = snd (removeTextHighlight w nid)"
  define h where "h = hw_next_id w"
  have d0: "distinct (element_ids (hw_document w))"
    and b0: "\<forall>n\<in>set (element_ids (hw_document w)). n < hw_next_id w"
    using wf unfolding well_formed_def by blast+
  have c1: "createTextHighlight w noteData c = (True, snd (createTextHighlight w noteData c))"
    using True by (simp add: prod_eq_iff)
  obtain sd t target k pos s off where sd: "hn_selectionData noteData = Some sd"
    "sd_text sd \<noteq> []" "sd_targetElement sd = Some t"
    and tg: "subtree_of t (hw_document w0) = Some target"
    and ks: "nth_option (text_nodes target) k = Some s"
    and off: "findTextOffset s (sd_text sd) (sd_contextBefore sd) = Some off"
    and w1: "snd (createTextHighlight w noteData c) = cleanupHighlights
       \<lparr> hw_document =
           update_element t (splice_in k (highlight_fragment h off (length (sd_text sd))))
             (hw_document w0),
         noteHighlights =
           map_set (noteHighlights w0) nid
             \<lparr> hl_element = h, hl_targetElement = t, hl_originalText = sd_text sd \<rparr>,
         hw_next_id = Suc h \<rparr>"
    using createTextHighlight_True [OF c1] unfolding w0_def nid_def h_def by metis
  let ?len = "length (sd_text sd)"
  let ?f = "highlight_fragment h off ?len"
  let ?r1 = "\<lparr> hl_element = h, hl_targetElement = t, hl_originalText = sd_text sd \<rparr>"
  have k0: "nid \<notin> fst ` set (noteHighlights w0)"
    and s0: "set (element_ids (hw_document w0)) \<subseteq> set (element_ids (hw_document w))"
    and dd: "distinct (element_ids (hw_document w0))"
    unfolding w0_def using removeTextHighlight_state [where w = w and noteId = nid] d0 by blast+
  have hd: "h \<notin> set (element_ids (hw_document w0))"
    using s0 b0 unfolding h_def by auto
  let ?d1 = "update_element t (splice_in k ?f) (hw_document w0)"
  let ?m1 = "noteHighlights w0 @ [(nid, ?r1)]"
  have w1': "snd (createTextHighlight w noteData c)
      = \<lparr> hw_document = ?d1, noteHighlights = ?m1, hw_next_id = Suc h \<rparr>"
    unfolding w1 map_set_fresh [OF k0]
    by (rule cleanupHighlights_small) (use cap in \<open>simp add: w0_def nid_def\<close>)
  have tm: "target \<in> set (subtrees (hw_document w0))" "node_id target = Some t"
    using tg subtree_of_member subtree_of_ids by blast+
  have ht: "h \<notin> set (element_ids target)"
    using hd subtrees_ids_subset [OF tm(1)] by blast
  let ?G = "\<lambda>x. unwrap h (splice_in k ?f x)"
  have uniq: "x = target" if "x \<in> set (subtrees (hw_document w0))" "node_id x = Some t" for x
    using subtree_of_unique [OF dd tg that] .
  have g1: "map_get (noteHighlights (snd (createTextHighlight w noteData c))) nid = Some ?r1"
    unfolding w1' using map_get_last [OF k0] by simp
  have r1: "snd (removeTextHighlight (snd (createTextHighlight w noteData c)) nid)
      = \<lparr> hw_document = unwrap h ?d1, noteHighlights = noteHighlights w0, hw_next_id = Suc h \<rparr>"
    unfolding removeTextHighlight_def g1
    by (simp add: w1' map_delete_last [OF k0])
  have u1: "unwrap h ?d1 = update_element t ?G (hw_document w0)"
    by (rule unwrap_update_element [OF hd]) (rule node_id_splice_in)
  have N1: "normalize (?G target) = normalize target" "normalized target \<Longrightarrow> ?G target = target"
    using unwrap_splice_normalize [OF ht ks, of off ?len] by blast+
  have nu1: "normalize (unwrap h ?d1) = normalize (hw_document w0)"
    unfolding u1 by (rule update_element_normalize) (use uniq N1(1) in blast)
  have ex1: "unwrap h ?d1 = hw_document w0" if "normalized (hw_document w0)"
    unfolding u1
  proof (rule update_element_fixed)
    fix x assume x: "x \<in> set (subtrees (hw_document w0))" "node_id x = Some t"
    have "normalized target" using subtrees_normalized [OF tm(1) that] .
    then show "?G x = x" using uniq [OF x] N1(2) by simp
  qed
  show ?thesis
    unfolding nid_def [symmetric] w0_def [symmetric] r1 using nu1 ex1 by simp
qed

lemma apply_call_remove:
  assumes wf: "well_formed w"
    and cap: "length (noteHighlights (snd (removeTextHighlight w noteId))) < MAX_HIGHLIGHTS"
    and c: "call_note c = noteId"
  shows "normalize (hw_document (snd (removeTextHighlight (apply_call w c) noteId)))
           = normalize (hw_document (snd (removeTextHighlight w noteId))) \<and>
         (normalized (hw_document (snd (removeTextHighlight w noteId))) \<longrightarrow>
            hw_document (snd (removeTextHighlight (apply_call w c) noteId))
              = hw_document (snd (removeTextHighlight w noteId))) \<and>
         noteHighlights (snd (removeTextHighlight (apply_call w c) noteId))
           = noteHighlights (snd (removeTextHighlight w noteId))"
proof (cases c)
  case (CreateTextHighlight noteData col)
  then have n: "hn_id noteData = noteId" using c by simp
  show ?thesis
    using create_remove [OF wf, of noteData col] cap
    unfolding CreateTextHighlight n by simp
next
  case (RemoveTextHighlight k)
  then have "k = noteId" using c by simp
  then show ?thesis
    unfolding RemoveTextHighlight by (simp add: removeTextHighlight_again)
qed

lemma highlight_calls_remove:
  assumes "well_formed w"
    and "length (noteHighlights (snd (removeTextHighlight w noteId))) < MAX_HIGHLIGHTS"
    and "list_all (\<lambda>c. call_note c = noteId) calls"
  shows "normalize (hw_document (snd (removeTextHighlight (highlight_calls w calls) noteId)))
           = normalize (hw_document (snd (removeTextHighlight w noteId))) \<and>
         (normalized (hw_document (snd (removeTextHighlight w noteId))) \<longrightarrow>
            hw_document (snd (removeTextHighlight (highlight_calls w calls) noteId))
              = hw_document (snd (removeTextHighlight w noteId)))"
  using assms unfolding highlight_calls_def
proof (induction calls arbitrary: w)
  case Nil
  show ?case by simp
next
  case (Cons c cs)
  have wf: "well_formed (apply_call w c)"
    using Cons.prems(1)
    by (cases c) (simp_all add: well_formed_createTextHighlight well_formed_removeTextHighlight)
  have cn: "call_note c = noteId" and rest: "list_all (\<lambda>c. call_note c = noteId) cs"
    using Cons.prems(3) by simp_all
  note step = apply_call_remove [OF Cons.prems(1,2) cn]
  have cap: "length (noteHighlights (snd (removeTextHighlight (apply_call w c) noteId)))
      < MAX_HIGHLIGHTS"
    using step Cons.prems(2) by simp
  from Cons.IH [OF wf cap rest] step show ?case by auto
qed

lemma tracked_live:
  assumes "well_formed w" "highlights_tracked w"
  shows "set (highlight_spans (hw_document w))
         = (\<Union>k\<in>fst ` set (noteHighlights w). set (live_highlights w k))"
proof (intro equalityI subsetI)
  fix s assume s: "s \<in> set (highlight_spans (hw_document w))"
  have dk: "distinct (map fst (noteHighlights w))"
    using assms(1) unfolding well_formed_def by simp
  have "s \<in> set (recorded_elements w)"
    using assms(2) s unfolding highlights_tracked_def untracked_highlights_def
    by (auto simp: filter_empty_conv)
  then obtain k r where kr: "(k, r) \<in> set (noteHighlights w)" "hl_element r = s"
    unfolding recorded_elements_def by auto
  have "map_get (noteHighlights w) k = Some r" using map_get_distinct [OF dk kr(1)] .
  then have "s \<in> set (live_highlights w k)"
    unfolding live_highlights_def using s kr(2) by simp
  then show "s \<in> (\<Union>k\<in>fst ` set (noteHighlights w). set (live_highlights w k))"
    using kr(1) by force
next
  fix s assume "s \<in> (\<Union>k\<in>fst ` set (noteHighlights w). set (live_highlights w k))"
  then show "s \<in> set (highlight_spans (hw_document w))"
    unfolding live_highlights_def by (auto split: option.splits)
qed

text \<open>
  C6 (amended).  From a well-formed state, after any sequence of \<open>createTextHighlight\<close> and
  \<open>removeTextHighlight\<close> calls the state is well formed (\<open>noteHighlights\<close> has at most one
  entry for a note), the text content of the document is what it was, and so is the
  text content of every element of the original document that is still in the
  document; every note has at most one live highlight; and when every highlight span of
  the document was recorded at the start, every highlight span is recorded at the end,
  each for one note: the highlight spans of the document are the live highlights of the
  recorded notes, and the document has no more highlight spans than there are entries.
  While fewer than \<open>MAX_HIGHLIGHTS\<close> highlights are tracked, calling \<open>createTextHighlight\<close>
  again after a call that returned \<open>true\<close> returns \<open>true\<close>, the span recorded for the note
  is in the document, the span of the first call is not, and the document has as many
  highlight spans as after the first call: one more than before it.  A \<open>removeTextHighlight\<close> after that returns \<open>true\<close> and leaves no entry for the note
  and the elements and highlight spans the document had before the first highlight was
  made; the document is that document up to normalisation, and it is that very document
  when that one was normalized: the wrapper is replaced by a text node and the adjacent
  text nodes are merged.  And while the other notes leave room for one more entry, after
  any number of \<open>createTextHighlight\<close> and \<open>removeTextHighlight\<close> calls for one note, whatever
  they return, \<open>removeTextHighlight\<close> for that note leaves the document that it would have
  left before those calls, up to normalisation, and that very document when it was
  normalized.
\<close>

theorem C6_highlight_idempotence:
  assumes "well_formed w"
  shows "(let w' = highlight_calls w calls
          in well_formed w' \<and>
             textContent (hw_document w') = textContent (hw_document w) \<and>
             (\<forall>t\<in>set (element_ids (hw_document w)).
                textContent_of (hw_document w') t = None \<or>
                textContent_of (hw_document w') t = textContent_of (hw_document w) t) \<and>
             (\<forall>k. length (live_highlights w' k) \<le> 1) \<and>
             (highlights_tracked w \<longrightarrow>
                highlights_tracked w' \<and> untracked_highlights w' = [] \<and>
                set (highlight_spans (hw_document w'))
                  = (\<Union>k\<in>fst ` set (noteHighlights w'). set (live_highlights w' k)) \<and>
                length (highlight_spans (hw_document w')) \<le> length (noteHighlights w'))) \<and>
         (length (noteHighlights w) < MAX_HIGHLIGHTS \<and>
          createTextHighlight w noteData c1 = (True, w1) \<longrightarrow>
          (\<exists>w2 w3 r1 r2.
             createTextHighlight w1 noteData c2 = (True, w2) \<and>
             map_get (noteHighlights w1) (hn_id noteData) = Some r1 \<and>
             map_get (noteHighlights w2) (hn_id noteData) = Some r2 \<and>
             hl_element r1 \<in> set (highlight_spans (hw_document w1)) \<and>
             hl_element r2 \<in> set (highlight_spans (hw_document w2)) \<and>
             hl_element r1 \<notin> set (element_ids (hw_document w2)) \<and>
             length (highlight_spans (hw_document w2))
               = length (highlight_spans (hw_document w1)) \<and>
             length (highlight_spans (hw_document w1))
               = Suc (length (highlight_spans
                        (hw_document (snd (removeTextHighlight w (hn_id noteData)))))) \<and>
             removeTextHighlight w2 (hn_id noteData) = (True, w3) \<and>
             map_get (noteHighlights w3) (hn_id noteData) = None \<and>
             element_ids (hw_document w3)
               = element_ids (hw_document (snd (removeTextHighlight w (hn_id noteData)))) \<and>
             highlight_spans (hw_document w3)
               = highlight_spans (hw_document (snd (removeTextHighlight w (hn_id noteData)))) \<and>
             normalize (hw_document w3)
               = normalize (hw_document (snd (removeTextHighlight w (hn_id noteData)))) \<and>
             (normalized (hw_document (snd (removeTextHighlight w (hn_id noteData)))) \<longrightarrow>
                hw_document (snd (removeTextHighlight w1 (hn_id noteData)))
                  = hw_document (snd (removeTextHighlight w (hn_id noteData))) \<and>
                hw_document w3 = hw_document (snd (removeTextHighlight w (hn_id noteData)))))) \<and>
         (length (noteHighlights (snd (removeTextHighlight w noteId))) < MAX_HIGHLIGHTS \<and>
          list_all (\<lambda>c. call_note c = noteId) cycles \<longrightarrow>
            normalize (hw_document (snd (removeTextHighlight (highlight_calls w cycles) noteId)))
              = normalize (hw_document (snd (removeTextHighlight w noteId))) \<and>
            (normalized (hw_document (snd (removeTextHighlight w noteId))) \<longrightarrow>
               hw_document (snd (removeTextHighlight (highlight_calls w cycles) noteId))
                 = hw_document (snd (removeTextHighlight w noteId))))"
proof -
  have d: "distinct (element_ids (hw_document w))"
    and b: "\<forall>n\<in>set (element_ids (hw_document w)). n < hw_next_id w"
    using assms unfolding well_formed_def by blast+
  have a1: "well_formed (highlight_calls w calls)"
    using assms by (rule well_formed_highlight_calls)
  have a2: "textContent (hw_document (highlight_calls w calls)) = textContent (hw_document w)"
    by (rule highlight_calls_textContent)
  have a3: "\<forall>t\<in>set (element_ids (hw_document w)).
         textContent_of (hw_document (highlight_calls w calls)) t = None \<or>
         textContent_of (hw_document (highlight_calls w calls)) t
           = textContent_of (hw_document w) t"
    using highlight_calls_container [OF assms, of _ calls] by blast
  have a4: "\<forall>k. length (live_highlights (highlight_calls w calls) k) \<le> 1"
    using live_highlights_one [OF a1] by blast
  have a5: "highlights_tracked w \<longrightarrow>
         highlights_tracked (highlight_calls w calls) \<and>
         untracked_highlights (highlight_calls w calls) = [] \<and>
         set (highlight_spans (hw_document (highlight_calls w calls)))
           = (\<Union>k\<in>fst ` set (noteHighlights (highlight_calls w calls)).
                set (live_highlights (highlight_calls w calls) k)) \<and>
         length (highlight_spans (hw_document (highlight_calls w calls)))
           \<le> length (noteHighlights (highlight_calls w calls))"
  proof
    assume "highlights_tracked w"
    then have t: "highlights_tracked (highlight_calls w calls)"
      by (rule tracked_highlight_calls [OF assms])
    then have u: "untracked_highlights (highlight_calls w calls) = []"
      unfolding highlights_tracked_def by (rule conjunct1)
    from t u tracked_live [OF a1 t] tracked_count [OF a1 t]
    show "highlights_tracked (highlight_calls w calls) \<and>
         untracked_highlights (highlight_calls w calls) = [] \<and>
         set (highlight_spans (hw_document (highlight_calls w calls)))
           = (\<Union>k\<in>fst ` set (noteHighlights (highlight_calls w calls)).
                set (live_highlights (highlight_calls w calls) k)) \<and>
         length (highlight_spans (hw_document (highlight_calls w calls)))
           \<le> length (noteHighlights (highlight_calls w calls))"
      by (intro conjI)
  qed
  note first = conjI [OF a1 conjI [OF a2 conjI [OF a3 conjI [OF a4 a5]]]]
  have third: "length (noteHighlights (snd (removeTextHighlight w noteId))) < MAX_HIGHLIGHTS \<and>
          list_all (\<lambda>c. call_note c = noteId) cycles \<longrightarrow>
            normalize (hw_document (snd (removeTextHighlight (highlight_calls w cycles) noteId)))
              = normalize (hw_document (snd (removeTextHighlight w noteId))) \<and>
            (normalized (hw_document (snd (removeTextHighlight w noteId))) \<longrightarrow>
               hw_document (snd (removeTextHighlight (highlight_calls w cycles) noteId))
                 = hw_document (snd (removeTextHighlight w noteId)))"
    using highlight_calls_remove [OF assms, of noteId cycles] by blast
  have second: "length (noteHighlights w) < MAX_HIGHLIGHTS \<and>
          createTextHighlight w noteData c1 = (True, w1) \<longrightarrow>
          (\<exists>w2 w3 r1 r2.
             createTextHighlight w1 noteData c2 = (True, w2) \<and>
             map_get (noteHighlights w1) (hn_id noteData) = Some r1 \<and>
             map_get (noteHighlights w2) (hn_id noteData) = Some r2 \<and>
             hl_element r1 \<in> set (highlight_spans (hw_document w1)) \<and>
             hl_element r2 \<in> set (highlight_spans (hw_document w2)) \<and>
             hl_element r1 \<notin> set (element_ids (hw_document w2)) \<and>
             length (highlight_spans (hw_document w2))
               = length (highlight_spans (hw_document w1)) \<and>
             length (highlight_spans (hw_document w1))
               = Suc (length (highlight_spans
                        (hw_document (snd (removeTextHighlight w (hn_id noteData)))))) \<and>
             removeTextHighlight w2 (hn_id noteData) = (True, w3) \<and>
             map_get (noteHighlights w3) (hn_id noteData) = None \<and>
             element_ids (hw_document w3)
               = element_ids (hw_document (snd (removeTextHighlight w (hn_id noteData)))) \<and>
             highlight_spans (hw_document w3)
               = highlight_spans (hw_document (snd (removeTextHighlight w (hn_id noteData)))) \<and>
             normalize (hw_document w3)
               = normalize (hw_document (snd (removeTextHighlight w (hn_id noteData)))) \<and>
             (normalized (hw_document (snd (removeTextHighlight w (hn_id noteData)))) \<longrightarrow>
                hw_document (snd (removeTextHighlight w1 (hn_id noteData)))
                  = hw_document (snd (removeTextHighlight w (hn_id noteData))) \<and>
                hw_document w3 = hw_document (snd (removeTextHighlight w (hn_id noteData)))))"
    using recreate [OF d b, of noteData c1 w1 c2] by blast
  show ?thesis
    unfolding Let_def by (rule conjI [OF first conjI [OF second third]])
qed

text \<open>
  C6 on the paragraph \<open>say hello world today\<close>: the note is highlighted twice and the
  highlight is removed.  After the two calls the document has the one span 5, which is
  the live highlight of the note; after the removal the document is the original page.
\<close>

theorem C6_highlight_idempotence_witness:
  "well_formed hello_world0 \<and>
   highlights_tracked hello_world0 \<and>
   length (noteHighlights hello_world0) < MAX_HIGHLIGHTS \<and>
   createTextHighlight hello_world0 hello_note (JSString ''yellow'') = (True, hello_world1) \<and>
   normalized (hw_document (snd (removeTextHighlight hello_world0 (hn_id hello_note)))) \<and>
   well_formed (highlight_calls hello_world0 hello_calls) \<and>
   textContent (hw_document (highlight_calls hello_world0 hello_calls))
     = ''say hello world today'' \<and>
   highlights_tracked (highlight_calls hello_world0 hello_calls) \<and>
   untracked_highlights (highlight_calls hello_world0 hello_calls) = [] \<and>
   length (live_highlights (highlight_calls hello_world0 hello_calls) ''n1'') \<le> 1 \<and>
   highlight_spans (hw_document (highlight_calls hello_world0 (take 2 hello_calls))) = [5] \<and>
   live_highlights (highlight_calls hello_world0 (take 2 hello_calls)) ''n1'' = [5] \<and>
   untracked_highlights (highlight_calls hello_world0 (take 2 hello_calls)) = [] \<and>
   (\<exists>w2 w3 r1 r2.
      createTextHighlight hello_world1 hello_note JSNull = (True, w2) \<and>
      map_get (noteHighlights hello_world1) (hn_id hello_note) = Some r1 \<and>
      map_get (noteHighlights w2) (hn_id hello_note) = Some r2 \<and>
      hl_element r1 \<in> set (highlight_spans (hw_document hello_world1)) \<and>
      hl_element r2 \<in> set (highlight_spans (hw_document w2)) \<and>
      hl_element r1 \<notin> set (element_ids (hw_document w2)) \<and>
      length (highlight_spans (hw_document w2)) = 1 \<and>
      removeTextHighlight w2 (hn_id hello_note) = (True, w3) \<and>
      map_get (noteHighlights w3) (hn_id hello_note) = None \<and>
      highlight_spans (hw_document w3) = [] \<and>
      hw_document w3 = hello_page) \<and>
   list_all (\<lambda>c. call_note c = ''n1'') hello_calls \<and>
   hw_document (snd (removeTextHighlight (highlight_calls hello_world0 hello_calls) ''n1''))
     = hello_page"
proof -
  have wf: "well_formed hello_world0" by code_simp
  have tr: "highlights_tracked hello_world0" by code_simp
  have cap: "length (noteHighlights hello_world0) < MAX_HIGHLIGHTS"
    by (simp add: hello_world0_def MAX_HIGHLIGHTS_def)
  have c: "createTextHighlight hello_world0 hello_note (JSString ''yellow'') = (True, hello_world1)"
    by code_simp
  have t: "textContent (hw_document hello_world0) = ''say hello world today''" by code_simp
  have r0: "hw_document (snd (removeTextHighlight hello_world0 (hn_id hello_note))) = hello_page"
    by code_simp
  have n0: "normalized hello_page" by code_simp
  have s0: "highlight_spans hello_page = []" by code_simp
  have s1: "length (highlight_spans (hw_document hello_world1)) = 1" by code_simp
  have two: "highlight_spans (hw_document (highlight_calls hello_world0 (take 2 hello_calls))) = [5]"
    "live_highlights (highlight_calls hello_world0 (take 2 hello_calls)) ''n1'' = [5]"
    "untracked_highlights (highlight_calls hello_world0 (take 2 hello_calls)) = []"
    by code_simp+
  have cy: "list_all (\<lambda>c. call_note c = ''n1'') hello_calls" by code_simp
  have r1: "hw_document (snd (removeTextHighlight hello_world0 ''n1'')) = hello_page"
    and cap1: "length (noteHighlights (snd (removeTextHighlight hello_world0 ''n1''))) < MAX_HIGHLIGHTS"
    by code_simp+
  note T = C6_highlight_idempotence [OF wf, of hello_calls hello_note "JSString ''yellow''"
      hello_world1 JSNull "''n1''" hello_calls, unfolded Let_def]
  note T1 = T [THEN conjunct1]
  note T2 = T [THEN conjunct2, THEN conjunct1]
  note T3 = T [THEN conjunct2, THEN conjunct2]
  have a: "well_formed (highlight_calls hello_world0 hello_calls)"
    "textContent (hw_document (highlight_calls hello_world0 hello_calls))
       = ''say hello world today''"
    using T1 [THEN conjunct1] T1 [THEN conjunct2, THEN conjunct1] unfolding t by blast+
  have g: "highlights_tracked (highlight_calls hello_world0 hello_calls)"
    "untracked_highlights (highlight_calls hello_world0 hello_calls) = []"
    using T1 [THEN conjunct2, THEN conjunct2, THEN conjunct2, THEN conjunct2, THEN mp, OF tr]
    by (rule conjunct1, elim conjE)
  have l: "length (live_highlights (highlight_calls hello_world0 hello_calls) ''n1'') \<le> 1"
    using T1 [THEN conjunct2, THEN conjunct2, THEN conjunct2, THEN conjunct1] by (rule spec)
  have e: "\<exists>w2 w3 r1 r2.
      createTextHighlight hello_world1 hello_note JSNull = (True, w2) \<and>
      map_get (noteHighlights hello_world1) (hn_id hello_note) = Some r1 \<and>
      map_get (noteHighlights w2) (hn_id hello_note) = Some r2 \<and>
      hl_element r1 \<in> set (highlight_spans (hw_document hello_world1)) \<and>
      hl_element r2 \<in> set (highlight_spans (hw_document w2)) \<and>
      hl_element r1 \<notin> set (element_ids (hw_document w2)) \<and>
      length (highlight_spans (hw_document w2)) = 1 \<and>
      removeTextHighlight w2 (hn_id hello_note) = (True, w3) \<and>
      map_get (noteHighlights w3) (hn_id hello_note) = None \<and>
      highlight_spans (hw_document w3) = [] \<and>
      hw_document w3 = hello_page"
    using T2 [THEN mp, OF conjI [OF cap c]] n0 unfolding r0 s0 s1 by blast
  have f: "hw_document (snd (removeTextHighlight (highlight_calls hello_world0 hello_calls) ''n1''))
      = hello_page"
    using T3 [THEN mp, OF conjI [OF cap1 cy]] n0 unfolding r1 by blast
  show ?thesis using wf tr cap c n0 a g l two e cy f unfolding r0 by (simp only: simp_thms)
qed

subsection \<open>C6: where bulk eviction runs\<close>

lemma other_highlights_keys:
  "''n1'' \<notin> fst ` set other_highlights" "''a'' \<notin> fst ` set other_highlights"
  "distinct (map fst other_highlights)" "length other_highlights = 999"
proof -
  show "''n1'' \<notin> fst ` set other_highlights" "''a'' \<notin> fst ` set other_highlights"
    unfolding other_highlights_def by auto
  have "inj_on (\<lambda>i. replicate (Suc i) CHR ''x'') (set [0..<999])"
    by (rule inj_onI) (metis length_replicate nat.inject)
  then show "distinct (map fst other_highlights)"
    unfolding other_highlights_def by (simp add: distinct_map comp_def)
  show "length other_highlights = 999" unfolding other_highlights_def by simp
qed

lemma crowded_first_call:
  "createTextHighlight crowded_world inner_note (JSString ''yellow'') = (True, crowded_world1)"
proof -
  let ?rA = "\<lparr> hl_element = 4, hl_targetElement = 3, hl_originalText = ''hello world'' \<rparr>"
  let ?r = "\<lparr> hl_element = 1004, hl_targetElement = 4, hl_originalText = ''hello'' \<rparr>"
  let ?span = "ElementNode 4 ''span'' [] ''web-notes-highlight'' [TextNode ''hello world'']"
  let ?sd = "\<lparr> sd_text = ''hello'', sd_contextBefore = [],
                sd_contextAfter = '' world'', sd_targetElement = Some 4 \<rparr>"
  have k: "''n1'' \<notin> fst ` set (noteHighlights crowded_world)"
    using other_highlights_keys(1) by (simp add: crowded_world_def)
  then have r0: "snd (removeTextHighlight crowded_world (hn_id inner_note)) = crowded_world"
    unfolding removeTextHighlight_def by (simp add: inner_note_def map_get_None [THEN iffD2])
  have s: "subtree_of 4 (hw_document crowded_world) = Some ?span"
    unfolding crowded_world_def by (simp add: crowded_page_def subtree_of_def)
  have f: "findTextInElement ?span ''hello'' [] '' world'' = Some (0, 0)" by code_simp
  have n: "nth_option (text_nodes ?span) 0 = Some ''hello world''" by simp
  have o: "findTextOffset ''hello world'' ''hello'' [] = Some 0" by code_simp
  have d: "update_element 4 (splice_in 0 (highlight_fragment 1004 0 5)) crowded_page
      = ElementNode 1 ''html'' [] []
          [ElementNode 2 ''body'' [] []
             [ElementNode 3 ''p'' [] []
                [ElementNode 4 ''span'' [] ''web-notes-highlight''
                   [TextNode [], ElementNode 1004 ''span'' [] ''web-notes-highlight''
                      [TextNode ''hello''], TextNode '' world'']]]]"
    by code_simp
  have u: "unwrap 4 (ElementNode 1 ''html'' [] []
          [ElementNode 2 ''body'' [] []
             [ElementNode 3 ''p'' [] []
                [ElementNode 4 ''span'' [] ''web-notes-highlight''
                   [TextNode [], ElementNode 1004 ''span'' [] ''web-notes-highlight''
                      [TextNode ''hello''], TextNode '' world'']]]]) = cleared_page"
    by code_simp
  have sd: "hn_selectionData inner_note = Some ?sd" "sd_text ?sd \<noteq> []"
    "sd_targetElement ?sd = Some 4"
    by (simp_all add: inner_note_def)
  have c: "createTextHighlight crowded_world inner_note (JSString ''yellow'') =
     (True, cleanupHighlights
       \<lparr> hw_document =
           update_element 4 (splice_in 0 (highlight_fragment (hw_next_id crowded_world) 0
              (length (sd_text ?sd)))) (hw_document crowded_world),
         noteHighlights =
           map_set (noteHighlights crowded_world) (hn_id inner_note)
             \<lparr> hl_element = hw_next_id crowded_world, hl_targetElement = 4,
               hl_originalText = sd_text ?sd \<rparr>,
         hw_next_id = Suc (hw_next_id crowded_world) \<rparr>)"
    using createTextHighlight_succeeds [of inner_note ?sd 4 crowded_world ?span 0 0
        "''hello world''" 0 "JSString ''yellow''", unfolded r0, OF sd s]
      f n o
    by simp
  have m: "map_set (noteHighlights crowded_world) ''n1'' ?r
      = (''a'', ?rA) # other_highlights @ [(''n1'', ?r)]"
    using map_set_fresh [OF k] by (simp add: crowded_world_def)
  have fl: "filter (\<lambda>(k', v'). k' \<noteq> ''a'') other_highlights = other_highlights"
    unfolding filter_id_conv using other_highlights_keys(2) by force
  have rm: "removeTextHighlight
       \<lparr> hw_document = update_element 4 (splice_in 0 (highlight_fragment 1004 0 5)) crowded_page,
         noteHighlights = (''a'', ?rA) # other_highlights @ [(''n1'', ?r)],
         hw_next_id = 1005 \<rparr> ''a'' = (True, crowded_world1)"
    unfolding removeTextHighlight_def map_get_def map_delete_def d
    by (simp add: u fl crowded_world1_def del: unwrap.simps One_nat_def)
  have cl: "cleanupHighlights
       \<lparr> hw_document = update_element 4 (splice_in 0 (highlight_fragment 1004 0 5)) crowded_page,
         noteHighlights = (''a'', ?rA) # other_highlights @ [(''n1'', ?r)],
         hw_next_id = 1005 \<rparr> = crowded_world1"
    unfolding cleanupHighlights_def
    by (simp add: other_highlights_keys(4) MAX_HIGHLIGHTS_def rm)
  have e: "hw_next_id crowded_world = 1004" "Suc (hw_next_id crowded_world) = 1005"
    "length (sd_text ?sd) = 5" "hw_document crowded_world = crowded_page"
    "hn_id inner_note = ''n1''" "sd_text ?sd = ''hello''"
    "length ''hello'' = 5" "Suc 1004 = 1005"
    by (simp_all add: crowded_world_def inner_note_def)
  show ?thesis by (simp only: c e m cl)
qed

lemma crowded_second_call:
  "createTextHighlight crowded_world1 inner_note (JSString ''yellow'') = (False, crowded_world2)"
proof -
  let ?r = "\<lparr> hl_element = 1004, hl_targetElement = 4, hl_originalText = ''hello'' \<rparr>"
  have g: "map_get (noteHighlights crowded_world1) ''n1'' = Some ?r"
    using map_get_last [OF other_highlights_keys(1)] by (simp add: crowded_world1_def)
  have u: "unwrap 1004 cleared_page = cleared_page" by code_simp
  have r: "removeTextHighlight crowded_world1 ''n1'' = (True, crowded_world2)"
    unfolding removeTextHighlight_def g
    by (simp add: crowded_world1_def crowded_world2_def u
          map_delete_last [OF other_highlights_keys(1)])
  have s: "subtree_of 4 (hw_document crowded_world2) = None"
    by (simp add: crowded_world2_def cleared_page_def subtree_of_def)
  show ?thesis
    unfolding createTextHighlight_def by (simp add: inner_note_def r s)
qed

lemma well_formed_crowded_world: "well_formed crowded_world"
  unfolding well_formed_def
  using other_highlights_keys(2,3) by (simp add: crowded_world_def crowded_page_def)

lemma tracked_crowded_world: "highlights_tracked crowded_world"
proof -
  have r: "recorded_elements crowded_world = 4 # map (\<lambda>i. 5 + i) [0..<999]"
    unfolding recorded_elements_def crowded_world_def other_highlights_def
    by (simp add: comp_def)
  have s: "highlight_spans (hw_document crowded_world) = [4]"
    by (simp add: crowded_world_def crowded_page_def HIGHLIGHT_CLASS_def)
  have "distinct (map (\<lambda>i. 5 + i) [0..<999])" by (simp add: distinct_map inj_on_def)
  then have d: "distinct (recorded_elements crowded_world)" unfolding r by auto
  have b: "list_all (\<lambda>h. h < hw_next_id crowded_world) (recorded_elements crowded_world)"
    unfolding r by (auto simp: list_all_iff crowded_world_def)
  have c: "className_of (hw_document crowded_world) \<noteq> HIGHLIGHT_CLASS"
    by (simp add: crowded_world_def crowded_page_def HIGHLIGHT_CLASS_def)
  show ?thesis unfolding highlights_tracked_def untracked_highlights_def s
    using d b c by (simp add: r)
qed

lemma live_crowded_world1: "live_highlights crowded_world1 (hn_id inner_note) = []"
  unfolding live_highlights_def
  by (simp add: crowded_world1_def cleared_page_def HIGHLIGHT_CLASS_def split: option.splits)

text \<open>
  C6, as stated, fails where bulk eviction runs.  1000 highlights are tracked, the oldest one around
  \<open>hello world\<close>; its span is the target element of a new note on \<open>hello\<close>.  The first
  \<open>createTextHighlight\<close> wraps \<open>hello\<close> inside that span, records it as entry 1001 and
  returns \<open>true\<close>, after \<open>cleanupHighlights\<close> has unwrapped the oldest highlight and with it
  the new span: the note has no live highlight.  The second call removes the entry, finds the target element outside the
  document and returns \<open>false\<close>: two calls in succession leave no wrapper and no entry.
  A call for a text that the target element does not contain returns \<open>false\<close> and leaves
  no wrapper either.
\<close>

theorem C6_counterexample:
  "well_formed crowded_world \<and>
   highlights_tracked crowded_world \<and>
   createTextHighlight crowded_world inner_note (JSString ''yellow'') = (True, crowded_world1) \<and>
   live_highlights crowded_world1 (hn_id inner_note) = [] \<and>
   createTextHighlight crowded_world1 inner_note (JSString ''yellow'') = (False, crowded_world2) \<and>
   highlight_spans (hw_document crowded_world2) = [] \<and>
   map_get (noteHighlights crowded_world2) (hn_id inner_note) = None \<and>
   createTextHighlight hello_world0 absent_note (JSString ''yellow'') = (False, hello_world0) \<and>
   highlight_spans (hw_document hello_world0) = []"
proof -
  have a: "highlight_spans (hw_document crowded_world2) = []"
    by (simp add: crowded_world2_def cleared_page_def HIGHLIGHT_CLASS_def)
  have b: "map_get (noteHighlights crowded_world2) (hn_id inner_note) = None"
    using other_highlights_keys(1) by (simp add: crowded_world2_def inner_note_def map_get_None)
  have c: "createTextHighlight hello_world0 absent_note (JSString ''yellow'') = (False, hello_world0)"
    by code_simp
  have d: "highlight_spans (hw_document hello_world0) = []" by code_simp
  show ?thesis
    using well_formed_crowded_world tracked_crowded_world live_crowded_world1
      crowded_first_call crowded_second_call a b c d
    by simp
qed

end
